(* ===== verification/Redis_Prelude.thy ===== *)
theory Redis_Prelude
  imports Main "HOL-Library.Word" "HOL-Library.Monad_Syntax"
begin

text \<open>
  The vocabulary shared by the component theories: bytes and little-endian integers, a block
  of memory as a list of bytes with checked accesses, and the allocator as a parameter.

  C code that reads or writes outside a block, or that fails an \<^verbatim>\<open>assert\<close>, has no result
  here: every operation that touches memory returns an option, and \<open>None\<close> stands for
  undefined behaviour or an aborted process. A \<^verbatim>\<open>NULL\<close> that the code returns on purpose is a
  value of its own (an inner option), never the outer \<open>None\<close>.
\<close>

unbundle bit_operations_syntax

type_synonym byte = "8 word"
type_synonym mem = "byte list"

named_theorems mem_simps
named_theorems le_simps

subsection \<open>Ranges of the signed C types\<close>

definition in_signed :: "nat \<Rightarrow> int \<Rightarrow> bool" where
  "in_signed n v \<longleftrightarrow> - (2 ^ (n - 1)) \<le> v \<and> v < 2 ^ (n - 1)"

abbreviation in_i64 :: "int \<Rightarrow> bool" where
  "in_i64 \<equiv> in_signed 64"

lemma in_i64_iff: "in_i64 v \<longleftrightarrow> - 9223372036854775808 \<le> v \<and> v < 9223372036854775808"
  by (simp add: in_signed_def)

lemma in_signed_mono: "in_signed (8 * d) v \<Longrightarrow> d \<le> e \<Longrightarrow> in_signed (8 * e) v"
proof -
  assume a: "in_signed (8 * d) v" "d \<le> e"
  have "(2 :: int) ^ (8 * d - 1) \<le> 2 ^ (8 * e - 1)" using a(2) by (intro power_increasing) auto
  with a(1) show ?thesis unfolding in_signed_def by linarith
qed

subsection \<open>Little-endian integers\<close>

text \<open>
  \<open>load_le\<close> is the value that \<^verbatim>\<open>p[0] | p[1]<<8 | p[2]<<16 | ...\<close> computes, and what a
  \<^verbatim>\<open>memcpy\<close> into an unsigned integer gives on a little-endian machine; \<open>store_le\<close> writes
  the \<open>n\<close> low bytes of a value.
\<close>

fun load_le :: "byte list \<Rightarrow> nat" where
  "load_le [] = 0"
| "load_le (b # bs) = unat b OR push_bit 8 (load_le bs)"

fun store_le :: "nat \<Rightarrow> nat \<Rightarrow> byte list" where
  "store_le 0 v = []"
| "store_le (Suc n) v = of_nat v # store_le n (drop_bit 8 v)"

lemma or_push_bit_nat:
  fixes a b :: nat
  assumes "a < 2 ^ k"
  shows "a OR push_bit k b = a + b * 2 ^ k"
proof -
  have "a AND push_bit k b = 0"
  proof (rule bit_eqI)
    fix n
    from assms have "take_bit k a = a" by (simp add: take_bit_nat_eq_self)
    then have "bit a n \<Longrightarrow> n < k" by (metis bit_take_bit_iff)
    then show "bit (a AND push_bit k b) n = bit (0 :: nat) n"
      by (auto simp: bit_simps)
  qed
  then show ?thesis by (simp add: disjunctive_add_eq_or [symmetric] push_bit_eq_mult)
qed

lemma load_le_Cons [le_simps]: "load_le (b # bs) = unat b + 256 * load_le bs"
proof -
  have "unat b < 2 ^ 8" using unsigned_less [of b] by simp
  then show ?thesis by (simp add: or_push_bit_nat)
qed

declare load_le.simps(2) [simp del]

lemma length_store_le [simp]: "length (store_le n v) = n"
  by (induction n arbitrary: v) auto

lemma load_le_less: "load_le bs < 256 ^ length bs"
proof (induction bs)
  case (Cons b bs)
  have "unat b < 256" using unsigned_less [of b] by simp
  with Cons show ?case by (simp add: le_simps)
qed simp

lemma load_le_store_le [simp]: "load_le (store_le n v) = v mod 256 ^ n"
proof (induction n arbitrary: v)
  case (Suc n)
  have "unat (of_nat v :: byte) = v mod 256" by (simp add: unat_of_nat)
  then show ?case
    by (simp add: Suc le_simps drop_bit_eq_div mod_mult2_eq)
qed simp

lemma store_le_load_le [simp]: "store_le (length bs) (load_le bs) = bs"
proof (induction bs)
  case (Cons b bs)
  have "unat b < 256" using unsigned_less [of b] by simp
  then have "unat (of_nat (unat b + 256 * load_le bs) :: byte) = unat b"
    by (simp only: unat_of_nat) simp
  then have "(of_nat (unat b + 256 * load_le bs) :: byte) = b"
    by (simp only: word_unat_eq_iff)
  with \<open>unat b < 256\<close> show ?case
    by (simp add: Cons le_simps drop_bit_eq_div del: of_nat_add)
qed simp

lemma load_le_append: "load_le (xs @ ys) = load_le xs + 256 ^ length xs * load_le ys"
  by (induction xs) (simp_all add: le_simps algebra_simps)

lemma store_le_4:
  "store_le 4 v = [of_nat v, of_nat (v div 256), of_nat (v div 65536), of_nat (v div 16777216)]"
proof -
  have "(4 :: nat) = Suc (Suc (Suc (Suc 0)))" by simp
  then show ?thesis by (simp only: store_le.simps) (simp add: drop_bit_eq_div div_mult2_eq [symmetric])
qed

text \<open>A signed integer of \<open>n\<close> bytes: two's complement on both sides.\<close>

definition load_signed :: "byte list \<Rightarrow> int" where
  "load_signed bs = signed_take_bit (8 * length bs - 1) (int (load_le bs))"

definition store_signed :: "nat \<Rightarrow> int \<Rightarrow> byte list" where
  "store_signed n v = store_le n (nat (take_bit (8 * n) v))"

lemma length_store_signed [simp]: "length (store_signed n v) = n"
  by (simp add: store_signed_def)

lemma load_store_signed:
  assumes "0 < n" and "in_signed (8 * n) v"
  shows "load_signed (store_signed n v) = v"
proof -
  have "take_bit (8 * n) v < 2 ^ (8 * n)" by simp
  also have "(2 :: int) ^ (8 * n) = 256 ^ n" by (simp add: power_mult)
  finally have "nat (take_bit (8 * n) v) < 256 ^ n" by (simp add: nat_less_iff)
  then have "load_signed (store_signed n v) = signed_take_bit (8 * n - 1) (take_bit (8 * n) v)"
    by (simp add: load_signed_def store_signed_def)
  also have "\<dots> = signed_take_bit (8 * n - 1) v"
    using assms(1) by (auto simp: signed_take_bit_take_bit)
  also have "\<dots> = v"
    using assms by (simp add: in_signed_def signed_take_bit_int_eq_self)
  finally show ?thesis .
qed

lemma in_signed_load_signed: "bs \<noteq> [] \<Longrightarrow> in_signed (8 * length bs) (load_signed bs)"
  by (simp add: in_signed_def load_signed_def)

lemma store_load_signed: "bs \<noteq> [] \<Longrightarrow> store_signed (length bs) (load_signed bs) = bs"
proof -
  assume "bs \<noteq> []"
  have "(256 :: nat) ^ length bs = 2 ^ (8 * length bs)" by (simp add: power_mult)
  then have "int (load_le bs) < 2 ^ (8 * length bs)"
    using load_le_less [of bs] by (metis of_nat_less_numeral_power_cancel_iff)
  then have "take_bit (8 * length bs) (int (load_le bs)) = int (load_le bs)"
    by (simp add: take_bit_int_eq_self)
  with \<open>bs \<noteq> []\<close> show ?thesis
    by (simp add: store_signed_def load_signed_def take_bit_signed_take_bit)
qed

lemma unat_ucast_byte: "unat (ucast (b :: byte) :: 64 word) = unat b"
proof -
  have "unat b < 256" using unsigned_less [of b] by simp
  then have "unat b < 2 ^ 64" by simp
  then show ?thesis by (simp add: unsigned_ucast_eq take_bit_nat_eq_self)
qed

lemma signed_take_bit_63_nat:
  "n < 2 ^ 63 \<Longrightarrow> signed_take_bit 63 (int n) = int n"
  "n \<le> 2 ^ 63 \<Longrightarrow> signed_take_bit 63 (- int n) = - int n"
  by (simp_all add: signed_take_bit_int_eq_self)

lemma sint_word_of_int_64: "sint (word_of_int k :: 64 word) = signed_take_bit 63 k"
  by (simp only: signed_of_int) simp

lemma sint_word_small:
  fixes w :: "64 word"
  assumes "unat w < 2 ^ 63"
  shows "sint w = int (unat w)"
proof -
  have "sint (word_of_int (int (unat w)) :: 64 word) = int (unat w)"
    using assms by (simp only: sint_word_of_int_64 signed_take_bit_63_nat)
  then show ?thesis by simp
qed

lemma sint_neg_word:
  fixes w :: "64 word"
  assumes "unat w \<le> 2 ^ 63"
  shows "sint (- w) = - int (unat w)"
proof -
  have "sint (word_of_int (- int (unat w)) :: 64 word) = - int (unat w)"
    using assms by (simp only: sint_word_of_int_64 signed_take_bit_63_nat)
  then show ?thesis by simp
qed

lemma length_2_conv: "length xs = 2 \<longleftrightarrow> (\<exists>a b. xs = [a, b])"
  by (auto simp: numeral_2_eq_2 length_Suc_conv)

text \<open>Fields of a byte selected by a mask.\<close>

lemma and_field:
  fixes n :: nat
  shows "n AND push_bit j (mask k) = 2 ^ j * (n div 2 ^ j mod 2 ^ k)"
proof -
  have "n AND push_bit j (mask k) = push_bit j (take_bit k (drop_bit j n))"
    by (rule bit_eqI) (auto simp: bit_simps)
  then show ?thesis by (simp add: push_bit_eq_mult take_bit_eq_mod drop_bit_eq_div)
qed

lemma and_byte_field:
  assumes "unat (c :: byte) = push_bit j (mask k)"
  shows "unat (b AND c) = 2 ^ j * (unat b div 2 ^ j mod 2 ^ k)"
  using assms by (simp only: unsigned_and_eq and_field)

lemma unat_byte: "unat (b :: byte) < 256"
  using unsigned_less [of b] by simp

lemma byte_masks:
  fixes b :: byte
  shows "unat (b AND 0x80) = 128 * (unat b div 128)" and "unat (b AND 0xC0) = 64 * (unat b div 64)"
    and "unat (b AND 0xE0) = 32 * (unat b div 32)" and "unat (b AND 0xF0) = 16 * (unat b div 16)"
    and "unat (b AND 0x7F) = unat b mod 128" and "unat (b AND 0x3F) = unat b mod 64"
    and "unat (b AND 0x1F) = unat b mod 32" and "unat (b AND 0xF) = unat b mod 16"
    and "unat (b AND 0xFF) = unat b"
  using and_byte_field [of "0x80" 7 1 b] and_byte_field [of "0xC0" 6 2 b] and_byte_field [of "0xE0" 5 3 b]
    and_byte_field [of "0xF0" 4 4 b] and_byte_field [of "0x7F" 0 7 b] and_byte_field [of "0x3F" 0 6 b]
    and_byte_field [of "0x1F" 0 5 b] and_byte_field [of "0xF" 0 4 b] and_byte_field [of "0xFF" 0 8 b] unat_byte [of b]
  by (simp_all add: mask_eq_exp_minus_1 push_bit_eq_mult less_mult_imp_div_less)

subsection \<open>Blocks of memory\<close>

definition rd :: "mem \<Rightarrow> nat \<Rightarrow> byte option" where
  "rd m i = (if i < length m then Some (m ! i) else None)"

definition rdn :: "mem \<Rightarrow> nat \<Rightarrow> nat \<Rightarrow> mem option" where
  "rdn m i n = (if i + n \<le> length m then Some (take n (drop i m)) else None)"

definition wr :: "mem \<Rightarrow> nat \<Rightarrow> mem \<Rightarrow> mem option" where
  "wr m i bs = (if i + length bs \<le> length m
     then Some (take i m @ bs @ drop (i + length bs) m) else None)"

definition memmove :: "mem \<Rightarrow> nat \<Rightarrow> nat \<Rightarrow> nat \<Rightarrow> mem option" where
  "memmove m dst src n = do { bs \<leftarrow> rdn m src n; wr m dst bs }"

lemma rd_append_right [mem_simps]: "length xs \<le> i \<Longrightarrow> rd (xs @ ys) i = rd ys (i - length xs)"
  by (auto simp: rd_def nth_append)

lemma rd_append_left [mem_simps]: "i < length xs \<Longrightarrow> rd (xs @ ys) i = Some (xs ! i)"
  by (auto simp: rd_def nth_append)

lemma rd_Cons_0 [mem_simps]: "rd (y # ys) 0 = Some y"
  by (simp add: rd_def)

lemma rd_at [mem_simps]: "i = length xs \<Longrightarrow> rd (xs @ y # zs) i = Some y"
  by (simp add: rd_def)

lemma rdn_at: "i = length xs \<Longrightarrow> n = length ys \<Longrightarrow> rdn (xs @ ys @ zs) i n = Some ys"
  by (simp add: rdn_def)

lemma wr_at:
  "i = length xs \<Longrightarrow> length ws = length ys \<Longrightarrow> wr (xs @ ys @ zs) i ws = Some (xs @ ws @ zs)"
  by (simp add: wr_def)

lemma rdn_Some_length: "rdn m i n = Some bs \<Longrightarrow> length bs = n"
  by (auto simp: rdn_def split: if_splits)

lemma wr_Some_length: "wr m i bs = Some m' \<Longrightarrow> length m' = length m"
  by (auto simp: wr_def split: if_splits)

lemma memmove_Some_length: "memmove m d s n = Some m' \<Longrightarrow> length m' = length m"
  by (auto simp: memmove_def bind_eq_Some_conv dest: wr_Some_length)

lemma rdn_wr_same: "wr m i bs = Some m' \<Longrightarrow> n = length bs \<Longrightarrow> rdn m' i n = Some bs"
  by (auto simp: wr_def rdn_def split: if_splits)

lemma rdn_wr_other:
  assumes "wr m i bs = Some m'" and "j + n \<le> i \<or> i + length bs \<le> j"
  shows "rdn m' j n = rdn m j n"
proof -
  from assms(1) have le: "i + length bs \<le> length m"
    and m': "m' = take i m @ bs @ drop (i + length bs) m"
    by (auto simp: wr_def split: if_splits)
  from assms(2) show ?thesis
  proof
    assume "j + n \<le> i"
    with le show ?thesis by (auto simp: rdn_def m' drop_take)
  next
    assume "i + length bs \<le> j"
    with le show ?thesis by (auto simp: rdn_def m' drop_append)
  qed
qed

lemma rdn_memmove:
  assumes "memmove m d s n = Some m'" and "k + l \<le> n"
  shows "rdn m' (d + k) l = rdn m (s + k) l"
proof -
  from assms(1) have s: "s + n \<le> length m" and d: "d + n \<le> length m"
    and m': "m' = take d m @ take n (drop s m) @ drop (d + n) m"
    by (auto simp: memmove_def rdn_def wr_def bind_eq_Some_conv split: if_splits)
  have "length m' = length m" using s d by (simp add: m')
  moreover have "take l (drop (d + k) m') = take l (drop (s + k) m)"
    using assms(2) s d by (intro nth_equalityI) (auto simp: m' nth_append algebra_simps)
  ultimately show ?thesis using assms(2) s d by (simp add: rdn_def)
qed

lemma rdn_memmove_other:
  assumes "memmove m d s n = Some m'" and "j + l \<le> d \<or> d + n \<le> j"
  shows "rdn m' j l = rdn m j l"
  using assms by (auto simp: memmove_def bind_eq_Some_conv dest: rdn_Some_length rdn_wr_other)

lemma memmove_Some: "s + n \<le> length m \<Longrightarrow> d + n \<le> length m \<Longrightarrow> \<exists>m'. memmove m d s n = Some m'"
  by (simp add: memmove_def rdn_def wr_def)

lemma wr_Some: "i + length bs \<le> length m \<Longrightarrow> \<exists>m'. wr m i bs = Some m'"
  by (simp add: wr_def)

lemma rdn_take_cong:
  assumes "take k m = take k m'" and "k \<le> length m" and "k \<le> length m'" and "i + n \<le> k"
  shows "rdn m i n = rdn m' i n"
proof -
  have "take n (drop i (take k x)) = take n (drop i x)" for x :: mem
    using assms(4) by (simp add: drop_take)
  then have "take n (drop i m) = take n (drop i m')" by (metis assms(1))
  then show ?thesis using assms by (simp add: rdn_def)
qed

text \<open>Slots of an array whose elements take \<open>e\<close> bytes.\<close>

lemma slot_le: "i < n \<Longrightarrow> i * e + e \<le> n * (e :: nat)"
proof -
  assume "i < n"
  then have "Suc i \<le> n" by simp
  then have "Suc i * e \<le> n * e" by (rule mult_le_mono1)
  then show ?thesis by simp
qed

lemma slots_disjoint: "i \<noteq> j \<Longrightarrow> i * e + e \<le> j * e \<or> j * e + e \<le> i * (e :: nat)"
  using slot_le [of i j e] slot_le [of j i e] by (cases i j rule: linorder_cases) auto

lemma block_split:
  assumes "d + n \<le> length (m :: mem)"
  obtains pre gap suf where "m = pre @ gap @ suf" and "length pre = d" and "length gap = n"
    and "pre = take d m" and "suf = drop (d + n) m"
proof (rule that [of "take d m" "take n (drop d m)" "drop (d + n) m"])
  show "m = take d m @ take n (drop d m) @ drop (d + n) m"
    by (metis append_take_drop_id drop_drop add.commute)
qed (use assms in auto)

subsection \<open>The allocator\<close>

text \<open>
  \<^verbatim>\<open>zmalloc\<close> and \<^verbatim>\<open>zrealloc\<close> wrap the allocator the server is linked with, which is a
  parameter: \<open>al_ok\<close> says whether a request is served (when it is not, the out-of-memory
  handler aborts the process), \<open>al_slack\<close> by how much the usable size exceeds the request,
  and \<open>al_junk\<close> what fresh memory holds. A block is the list of the bytes its owner may use: the
  requested ones after \<^verbatim>\<open>zmalloc\<close> and \<^verbatim>\<open>zrealloc\<close>, and the whole usable size after
  \<^verbatim>\<open>zmalloc_usable\<close> and \<^verbatim>\<open>zrealloc_usable\<close>, which report it.
\<close>

record allocator =
  al_ok :: "nat \<Rightarrow> bool"
  al_slack :: "nat \<Rightarrow> nat"
  al_junk :: "nat \<Rightarrow> byte"

definition resize_block :: "allocator \<Rightarrow> mem \<Rightarrow> nat \<Rightarrow> nat \<Rightarrow> mem option" where
  "resize_block al m n usable = (if al_ok al n
     then Some (take n m @ map (al_junk al) [min n (length m)..<usable]) else None)"

definition zmalloc :: "allocator \<Rightarrow> nat \<Rightarrow> mem option" where
  "zmalloc al n = resize_block al [] n n"

definition zmalloc_usable :: "allocator \<Rightarrow> nat \<Rightarrow> mem option" where
  "zmalloc_usable al n = resize_block al [] n (n + al_slack al n)"

definition zrealloc :: "allocator \<Rightarrow> mem \<Rightarrow> nat \<Rightarrow> mem option" where
  "zrealloc al m n = resize_block al m n n"

definition zrealloc_usable :: "allocator \<Rightarrow> mem \<Rightarrow> nat \<Rightarrow> mem option" where
  "zrealloc_usable al m n = resize_block al m n (n + al_slack al n)"

lemma resize_block_Some_length:
  "resize_block al m n u = Some m' \<Longrightarrow> n \<le> u \<Longrightarrow> n \<le> length m'"
  by (auto simp: resize_block_def split: if_splits)

lemma zmalloc_Some_length: "zmalloc al n = Some m \<Longrightarrow> length m = n"
  by (auto simp: zmalloc_def resize_block_def split: if_splits)

lemma zrealloc_Some_length: "zrealloc al m n = Some m' \<Longrightarrow> length m' = n"
  by (auto simp: zrealloc_def resize_block_def split: if_splits)

lemma zrealloc_Some_take: "zrealloc al m n = Some m' \<Longrightarrow> k \<le> n \<Longrightarrow> k \<le> length m \<Longrightarrow> take k m' = take k m"
  by (auto simp: zrealloc_def resize_block_def split: if_splits)

lemma zrealloc_ok: "al_ok al n \<Longrightarrow> \<exists>m'. zrealloc al m n = Some m'"
  by (simp add: zrealloc_def resize_block_def)

lemma zrealloc_usable_grow:
  assumes "al_ok al n" and "length m \<le> n"
  obtains r where "zrealloc_usable al m n = Some (m @ r)" and "n \<le> length m + length r"
  using assms by (auto simp: zrealloc_usable_def resize_block_def)

lemma zrealloc_usable_shrink:
  assumes "al_ok al n" and "n \<le> length m"
  obtains r where "zrealloc_usable al m n = Some (take n m @ r)"
  using assms by (auto simp: zrealloc_usable_def resize_block_def)

text \<open>An allocator that serves every request.\<close>

definition total_al :: "allocator \<Rightarrow> bool" where
  "total_al al \<longleftrightarrow> al_ok al = (\<lambda>_. True)"

text \<open>A concrete allocator for the examples: it serves every request with zeroed memory.\<close>

definition calm_al :: allocator where
  "calm_al = \<lparr>al_ok = (\<lambda>_. True), al_slack = (\<lambda>_. 0), al_junk = (\<lambda>_. 0)\<rparr>"

lemma total_calm_al [simp]: "total_al calm_al"
  by (simp add: total_al_def calm_al_def)

subsection \<open>Narrowing conversions\<close>

text \<open>A \<open>uint32_t\<close> read as an \<open>int\<close>.\<close>

definition int32_of_u32 :: "nat \<Rightarrow> int" where
  "int32_of_u32 n = signed_take_bit 31 (int n)"

end
