(* ===== verification/Redis_Util.thy ===== *)
theory Redis_Util
  imports Redis_Prelude
begin

text \<open>
  Number parsing and printing of \<^verbatim>\<open>src/util.c\<close>: \<open>digits10\<close>, \<open>sdigits10\<close>, \<open>ull2string\<close>,
  \<open>ll2string\<close>, \<open>string2ll\<close>, \<open>string2ull\<close>, \<open>string2l\<close>, \<open>memtoull\<close>, and the small buffer
  helpers \<open>mempbrk\<close> and \<open>memmapchars\<close>. A buffer is a block of memory with an offset; a string
  argument given as pointer and length is the list of its bytes. The specification side is the
  decimal notation \<open>udec\<close> / \<open>sdec\<close>, and the interface \<open>int_text\<close> that printing and parsing
  implement together.
\<close>

subsection \<open>Decimal notation\<close>

fun udec :: "nat \<Rightarrow> byte list" where
  "udec n = (if n < 10 then [48 + of_nat n] else udec (n div 10) @ [48 + of_nat (n mod 10)])"

declare udec.simps [simp del]

definition sdec :: "int \<Rightarrow> byte list" where
  "sdec v = (if v < 0 then 45 # udec (nat (- v)) else udec (nat v))"

definition is_digit :: "byte \<Rightarrow> bool" where
  "is_digit c \<longleftrightarrow> 48 \<le> c \<and> c \<le> 57"

subsection \<open>Printing\<close>

fun digits10 :: "nat \<Rightarrow> nat" where
  "digits10 v =
    (if v < 10 then 1
     else if v < 100 then 2
     else if v < 1000 then 3
     else if v < 1000000000000 then
       (if v < 100000000 then
          (if v < 1000000 then
             (if v < 10000 then 4 else 5 + of_bool (v \<ge> 100000))
           else 7 + of_bool (v \<ge> 10000000))
        else if v < 10000000000 then 9 + of_bool (v \<ge> 1000000000)
        else 11 + of_bool (v \<ge> 100000000000))
     else 12 + digits10 (v div 1000000000000))"

declare digits10.simps [simp del]

definition sdigits10 :: "int \<Rightarrow> nat" where
  "sdigits10 v =
    (if v < 0 then
       (let uv = (if v \<noteq> - (2 ^ 63) then nat (- v) else (2 ^ 63 - 1) + 1) in digits10 uv + 1)
     else digits10 (nat v))"

text \<open>Unsigned 32-bit subtraction wraps around.\<close>

definition u32_sub :: "nat \<Rightarrow> nat \<Rightarrow> nat" where
  "u32_sub a b = (a + 2 ^ 32 - b) mod 2 ^ 32"

definition digit_pairs :: "byte list" where
  "digit_pairs = map of_char (
     ''0001020304050607080910111213141516171819'' @
     ''2021222324252627282930313233343536373839'' @
     ''4041424344454647484950515253545556575859'' @
     ''6061626364656667686970717273747576777879'' @
     ''8081828384858687888990919293949596979899'')"

text \<open>The \<^verbatim>\<open>while (value >= 100)\<close> loop: two digits per round, from the back.\<close>

fun ull2string_loop :: "mem \<Rightarrow> nat \<Rightarrow> nat \<Rightarrow> nat \<Rightarrow> (mem \<times> nat \<times> nat) option" where
  "ull2string_loop buf dst next v =
    (if v \<ge> 100 then
       (let i = (v mod 100) * 2; v' = v div 100 in do {
          buf \<leftarrow> wr buf (dst + next) [digit_pairs ! (i + 1)];
          buf \<leftarrow> wr buf (dst + u32_sub next 1) [digit_pairs ! i];
          ull2string_loop buf dst (u32_sub next 2) v'
        })
     else Some (buf, next, v))"

declare ull2string_loop.simps [simp del]

definition ull2string_err :: "mem \<Rightarrow> nat \<Rightarrow> nat \<Rightarrow> (mem \<times> nat) option" where
  "ull2string_err buf dst dstlen = do {
     buf \<leftarrow> (if dstlen > 0 then wr buf dst [0] else Some buf);
     Some (buf, 0)
   }"

definition ull2string :: "mem \<Rightarrow> nat \<Rightarrow> nat \<Rightarrow> nat \<Rightarrow> (mem \<times> nat) option" where
  "ull2string buf dst dstlen value =
    (let len = digits10 value in
     if len \<ge> dstlen then ull2string_err buf dst dstlen
     else
       (let next = u32_sub len 1 in do {
          buf \<leftarrow> wr buf (dst + (next + 1)) [0];
          (buf, next, value) \<leftarrow> ull2string_loop buf dst next value;
          buf \<leftarrow> (if value < 10 then wr buf (dst + next) [48 + of_nat value]
                  else do {
                    buf \<leftarrow> wr buf (dst + next) [digit_pairs ! (value * 2 + 1)];
                    wr buf (dst + u32_sub next 1) [digit_pairs ! (value * 2)]
                  });
          Some (buf, len)
        }))"

definition ll2string :: "mem \<Rightarrow> nat \<Rightarrow> nat \<Rightarrow> int \<Rightarrow> (mem \<times> nat) option" where
  "ll2string buf dst dstlen svalue =
    (if svalue < 0 then
       (let value = (if svalue \<noteq> - (2 ^ 63) then nat (- svalue) else (2 ^ 63 - 1) + 1) in
        if dstlen < 2 then ull2string_err buf dst dstlen
        else do {
          buf \<leftarrow> wr buf dst [45];
          (buf, len) \<leftarrow> ull2string buf (dst + 1) (dstlen - 1) value;
          Some (buf, if len = 0 then 0 else len + 1)
        })
     else do {
       (buf, len) \<leftarrow> ull2string buf dst dstlen (nat svalue);
       Some (buf, len)
     })"

subsection \<open>Parsing\<close>

definition ULLONG_MAX :: "64 word" where
  "ULLONG_MAX = - 1"

text \<open>The digit loop of \<open>string2ll\<close>; \<open>None\<close> is its \<^verbatim>\<open>return 0\<close> on overflow.\<close>

fun string2ll_digits :: "64 word \<Rightarrow> byte list \<Rightarrow> (64 word \<times> byte list) option" where
  "string2ll_digits v [] = Some (v, [])"
| "string2ll_digits v (c # p) =
    (if 48 \<le> c \<and> c \<le> 57 then
       (if v > ULLONG_MAX div 10 then None
        else let v = v * 10 in
          if v > ULLONG_MAX - ucast (c - 48) then None
          else string2ll_digits (v + ucast (c - 48)) p)
     else Some (v, c # p))"

definition LONG_STR_SIZE :: nat where
  "LONG_STR_SIZE = 21"

definition string2ll :: "byte list \<Rightarrow> int option" where
  "string2ll s =
    (if length s = 0 \<or> length s \<ge> LONG_STR_SIZE then None
     else if s = [48] then Some 0
     else
       (let negative = (hd s = 45); p = (if negative then tl s else s) in
        case p of
          [] \<Rightarrow> None
        | c # p \<Rightarrow>
            if 49 \<le> c \<and> c \<le> 57 then
              (case string2ll_digits (ucast (c - 48)) p of
                 None \<Rightarrow> None
               | Some (v, rest) \<Rightarrow>
                   if rest \<noteq> [] then None
                   else if negative then
                     (if v > 2 ^ 63 then None else Some (sint (- v)))
                   else
                     (if v > 2 ^ 63 - 1 then None else Some (sint v)))
            else None))"

text \<open>\<^verbatim>\<open>long\<close> and \<^verbatim>\<open>long long\<close> have the same 64 bits on the platforms the server runs on.\<close>

definition string2l :: "byte list \<Rightarrow> int option" where
  "string2l s =
    (case string2ll s of
       None \<Rightarrow> None
     | Some llval \<Rightarrow> if llval < - (2 ^ 63) \<or> llval > 2 ^ 63 - 1 then None else Some llval)"

text \<open>
  \<^verbatim>\<open>strtoull(s, &end, 10)\<close> of the C library: leading white space, an optional sign, digits;
  a value beyond \<^verbatim>\<open>ULLONG_MAX\<close> saturates with \<^verbatim>\<open>ERANGE\<close>, a minus sign negates modulo
  \<open>2 ^ 64\<close>, and without digits nothing is consumed. Whether the latter sets \<^verbatim>\<open>EINVAL\<close> is left to
  the implementation, hence the parameter \<open>einval\<close>.
\<close>

datatype errno = E_none | EINVAL | ERANGE

definition is_space :: "byte \<Rightarrow> bool" where
  "is_space c \<longleftrightarrow> c = 32 \<or> (9 \<le> c \<and> c \<le> 13)"

fun digits_value :: "nat \<Rightarrow> byte list \<Rightarrow> nat" where
  "digits_value v [] = v"
| "digits_value v (c # p) = digits_value (10 * v + unat (c - 48)) p"

definition strtoull :: "bool \<Rightarrow> byte list \<Rightarrow> nat \<times> errno \<times> byte list" where
  "strtoull einval s =
    (let t = dropWhile is_space s;
         neg = (t \<noteq> [] \<and> hd t = 45);
         t = (if t \<noteq> [] \<and> (hd t = 45 \<or> hd t = 43) then tl t else t);
         ds = takeWhile is_digit t;
         v = digits_value 0 ds
     in if ds = [] then (0, if einval then EINVAL else E_none, s)
        else if v \<ge> 2 ^ 64 then (2 ^ 64 - 1, ERANGE, dropWhile is_digit t)
        else ((if neg then (2 ^ 64 - v) mod 2 ^ 64 else v), E_none, dropWhile is_digit t))"

definition string2ull :: "bool \<Rightarrow> byte list \<Rightarrow> nat option" where
  "string2ull einval s =
    (case string2ll s of
       Some ll \<Rightarrow> if ll < 0 then None else Some (nat ll)
     | None \<Rightarrow>
         (case strtoull einval s of
            (v, e, rest) \<Rightarrow>
              if e = EINVAL \<or> e = ERANGE \<or> \<not> (s \<noteq> [] \<and> rest = []) then None else Some v))"

definition tolower :: "byte \<Rightarrow> byte" where
  "tolower c = (if 65 \<le> c \<and> c \<le> 90 then c + 32 else c)"

definition strcasecmp_eq :: "byte list \<Rightarrow> string \<Rightarrow> bool" where
  "strcasecmp_eq u t \<longleftrightarrow> map tolower u = map (\<lambda>c. tolower (of_char c)) t"

definition memtoull_unit :: "byte list \<Rightarrow> nat option" where
  "memtoull_unit u =
    (if u = [] \<or> strcasecmp_eq u ''b'' then Some 1
     else if strcasecmp_eq u ''k'' then Some 1000
     else if strcasecmp_eq u ''kb'' then Some 1024
     else if strcasecmp_eq u ''m'' then Some (1000 * 1000)
     else if strcasecmp_eq u ''mb'' then Some (1024 * 1024)
     else if strcasecmp_eq u ''g'' then Some (1000 * 1000 * 1000)
     else if strcasecmp_eq u ''gb'' then Some (1024 * 1024 * 1024)
     else None)"

text \<open>The result and the value stored in \<^verbatim>\<open>*err\<close>.\<close>

definition memtoull :: "bool \<Rightarrow> byte list \<Rightarrow> nat \<times> bool" where
  "memtoull einval p =
    (if p \<noteq> [] \<and> hd p = 45 then (0, True)
     else
       (case memtoull_unit (dropWhile is_digit p) of
          None \<Rightarrow> (0, True)
        | Some mul \<Rightarrow>
            (let buf = takeWhile is_digit p in
             if length buf \<ge> 128 then (0, True)
             else
               (case strtoull einval buf of
                  (val, e, rest) \<Rightarrow>
                    if (val = 0 \<and> e = EINVAL) \<or> rest \<noteq> [] then (0, True)
                    else ((val * mul) mod 2 ^ 64, False)))))"

text \<open>\<open>mempbrk\<close> returns the index of the first byte that is one of \<open>chars\<close>.\<close>

fun mempbrk :: "byte list \<Rightarrow> byte list \<Rightarrow> nat option" where
  "mempbrk [] chars = None"
| "mempbrk (c # s) chars = (if c \<in> set chars then Some 0 else map_option Suc (mempbrk s chars))"

text \<open>The inner loop of \<open>memmapchars\<close> stops at the first match.\<close>

fun memmapchar :: "byte \<Rightarrow> byte list \<Rightarrow> byte list \<Rightarrow> byte" where
  "memmapchar c (f # from) (t # to) = (if c = f then t else memmapchar c from to)"
| "memmapchar c _ _ = c"

definition memmapchars :: "byte list \<Rightarrow> byte list \<Rightarrow> byte list \<Rightarrow> byte list" where
  "memmapchars s from to = map (\<lambda>c. memmapchar c from to) s"

subsection \<open>Facts about decimal notation\<close>

lemma udec_less_10: "n < 10 \<Longrightarrow> udec n = [48 + of_nat n]"
  by (simp add: udec.simps)

lemma udec_ge_10: "10 \<le> n \<Longrightarrow> udec n = udec (n div 10) @ [48 + of_nat (n mod 10)]"
  by (subst udec.simps) simp

lemma udec_ge_100:
  assumes "100 \<le> n"
  shows "udec n = udec (n div 100) @ [48 + of_nat (n mod 100 div 10), 48 + of_nat (n mod 100 mod 10)]"
proof -
  have "n div 10 mod 10 = n mod 100 div 10" and "n mod 100 mod 10 = n mod 10"
    using mod_mult2_eq [of n 10 10] by (simp_all add: mod_mod_cancel)
  moreover have "n div 10 div 10 = n div 100"
    using div_mult2_eq [of n 10 10] by simp
  moreover have "10 \<le> n div 10" using assms by (simp add: less_eq_div_iff_mult_less_eq)
  ultimately show ?thesis
    using assms udec_ge_10 [of n] udec_ge_10 [of "n div 10"] by simp
qed

lemma udec_not_Nil [simp]: "udec n \<noteq> []"
  by (subst udec.simps) simp

lemma length_udec_div:
  "10 ^ k \<le> n \<Longrightarrow> length (udec n) = k + length (udec (n div 10 ^ k))"
proof (induction k arbitrary: n)
  case (Suc k)
  have "10 \<le> n"
    using Suc.prems order_trans [of 10 "10 ^ Suc k" n] by simp
  moreover have "10 ^ k \<le> n div 10"
    using Suc.prems by (simp add: less_eq_div_iff_mult_less_eq mult.commute)
  ultimately show ?case
    using Suc.IH [of "n div 10"] by (simp add: udec_ge_10 div_mult2_eq)
qed simp

text \<open>The digit count is determined by the powers of ten around the number.\<close>

lemma length_udec_bounds:
  "(0 < n \<longrightarrow> 10 ^ (length (udec n) - 1) \<le> n) \<and> n < 10 ^ length (udec n)"
proof (induction n rule: udec.induct)
  case (1 n)
  show ?case
  proof (cases "n < 10")
    case False
    define m where "m = n div 10"
    define l where "l = length (udec m)"
    have "0 < m" and "n < 10 * (m + 1)" and "10 * m \<le> n" using False by (auto simp: m_def)
    moreover have "10 ^ (l - 1) \<le> m" and "m < 10 ^ l"
      using 1 False \<open>0 < m\<close> by (auto simp: m_def l_def)
    moreover have "l \<noteq> 0" by (simp add: l_def)
    then have "(10 :: nat) ^ l = 10 * 10 ^ (l - 1)" by (cases l) auto
    moreover have "length (udec n) = Suc l" using False by (simp add: udec_ge_10 m_def l_def)
    ultimately show ?thesis by simp
  qed (simp add: udec_less_10)
qed

lemma length_udec_unique:
  assumes "10 ^ k \<le> n" and "n < 10 ^ Suc k"
  shows "length (udec n) = Suc k"
proof -
  have "n div 10 ^ k < 10" using assms(2) by (simp add: less_mult_imp_div_less)
  then show ?thesis using length_udec_div [OF assms(1)] by (simp add: udec_less_10)
qed

lemma digits10_small:
  assumes "10 ^ k \<le> v" and "v < 10 ^ Suc k" and "k < 12"
  shows "digits10 v = Suc k"
proof -
  have "k = 0 \<or> k = 1 \<or> k = 2 \<or> k = 3 \<or> k = 4 \<or> k = 5 \<or> k = 6 \<or> k = 7 \<or> k = 8 \<or> k = 9 \<or>
      k = 10 \<or> k = 11"
    using assms(3) by presburger
  then show ?thesis using assms(1,2)
    by (elim disjE; hypsubst; subst digits10.simps; simp)
qed

lemma digits10_eq: "digits10 v = length (udec v)"
proof (induction v rule: digits10.induct)
  case (1 v)
  define k where "k = length (udec v) - 1"
  have len: "length (udec v) = Suc k" by (simp add: k_def)
  show ?case
  proof (cases "v < 1000000000000")
    case True
    show ?thesis
    proof (cases "v = 0")
      case False
      with length_udec_bounds [of v] len have b: "10 ^ k \<le> v" "v < 10 ^ Suc k" by auto
      then have "(10 :: nat) ^ k < 10 ^ 12" using True by simp
      then have "k < 12" by (rule power_less_imp_less_exp [rotated]) simp
      with b len show ?thesis by (simp add: digits10_small)
    qed (simp add: digits10.simps udec_less_10)
  next
    case False
    then have "digits10 v = 12 + length (udec (v div 1000000000000))"
      using 1 by (subst digits10.simps) simp
    then show ?thesis using False length_udec_div [of 12 v] by simp
  qed
qed

lemma sdigits10_eq: "sdigits10 v = length (sdec v)"
  by (simp add: sdigits10_def sdec_def digits10_eq)

lemma length_udec_u64:
  assumes "n < 2 ^ 64"
  shows "length (udec n) \<le> 20"
proof (cases "n = 0")
  case False
  show ?thesis
  proof (rule ccontr)
    assume "\<not> length (udec n) \<le> 20"
    then have "(10 :: nat) ^ 20 \<le> 10 ^ (length (udec n) - 1)"
      by (intro power_increasing) auto
    with length_udec_bounds [of n] False have "10 ^ 20 \<le> n" by auto
    with assms show False by simp
  qed
qed (simp add: udec_less_10)

lemma length_udec_i64:
  assumes "n \<le> 2 ^ 63"
  shows "length (udec n) \<le> 19"
proof (cases "n = 0")
  case False
  show ?thesis
  proof (rule ccontr)
    assume "\<not> length (udec n) \<le> 19"
    then have "(10 :: nat) ^ 19 \<le> 10 ^ (length (udec n) - 1)"
      by (intro power_increasing) auto
    with length_udec_bounds [of n] False have "10 ^ 19 \<le> n" by auto
    with assms show False by simp
  qed
qed (simp add: udec_less_10)

subsection \<open>Printing is correct\<close>

lemma nth_concat_pairs:
  "k < n \<Longrightarrow> concat (map (\<lambda>i. [f i, g i]) [0..<n]) ! (k * 2) = f k \<and>
    concat (map (\<lambda>i. [f i, g i]) [0..<n]) ! Suc (k * 2) = g k"
proof (induction n)
  case (Suc n)
  have "length (concat (map (\<lambda>i. [f i, g i]) [0..<n])) = n * 2"
    by (induction n) auto
  with Suc show ?case by (cases "k = n") (auto simp: nth_append)
qed simp

lemma digit_pairs_eq:
  "digit_pairs = concat (map (\<lambda>i. [48 + of_nat (i div 10), 48 + of_nat (i mod 10)]) [0..<100])"
  by code_simp

lemma digit_pairs_nth:
  assumes "k < 100"
  shows "digit_pairs ! (k * 2) = 48 + of_nat (k div 10)"
    and "digit_pairs ! Suc (k * 2) = 48 + of_nat (k mod 10)"
  by (simp_all only: digit_pairs_eq nth_concat_pairs [OF assms])

lemma u32_sub_le: "b \<le> a \<Longrightarrow> a < 2 ^ 32 \<Longrightarrow> u32_sub a b = a - b"
proof -
  assume "b \<le> a" and "a < 2 ^ 32"
  then have "a + 2 ^ 32 - b = (a - b) + 2 ^ 32" by simp
  then have "u32_sub a b = (a - b) mod 2 ^ 32" by (simp only: u32_sub_def mod_add_self2)
  with \<open>a < 2 ^ 32\<close> show ?thesis by simp
qed

text \<open>
  The loop keeps a gap of exactly the size of what is left to print, in front of the digits
  already written.
\<close>

lemma ull2string_loop_correct:
  assumes "length gap = length (udec v)" and "length gap < 2 ^ 32"
  shows "\<exists>gap' v' out. ull2string_loop (pre @ gap @ suf) (length pre) (length gap - 1) v =
           Some (pre @ gap' @ out @ suf, length gap' - 1, v') \<and>
         v' < 100 \<and> length gap' = length (udec v') \<and> length gap' \<le> length gap \<and>
         udec v' @ out = udec v"
  using assms
proof (induction v arbitrary: gap suf rule: less_induct)
  case (less v)
  show ?case
  proof (cases "100 \<le> v")
    case False
    with less.prems show ?thesis
      by (intro exI [of _ gap] exI [of _ v] exI [of _ "[]"]) (simp add: ull2string_loop.simps)
  next
    case True
    let ?i = "v mod 100"
    let ?d1 = "48 + of_nat (?i div 10) :: byte" and ?d0 = "48 + of_nat (?i mod 10) :: byte"
    have dec: "udec v = udec (v div 100) @ [?d1, ?d0]" using True by (rule udec_ge_100)
    define g where "g = take (length (udec (v div 100))) gap"
    have "length (drop (length (udec (v div 100))) gap) = 2" using less.prems(1) dec by simp
    then obtain a b where "drop (length (udec (v div 100))) gap = [a, b]"
      unfolding length_2_conv by blast
    then have gap: "gap = g @ [a, b]" by (metis append_take_drop_id g_def)
    have lg: "length g = length (udec (v div 100))" using less.prems(1) dec gap by simp
    then have "0 < length g" by simp
    have w1: "wr (pre @ gap @ suf) (length pre + (length gap - 1)) [digit_pairs ! (?i * 2 + 1)]
        = Some (pre @ g @ [a, ?d0] @ suf)"
      using wr_at [of _ "pre @ g @ [a]" _ "[b]" suf] by (simp add: gap digit_pairs_nth)
    have w2: "wr (pre @ g @ [a, ?d0] @ suf) (length pre + u32_sub (length gap - 1) 1)
        [digit_pairs ! (?i * 2)] = Some (pre @ g @ [?d1, ?d0] @ suf)"
      using wr_at [of _ "pre @ g" _ "[a]" "?d0 # suf"] less.prems(2)
      by (simp add: gap digit_pairs_nth u32_sub_le)
    have n: "u32_sub (length gap - 1) 2 = length g - 1"
      using \<open>0 < length g\<close> less.prems(2) u32_sub_le [of 2 "length gap - 1"]
      by (cases g) (auto simp: gap)
    have "v div 100 < v" using True by simp
    from less.IH [OF this lg, of "[?d1, ?d0] @ suf"] less.prems(2) gap
    obtain gap' v' out where
      "ull2string_loop (pre @ g @ [?d1, ?d0] @ suf) (length pre) (length g - 1) (v div 100) =
         Some (pre @ gap' @ out @ [?d1, ?d0] @ suf, length gap' - 1, v')"
      "v' < 100" "length gap' = length (udec v')" "length gap' \<le> length g"
      "udec v' @ out = udec (v div 100)"
      by auto
    with True w1 w2 n dec gap show ?thesis
      by (intro exI [of _ gap'] exI [of _ v'] exI [of _ "out @ [?d1, ?d0]"])
         (simp add: ull2string_loop.simps [of _ _ _ v] Let_def)
  qed
qed

lemma ull2string_fits:
  assumes "digits10 v < dstlen" and "dst + dstlen \<le> length buf" and "v < 2 ^ 64"
  shows "ull2string buf dst dstlen v =
    Some (take dst buf @ udec v @ [0] @ drop (dst + length (udec v) + 1) buf, length (udec v))"
proof -
  let ?n = "length (udec v)"
  have n: "?n < dstlen" "?n \<le> 20" "0 < ?n"
    using assms(1,3) length_udec_u64 by (auto simp: digits10_eq)
  have "dst + ?n \<le> length buf" using assms(2) n(1) by simp
  then obtain pre gap suf2 where buf2: "buf = pre @ gap @ suf2"
    and len: "length pre = dst" "length gap = ?n"
    and pre: "pre = take dst buf" and suf2: "suf2 = drop (dst + ?n) buf"
    by (rule block_split)
  have "length suf2 \<noteq> 0" using assms(2) n(1) suf2 by simp
  then obtain z suf where zs: "suf2 = z # suf" by (cases suf2) auto
  have "drop (dst + ?n + 1) buf = tl suf2" by (simp add: suf2 drop_Suc tl_drop)
  then have suf: "suf = drop (dst + ?n + 1) buf" by (simp add: zs)
  note ends = pre suf
  have buf: "buf = pre @ gap @ z # suf" by (simp only: buf2 zs)
  have "Suc 0 \<le> ?n" using n(3) by linarith
  then have nx: "u32_sub ?n 1 = ?n - 1" "dst + (?n - 1 + 1) = dst + ?n"
    using n(2) by (auto intro: u32_sub_le)
  have w0: "wr buf (dst + (u32_sub ?n 1 + 1)) [0] = Some (pre @ gap @ 0 # suf)"
    using wr_at [of "dst + ?n" "pre @ gap" "[0]" "[z]" suf] len by (simp only: nx buf) simp
  obtain gap' v' out where
    loop: "ull2string_loop (pre @ gap @ 0 # suf) dst (u32_sub ?n 1) v =
        Some (pre @ gap' @ out @ 0 # suf, length gap' - 1, v')"
    and v': "v' < 100" and g': "length gap' = length (udec v')" "length gap' \<le> ?n"
    and out: "udec v' @ out = udec v"
    using ull2string_loop_correct [of gap v pre "0 # suf"] n(2) len unfolding nx(1) by auto
  let ?rest = "out @ 0 # suf"
  have fin: "(if v' < 10 then wr (pre @ gap' @ ?rest) (dst + (length gap' - 1)) [48 + of_nat v']
      else do { buf \<leftarrow> wr (pre @ gap' @ ?rest) (dst + (length gap' - 1)) [digit_pairs ! (v' * 2 + 1)];
                wr buf (dst + u32_sub (length gap' - 1) 1) [digit_pairs ! (v' * 2)] })
      = Some (pre @ udec v' @ ?rest)"
  proof (cases "v' < 10")
    case True
    then show ?thesis
      using g' len wr_at [of dst pre "udec v'" gap' ?rest] by (simp add: udec_less_10)
  next
    case False
    then have dec: "udec v' = [48 + of_nat (v' div 10), 48 + of_nat (v' mod 10)]"
      using v' by (simp add: udec_ge_10 udec_less_10)
    then obtain a b where gap': "gap' = [a, b]"
      using g' by (auto simp: length_2_conv [simplified numeral_2_eq_2])
    show ?thesis
      using False v' len wr_at [of _ "pre @ [a]" _ "[b]" ?rest]
        wr_at [of _ pre _ "[a]" "(48 + of_nat (v' mod 10)) # ?rest"]
      by (simp add: gap' dec digit_pairs_nth u32_sub_le)
  qed
  have "\<not> dstlen \<le> ?n" using n(1) by simp
  then have "ull2string buf dst dstlen v = Some (pre @ udec v' @ ?rest, ?n)"
    unfolding ull2string_def Let_def digits10_eq
    by (simp only: w0 loop fin if_False Option.bind.simps prod.case)
  moreover have "pre @ udec v' @ ?rest = pre @ udec v @ [0] @ suf" by (simp flip: out)
  ultimately show ?thesis by (simp only: ends)
qed


lemma ull2string_small:
  assumes "dstlen \<le> digits10 v" and "dst + dstlen \<le> length buf"
  shows "ull2string buf dst dstlen v =
    Some (if dstlen = 0 then buf else take dst buf @ [0] @ drop (dst + 1) buf, 0)"
  using assms by (auto simp: ull2string_def ull2string_err_def wr_def)

lemma ll2string_abs:
  "in_i64 v \<Longrightarrow> v < 0 \<Longrightarrow>
    (if v \<noteq> - (2 ^ 63) then nat (- v) else (2 ^ 63 - 1) + 1) = nat (- v)"
  by (simp add: in_i64_iff)

lemma ll2string_fits:
  assumes "length (sdec v) < dstlen" and "dst + dstlen \<le> length buf" and "in_i64 v"
  shows "ll2string buf dst dstlen v =
    Some (take dst buf @ sdec v @ [0] @ drop (dst + length (sdec v) + 1) buf, length (sdec v))"
proof (cases "v < 0")
  case False
  then have "nat v < 2 ^ 64" using assms(3) by (simp add: in_i64_iff nat_less_iff)
  with False assms(1,2) show ?thesis
    by (simp add: ll2string_def sdec_def ull2string_fits digits10_eq)
next
  case True
  let ?u = "nat (- v)"
  have u: "?u < 2 ^ 64" "?u \<noteq> 0" using True assms(3) by (auto simp: in_i64_iff nat_less_iff)
  let ?buf = "take dst buf @ 45 # drop (Suc dst) buf"
  have w: "wr buf dst [45] = Some ?buf" and l: "length ?buf = length buf"
    and d: "length (take dst buf) = dst"
    using assms(1,2) by (auto simp: wr_def)
  have "ull2string ?buf (dst + 1) (dstlen - 1) ?u =
      Some (take dst buf @ 45 # udec ?u @ [0] @ drop (dst + length (udec ?u) + 2) buf,
        length (udec ?u))"
    using ull2string_fits [of ?u "dstlen - 1" "dst + 1" ?buf] assms(1,2) True u l d
    by (simp add: sdec_def digits10_eq add.commute [of dst])
  moreover have "\<not> dstlen < 2" using assms(1) True by (simp add: sdec_def)
  ultimately show ?thesis
    using True w ll2string_abs [OF assms(3) True]
    by (simp add: ll2string_def Let_def sdec_def)
qed

lemma drop_overwrite: "0 < k \<Longrightarrow> drop k (x # drop (Suc d) b) = drop (d + k) b"
  by (cases k) (auto simp: add.commute)

lemma ll2string_too_small:
  assumes "dstlen \<le> length (sdec v)" and "dst + dstlen \<le> length buf" and "in_i64 v"
  shows "\<exists>buf'. ll2string buf dst dstlen v = Some (buf', 0) \<and> length buf' = length buf \<and>
    take dst buf' = take dst buf \<and> drop (dst + dstlen) buf' = drop (dst + dstlen) buf"
proof (cases "v < 0 \<and> 2 \<le> dstlen")
  case False
  then show ?thesis
    using assms
    by (auto simp: ll2string_def sdec_def ull2string_small digits10_eq ull2string_err_def wr_def
        drop_append drop_overwrite not_less split: if_splits)
next
  case True
  let ?buf = "take dst buf @ 45 # drop (Suc dst) buf"
  have w: "wr buf dst [45] = Some ?buf" and l: "length ?buf = length buf"
    and d: "length (take dst buf) = dst"
    using assms(2) True by (auto simp: wr_def)
  have "ull2string ?buf (dst + 1) (dstlen - 1) (nat (- v)) =
      Some (take dst buf @ [45, 0] @ drop (dst + 2) buf, 0)"
    using ull2string_small [of "dstlen - 1" "nat (- v)" "dst + 1" ?buf] assms(1,2) True l d
    by (simp add: sdec_def digits10_eq)
  moreover obtain k where "dstlen = k + 2" using True by (metis le_add_diff_inverse2)
  ultimately show ?thesis
    using True w d assms(2) ll2string_abs [OF assms(3)]
    by (simp add: ll2string_def Let_def drop_append add.commute)
qed

subsection \<open>Parsing is correct\<close>

lemma dval_ge: "v \<le> digits_value v p"
proof (induction p arbitrary: v)
  case (Cons c p)
  show ?case using Cons [of "10 * v + unat (c - 48)"] by simp
qed simp

lemma is_digit_unat:
  "is_digit c \<Longrightarrow> unat (c - 48) \<le> 9 \<and> c = 48 + of_nat (unat (c - 48))"
  by (auto simp: is_digit_def word_le_nat_alt unat_sub_if_size)

lemma is_digit_add: "d < 10 \<Longrightarrow> is_digit (48 + of_nat d) \<and> unat ((48 + of_nat d :: byte) - 48) = d"
  by (auto simp: is_digit_def word_le_nat_alt unat_word_ariths unat_of_nat)

lemma udec_dval:
  "0 < v \<Longrightarrow> list_all is_digit p \<Longrightarrow> udec (digits_value v p) = udec v @ p"
proof (induction p arbitrary: v)
  case (Cons c p)
  let ?d = "unat (c - 48)"
  have c: "?d \<le> 9" "c = 48 + of_nat ?d" using Cons.prems is_digit_unat by auto
  have "udec (10 * v + ?d) = udec v @ [c]"
    using udec_ge_10 [of "10 * v + ?d"] Cons.prems(1) c by simp
  with Cons show ?case by simp
qed simp

lemma dval_snoc: "digits_value v (p @ [c]) = 10 * digits_value v p + unat (c - 48)"
  by (induction p arbitrary: v) auto

lemma udec_digits:
  "0 < n \<Longrightarrow> \<exists>c p. udec n = c # p \<and> 49 \<le> c \<and> is_digit c \<and> list_all is_digit p \<and>
    digits_value (unat (c - 48)) p = n"
proof (induction n rule: udec.induct)
  case (1 n)
  show ?case
  proof (cases "n < 10")
    case True
    then have "49 \<le> (48 + of_nat n :: byte)"
      using "1.prems" by (simp add: word_le_nat_alt unat_word_ariths unat_of_nat)
    with True is_digit_add [of n] show ?thesis by (simp add: udec_less_10)
  next
    case False
    then have "0 < n div 10" by simp
    with "1.IH" False obtain c p where IH: "udec (n div 10) = c # p" "49 \<le> c" "is_digit c"
      "list_all is_digit p" "digits_value (unat (c - 48)) p = n div 10"
      by auto
    then show ?thesis
      using False is_digit_add [of "n mod 10"]
      by (auto simp: udec_ge_10 dval_snoc)
  qed
qed

lemma ULLONG_MAX_unat: "unat ULLONG_MAX = 2 ^ 64 - 1"
  by (simp add: ULLONG_MAX_def unsigned_minus_1_eq_mask mask_eq_exp_minus_1)

text \<open>
  The overflow tests of the digit loop are exact: a step is refused just when the new value
  does not fit in 64 bits.
\<close>

lemma string2ll_digits_step:
  fixes v :: "64 word"
  assumes "d \<le> 9"
  shows "(v > ULLONG_MAX div 10 \<or> v * 10 > ULLONG_MAX - of_nat d) \<longleftrightarrow> 2 ^ 64 \<le> 10 * unat v + d"
    and "10 * unat v + d < 2 ^ 64 \<Longrightarrow> unat (v * 10 + of_nat d) = 10 * unat v + d"
proof -
  have d: "unat (of_nat d :: 64 word) = d" using assms by (simp add: unat_of_nat)
  have q: "v > ULLONG_MAX div 10 \<longleftrightarrow> 1844674407370955161 < unat v"
    by (simp add: word_less_nat_alt unat_div ULLONG_MAX_unat)
  have m: "unat (ULLONG_MAX - of_nat d) = 2 ^ 64 - 1 - d"
    using assms d by (simp add: unat_sub_if_size ULLONG_MAX_unat)
  show "(v > ULLONG_MAX div 10 \<or> v * 10 > ULLONG_MAX - of_nat d) \<longleftrightarrow> 2 ^ 64 \<le> 10 * unat v + d"
  proof (cases "v > ULLONG_MAX div 10")
    case False
    then have "unat (v * 10) = unat v * 10" using q by (simp add: unat_word_ariths)
    with False m assms q show ?thesis by (auto simp: word_less_nat_alt)
  qed (use q in auto)
  show "unat (v * 10 + of_nat d) = 10 * unat v + d" if "10 * unat v + d < 2 ^ 64"
    using that d by (simp add: unat_word_ariths)
qed

lemma string2ll_digits_iff:
  "string2ll_digits v p = Some (w, []) \<longleftrightarrow>
    list_all is_digit p \<and> digits_value (unat v) p < 2 ^ 64 \<and> unat w = digits_value (unat v) p"
proof (induction p arbitrary: v)
  case Nil
  show ?case using unsigned_less [of w] by (auto simp: word_unat_eq_iff)
next
  case (Cons c p)
  show ?case
  proof (cases "is_digit c")
    case False
    then show ?thesis by (auto simp: is_digit_def)
  next
    case True
    let ?d = "unat (c - 48)"
    have d: "?d \<le> 9" "(ucast (c - 48) :: 64 word) = of_nat ?d"
      using is_digit_unat [OF True] by auto
    note step = string2ll_digits_step [OF d(1), of v, unfolded d(2) [symmetric]]
    show ?thesis
    proof (cases "10 * unat v + ?d < 2 ^ 64")
      case False
      with dval_ge [of "10 * unat v + ?d" p] step(1) True show ?thesis
        by (auto simp: is_digit_def Let_def)
    next
      case fits: True
      with step True Cons [of "v * 10 + ucast (c - 48)"] show ?thesis
        by (auto simp: is_digit_def Let_def)
    qed
  qed
qed



lemma unat_le_exp_63:
  fixes w :: "64 word"
  shows "w \<le> 9223372036854775808 \<longleftrightarrow> unat w \<le> 9223372036854775808"
    and "w \<le> 9223372036854775807 \<longleftrightarrow> unat w < 9223372036854775808"
  by (auto simp: word_le_nat_alt)

lemma string2ll_sound:
  assumes a: "string2ll s = Some v"
  shows "s = sdec v \<and> in_i64 v"
proof (cases "s = [48]")
  case True
  with a show ?thesis
    by (simp add: string2ll_def LONG_STR_SIZE_def sdec_def udec_less_10 in_i64_iff)
next
  case False
  define negative where "negative \<longleftrightarrow> hd s = 45"
  from a False obtain c p w where
    p: "(if negative then tl s else s) = c # p" and c: "49 \<le> c" "c \<le> 57"
    and d: "string2ll_digits (ucast (c - 48)) p = Some (w, [])"
    and v: "if negative then w \<le> 2 ^ 63 \<and> v = sint (- w) else w \<le> 2 ^ 63 - 1 \<and> v = sint w"
    by (auto simp: string2ll_def Let_def negative_def not_less
        split: if_splits list.splits option.splits)
  have s: "s = (if negative then 45 # c # p else c # p)"
    using p a by (cases s) (auto simp: negative_def string2ll_def split: if_splits)
  have dg: "is_digit c" using c order_trans [of 48 49 c] by (simp add: is_digit_def)
  then have "unat (c - 48) \<le> 9" and c': "c = 48 + of_nat (unat (c - 48))"
    using is_digit_unat by blast+
  moreover have "0 < unat (c - 48)" using c(1) by (auto simp: unat_gt_0 word_le_nat_alt)
  moreover have "list_all is_digit p" and w: "unat w = digits_value (unat (c - 48)) p"
    using d by (auto simp: string2ll_digits_iff unat_ucast_byte)
  ultimately have dec: "udec (unat w) = c # p" "0 < unat w"
    using dval_ge [of "unat (c - 48)" p] by (auto simp: udec_dval udec_less_10)
  show ?thesis
    using v dec s
    by (auto simp: unat_le_exp_63 sint_word_small sint_neg_word sdec_def in_i64_iff
        simp del: of_nat_unat split: if_splits)
qed

lemma string2ll_complete:
  assumes "in_i64 v"
  shows "string2ll (sdec v) = Some v"
proof (cases "v = 0")
  case True
  then show ?thesis by (simp add: string2ll_def LONG_STR_SIZE_def sdec_def udec_less_10)
next
  case False
  let ?u = "nat \<bar>v\<bar>"
  have u: "?u \<le> 2 ^ 63" "0 < ?u" "0 < v \<Longrightarrow> ?u < 2 ^ 63"
    using assms False by (auto simp: in_i64_iff nat_le_iff nat_less_iff)
  then obtain c p where dec: "udec ?u = c # p" "49 \<le> c" "is_digit c" "list_all is_digit p"
    "digits_value (unat (c - 48)) p = ?u"
    using udec_digits by blast
  define w :: "64 word" where "w = of_nat ?u"
  have w: "unat w = ?u" using u(1) by (simp only: w_def unat_of_nat) simp
  have d: "string2ll_digits (ucast (c - 48)) p = Some (w, [])"
    unfolding string2ll_digits_iff using dec w u(1)
    by (simp add: unat_ucast_byte)
  have s: "sdec v = (if v < 0 then 45 # c # p else c # p)"
    using dec(1) by (simp add: sdec_def abs_if split: if_splits)
  have len: "length (sdec v) < LONG_STR_SIZE"
    using length_udec_i64 [OF u(1)] dec(1) s by (simp add: LONG_STR_SIZE_def)
  have c: "c \<le> 57" "c \<noteq> 45" "c \<noteq> 48" using dec(2,3) by (auto simp: is_digit_def)
  show ?thesis
  proof (cases "v < 0")
    case True
    moreover have "\<not> 2 ^ 63 < w" using u(1) w by (simp add: not_less unat_le_exp_63)
    ultimately show ?thesis
      using len s d dec(2) c u(1) w by (simp add: string2ll_def sint_neg_word)
  next
    case nonneg: False
    then have "\<not> 2 ^ 63 - 1 < w" using u(3) False w by (simp add: not_less unat_le_exp_63)
    with nonneg show ?thesis
      using len s d dec(2) c u(3) w False by (simp add: string2ll_def sint_word_small)
  qed
qed

lemma string2ll_iff: "string2ll s = Some v \<longleftrightarrow> in_i64 v \<and> s = sdec v"
  using string2ll_sound string2ll_complete by blast

subsection \<open>The interface of number printing and parsing\<close>

locale int_text =
  fixes print :: "int \<Rightarrow> byte list"
    and parse :: "byte list \<Rightarrow> int option"
    and ok :: "int \<Rightarrow> bool"
  assumes parse_iff: "parse s = Some v \<longleftrightarrow> ok v \<and> s = print v"
begin

lemma parse_print: "ok v \<Longrightarrow> parse (print v) = Some v"
  by (simp add: parse_iff)

lemma print_parse: "parse s = Some v \<Longrightarrow> print v = s"
  by (simp add: parse_iff)

lemma print_inj: "ok v \<Longrightarrow> ok w \<Longrightarrow> print v = print w \<Longrightarrow> v = w"
  using parse_print by (metis option.inject)

lemma parse_inj: "parse s = Some v \<Longrightarrow> parse t = Some v \<Longrightarrow> s = t"
  by (simp add: parse_iff)

lemma parse_range: "parse s = Some v \<Longrightarrow> ok v"
  by (simp add: parse_iff)

lemma parse_None: "parse s = None \<Longrightarrow> ok v \<Longrightarrow> s \<noteq> print v"
  using parse_print by auto

end

interpretation ll_text: int_text sdec string2ll in_i64
  by unfold_locales (rule string2ll_iff)

lemma length_sdec_i64: "in_i64 v \<Longrightarrow> length (sdec v) \<le> 20"
  using length_udec_i64 [of "nat (- v)"] length_udec_i64 [of "nat v"]
  by (auto simp: sdec_def in_i64_iff nat_le_iff)

lemma list_all_is_digit_udec: "list_all is_digit (udec n)"
  using udec_digits [of n] is_digit_add [of 0] by (cases "n = 0") (auto simp: udec_less_10)

lemma digits_value_udec: "digits_value 0 (udec n) = n"
  using udec_digits [of n] by (cases "n = 0") (auto simp: udec_less_10)

lemma takeWhile_all_append: "list_all P xs \<Longrightarrow> (ys \<noteq> [] \<longrightarrow> \<not> P (hd ys)) \<Longrightarrow>
    takeWhile P (xs @ ys) = xs \<and> dropWhile P (xs @ ys) = ys"
proof (induction xs)
  case Nil
  then show ?case by (cases ys) auto
qed auto

lemma not_space_digit: "is_digit c \<Longrightarrow> \<not> is_space c \<and> c \<noteq> 45 \<and> c \<noteq> 43"
  by (auto simp: is_digit_def is_space_def word_le_nat_alt)

lemma strtoull_udec:
  "strtoull e (udec n) = (if n < 2 ^ 64 then (n, E_none, []) else (2 ^ 64 - 1, ERANGE, []))"
proof -
  obtain c p where u: "udec n = c # p" by (cases "udec n") auto
  have "is_digit c" using list_all_is_digit_udec [of n] u by simp
  then have h: "dropWhile is_space (udec n) = udec n" "hd (udec n) \<noteq> 45" "hd (udec n) \<noteq> 43"
    using u not_space_digit [of c] by auto
  have w: "takeWhile is_digit (udec n) = udec n" "dropWhile is_digit (udec n) = []"
    using takeWhile_all_append [OF list_all_is_digit_udec, of "[]" n] by simp_all
  show ?thesis
    by (simp add: strtoull_def Let_def h w digits_value_udec)
qed

lemma strtoull_minus_udec:
  "strtoull e (45 # udec n) = (if n < 2 ^ 64 then ((2 ^ 64 - n) mod 2 ^ 64, E_none, []) else (2 ^ 64 - 1, ERANGE, []))"
proof -
  have "\<not> is_space 45" by (simp add: is_space_def)
  moreover have w: "takeWhile is_digit (udec n) = udec n" "dropWhile is_digit (udec n) = []"
    using takeWhile_all_append [OF list_all_is_digit_udec, of "[]" n] by simp_all
  ultimately show ?thesis by (simp add: strtoull_def Let_def w digits_value_udec)
qed

lemma sdec_inj: "sdec v = sdec w \<Longrightarrow> v = w"
proof -
  assume e: "sdec v = sdec w"
  have h: "udec n \<noteq> 45 # t" for n t
  proof
    assume "udec n = 45 # t"
    then have "list_all is_digit (45 # t)" using list_all_is_digit_udec [of n] by (simp only:)
    then show False by (simp add: is_digit_def)
  qed
  have inj: "m = n" if "udec m = udec n" for m n using digits_value_udec that by metis
  show ?thesis
  proof (cases "v < 0"; cases "w < 0")
    assume "v < 0" "w < 0"
    then show ?thesis using e inj [of "nat (- v)" "nat (- w)"] by (simp only: sdec_def if_True if_False list.inject simp_thms) simp
  next
    assume "\<not> v < 0" "\<not> w < 0"
    then show ?thesis using e inj [of "nat v" "nat w"] by (simp only: sdec_def if_True if_False list.inject simp_thms) simp
  next
    assume "v < 0" "\<not> w < 0"
    then show ?thesis using e h [of "nat w" "udec (nat (- v))"] by (simp only: sdec_def if_True if_False list.inject simp_thms)
  next
    assume "\<not> v < 0" "w < 0"
    then show ?thesis using e h [of "nat v" "udec (nat (- w))"] by (simp only: sdec_def if_True if_False list.inject simp_thms)
  qed
qed

lemma memtoull_unit_head:
  assumes "memtoull_unit u = Some mul" and "u \<noteq> []"
  shows "\<not> is_digit (hd u)"
  using assms
  by (auto simp: memtoull_unit_def strcasecmp_eq_def tolower_def is_digit_def split: if_splits)

subsection \<open>Properties of the number routines\<close>

text \<open>C35: \<open>string2ll\<close> accepts exactly the canonical decimal notation of the 64-bit integers.\<close>

theorem string2ll_exact: "string2ll s = Some v \<longleftrightarrow> in_i64 v \<and> s = sdec v"
  by (rule string2ll_iff)

text \<open>C36: \<open>ll2string\<close>: whatever the buffer size, no access leaves the block; the result is 0 just
  when the digits and the terminator do not fit, and otherwise the text parses back.\<close>

theorem ll2string_parses_back:
  assumes "in_i64 v" and "dst + dstlen \<le> length buf"
  shows "\<exists>buf' n. ll2string buf dst dstlen v = Some (buf', n) \<and> length buf' = length buf \<and>
    take dst buf' = take dst buf \<and> drop (dst + dstlen) buf' = drop (dst + dstlen) buf \<and>
    (if sdigits10 v < dstlen
     then n = sdigits10 v \<and> string2ll (take n (drop dst buf')) = Some v \<and> buf' ! (dst + n) = 0
     else n = 0)"
proof (cases "sdigits10 v < dstlen")
  case True
  then have "length (sdec v) < dstlen" by (simp add: sdigits10_eq)
  with assms True show ?thesis
    by (auto simp: ll2string_fits sdigits10_eq ll_text.parse_print nth_append drop_append
        drop_overwrite)
next
  case False
  with ll2string_too_small [of dstlen v dst buf] assms show ?thesis
    by (auto simp: sdigits10_eq)
qed

theorem ll2string_parses_back_witness:
  "in_i64 (- 42) \<and> sdigits10 (- 42) = 3 \<and>
   (\<exists>buf' n. ll2string (replicate 21 7) 0 21 (- 42) = Some (buf', n) \<and> n = 3 \<and>
      string2ll (take n buf') = Some (- 42) \<and> buf' ! n = 0)"
proof -
  have r: "in_i64 (- 42)" by (simp add: in_i64_iff)
  moreover have d: "sdigits10 (- 42) = 3" by (simp add: sdigits10_def digits10.simps)
  ultimately show ?thesis
    using ll2string_parses_back [OF r, of 0 21 "replicate 21 7"] by auto
qed

text \<open>C38: \<open>digits10\<close> counts decimal digits.\<close>

theorem digits10_counts:
  "v < 10 ^ digits10 v \<and> (0 < v \<longrightarrow> 10 ^ (digits10 v - 1) \<le> v) \<and> (v = 0 \<longrightarrow> digits10 v = 1)"
  using length_udec_bounds [of v] by (auto simp: digits10_eq udec_less_10)

theorem digits10_counts_witness:
  "digits10 18446744073709551615 = 20 \<and> (18446744073709551615 :: nat) < 10 ^ 20 \<and>
   (10 :: nat) ^ 19 \<le> 18446744073709551615"
proof -
  have "digits10 18446744073709551615 = 20" by (simp add: digits10.simps)
  then show ?thesis using digits10_counts [of 18446744073709551615] by simp
qed

text \<open>C39: \<open>memtoull\<close> multiplies modulo \<open>2 ^ 64\<close> after saturating the number, and reports no error
  in either case.\<close>

theorem memtoull_wraps:
  assumes "memtoull_unit u = Some mul" and "length (udec n) < 128"
  shows "memtoull e (udec n @ u) = ((min n (2 ^ 64 - 1) * mul) mod 2 ^ 64, False)"
proof -
  have "u \<noteq> [] \<longrightarrow> \<not> is_digit (hd u)" using memtoull_unit_head [OF assms(1)] by blast
  then have "takeWhile is_digit (udec n @ u) = udec n \<and> dropWhile is_digit (udec n @ u) = u"
    by (rule takeWhile_all_append [OF list_all_is_digit_udec])
  moreover have "hd (udec n @ u) \<noteq> 45"
    using list_all_is_digit_udec [of n] not_space_digit by (cases "udec n") auto
  ultimately show ?thesis
    using assms by (simp add: memtoull_def Let_def strtoull_udec min_def)
qed

theorem memtoull_wraps_witness:
  "memtoull False (map of_char ''17179869184gb'') = (0, False)"
proof -
  have "udec 17179869184 = map of_char ''17179869184''" by (simp add: udec.simps)
  moreover have "memtoull_unit (map of_char ''gb'') = Some (1024 * 1024 * 1024)"
    by (simp add: memtoull_unit_def strcasecmp_eq_def tolower_def)
  ultimately show ?thesis
    using memtoull_wraps [of "map of_char ''gb''" "1024 * 1024 * 1024" 17179869184 False] by simp
qed

text \<open>C40: what \<open>string2ull\<close> makes of the decimal notation of any integer. A non-negative number below \<open>2 ^ 64\<close> is
  returned, and a negative one of the signed range is refused; a number below that range is not refused but
  taken modulo \<open>2 ^ 64\<close>, because the fallback \<^verbatim>\<open>strtoull\<close> negates it, unless its absolute value has more than 64 bits.\<close>

theorem string2ull_decimal:
  "string2ull e (sdec v) =
    (if - (2 ^ 63) \<le> v \<and> v < 0 \<or> 2 ^ 64 \<le> \<bar>v\<bar> then None else Some (nat (v mod 2 ^ 64)))"
proof (cases "in_i64 v")
  case True
  then have "string2ll (sdec v) = Some v" by (rule string2ll_complete)
  then show ?thesis using True by (simp add: string2ull_def in_i64_iff)
next
  case False
  then have n: "string2ll (sdec v) = None" using string2ll_sound sdec_inj by (metis not_None_eq)
  have ne: "sdec v \<noteq> []" by (simp add: sdec_def)
  have v: "v < - (2 ^ 63) \<or> 2 ^ 63 \<le> v" using False by (auto simp: in_i64_iff)
  show ?thesis
  proof (cases "v < 0")
    case True
    have "(2 ^ 64 - nat (- v)) mod 2 ^ 64 = nat (v mod 2 ^ 64)" if "\<not> 2 ^ 64 \<le> \<bar>v\<bar>"
    proof -
      have "v mod 2 ^ 64 = (v + 2 ^ 64) mod 2 ^ 64" by simp
      also have "\<dots> = v + 2 ^ 64" using that True by (intro mod_pos_pos_trivial) simp_all
      finally have "v mod 2 ^ 64 = v + 2 ^ 64" .
      then show ?thesis using that True by (simp add: nat_diff_distrib)
    qed
    then show ?thesis using n v True ne strtoull_minus_udec [of e "nat (- v)"]
      by (simp add: string2ull_def sdec_def nat_less_iff)
  next
    case nonneg: False
    then have "nat (v mod 2 ^ 64) = nat v" if "\<not> 2 ^ 64 \<le> \<bar>v\<bar>" using that by simp
    then show ?thesis using n v nonneg ne strtoull_udec [of e "nat v"]
      by (simp add: string2ull_def sdec_def nat_less_iff)
  qed
qed

end
