(* ===== verification/Redis_Intset.thy ===== *)
theory Redis_Intset
  imports Redis_Prelude
begin

text \<open>
  The integer set of \<^verbatim>\<open>src/intset.c\<close>: a sorted array of 16, 32 or 64-bit integers in one block of
  memory, whose width grows on demand. The model keeps the block's bytes, so that the in-place
  widening of \<open>intsetUpgradeAndAdd\<close>, the \<^verbatim>\<open>memmove\<close> of \<open>intsetMoveTail\<close> with its 32-bit byte
  count, and the binary search with its \<^verbatim>\<open>int\<close> bounds are the ones of the code.

  Signed values (\<^verbatim>\<open>int64_t\<close>, \<^verbatim>\<open>int\<close>) are integers; \<^verbatim>\<open>uint32_t\<close> values are naturals with the
  reduction modulo \<open>2 ^ 32\<close> written out. Byte order is little-endian, where \<^verbatim>\<open>intrev32ifbe\<close> and its
  kin do nothing.
\<close>

subsection \<open>Data\<close>

record intset =
  is_encoding :: nat
  is_length :: nat
  is_contents :: mem

definition INTSET_ENC_INT16 :: nat where "INTSET_ENC_INT16 = 2"
definition INTSET_ENC_INT32 :: nat where "INTSET_ENC_INT32 = 4"
definition INTSET_ENC_INT64 :: nat where "INTSET_ENC_INT64 = 8"

lemmas enc_defs = INTSET_ENC_INT16_def INTSET_ENC_INT32_def INTSET_ENC_INT64_def

text \<open>The block as it lies in memory: the two header fields and the contents.\<close>

definition sizeof_intset :: nat where "sizeof_intset = 8"

definition intset_block :: "intset \<Rightarrow> mem" where
  "intset_block is = store_le 4 (is_encoding is) @ store_le 4 (is_length is) @ is_contents is"

subsection \<open>Operations\<close>

definition intsetValueEncoding :: "int \<Rightarrow> nat" where
  "intsetValueEncoding v =
    (if v < - (2 ^ 31) \<or> v > 2 ^ 31 - 1 then INTSET_ENC_INT64
     else if v < - (2 ^ 15) \<or> v > 2 ^ 15 - 1 then INTSET_ENC_INT32
     else INTSET_ENC_INT16)"

text \<open>The element width an encoding selects: the code's if-cascade ends in the 16-bit case.\<close>

definition enc_width :: "nat \<Rightarrow> nat" where
  "enc_width enc = (if enc = INTSET_ENC_INT64 then 8 else if enc = INTSET_ENC_INT32 then 4 else 2)"

definition intsetGetEncoded :: "intset \<Rightarrow> int \<Rightarrow> nat \<Rightarrow> int option" where
  "intsetGetEncoded is pos enc =
    (if pos < 0 then None
     else map_option load_signed
       (rdn (is_contents is) (nat pos * enc_width enc) (enc_width enc)))"

definition intsetGet_at :: "intset \<Rightarrow> int \<Rightarrow> int option" where
  "intsetGet_at is pos = intsetGetEncoded is pos (is_encoding is mod 2 ^ 8)"

definition intsetSet_at :: "intset \<Rightarrow> int \<Rightarrow> int \<Rightarrow> intset option" where
  "intsetSet_at is pos v =
    (let w = enc_width (is_encoding is) in
     if pos < 0 then None
     else do {
       c \<leftarrow> wr (is_contents is) (nat pos * w) (store_signed w v);
       Some (is\<lparr>is_contents := c\<rparr>)
     })"

definition intsetNew :: "allocator \<Rightarrow> intset option" where
  "intsetNew al = do {
     b \<leftarrow> zmalloc al sizeof_intset;
     Some \<lparr>is_encoding = INTSET_ENC_INT16, is_length = 0, is_contents = drop sizeof_intset b\<rparr>
   }"

definition intsetResize :: "allocator \<Rightarrow> intset \<Rightarrow> nat \<Rightarrow> intset option" where
  "intsetResize al is len =
    (let size = len * is_encoding is in
     if size \<le> (2 ^ 64 - 1) - sizeof_intset then do {
       b \<leftarrow> zrealloc al (intset_block is) (sizeof_intset + size);
       Some (is\<lparr>is_contents := drop sizeof_intset b\<rparr>)
     } else None)"

partial_function (option) intsetSearch_loop ::
  "intset \<Rightarrow> int \<Rightarrow> int \<Rightarrow> int \<Rightarrow> int \<Rightarrow> int \<Rightarrow> (int \<times> int \<times> int) option" where
  "intsetSearch_loop is value imin imax mid cur =
    (if imax \<ge> imin then
       (let mid = ((imin mod 2 ^ 32 + imax mod 2 ^ 32) mod 2 ^ 32) div 2 in do {
          cur \<leftarrow> intsetGet_at is mid;
          if value > cur then intsetSearch_loop is value (mid + 1) imax mid cur
          else if value < cur then intsetSearch_loop is value imin (mid - 1) mid cur
          else Some (imin, mid, cur)
        })
     else Some (imin, mid, cur))"

text \<open>The result is the returned flag and the value stored in \<^verbatim>\<open>*pos\<close>.\<close>

definition intsetSearch :: "intset \<Rightarrow> int \<Rightarrow> (bool \<times> nat) option" where
  "intsetSearch is value =
    (let imax = int32_of_u32 ((is_length is + 2 ^ 32 - 1) mod 2 ^ 32) in
     if is_length is = 0 then Some (False, 0)
     else do {
       vmax \<leftarrow> intsetGet_at is imax;
       if value > vmax then Some (False, is_length is)
       else do {
         v0 \<leftarrow> intsetGet_at is 0;
         if value < v0 then Some (False, 0)
         else do {
           (imin, mid, cur) \<leftarrow> intsetSearch_loop is value 0 imax (- 1) (- 1);
           if value = cur then Some (True, nat (mid mod 2 ^ 32))
           else Some (False, nat (imin mod 2 ^ 32))
         }
       }
     })"

text \<open>The \<^verbatim>\<open>while(length--)\<close> loop of the upgrade, back to front.\<close>

fun intsetUpgrade_loop :: "intset \<Rightarrow> nat \<Rightarrow> nat \<Rightarrow> nat \<Rightarrow> intset option" where
  "intsetUpgrade_loop is curenc prepend 0 = Some is"
| "intsetUpgrade_loop is curenc prepend (Suc n) = do {
     v \<leftarrow> intsetGetEncoded is (int n) curenc;
     is \<leftarrow> intsetSet_at is (int (n + prepend)) v;
     intsetUpgrade_loop is curenc prepend n
   }"

definition intsetUpgradeAndAdd :: "allocator \<Rightarrow> intset \<Rightarrow> int \<Rightarrow> intset option" where
  "intsetUpgradeAndAdd al is value =
    (let curenc = is_encoding is mod 2 ^ 8;
         newenc = intsetValueEncoding value;
         len = int32_of_u32 (is_length is);
         prepend = (if value < 0 then 1 else 0);
         is = is\<lparr>is_encoding := newenc\<rparr>
     in do {
       is \<leftarrow> intsetResize al is ((is_length is + 1) mod 2 ^ 32);
       is \<leftarrow> (if len < 0 then None else intsetUpgrade_loop is curenc prepend (nat len));
       is \<leftarrow> (if prepend = 1 then intsetSet_at is 0 value
              else intsetSet_at is (int32_of_u32 (is_length is)) value);
       Some (is\<lparr>is_length := (is_length is + 1) mod 2 ^ 32\<rparr>)
     })"

definition intsetMoveTail :: "intset \<Rightarrow> nat \<Rightarrow> nat \<Rightarrow> intset option" where
  "intsetMoveTail is from to =
    (let bytes = (is_length is + 2 ^ 32 - from) mod 2 ^ 32;
         w = enc_width (is_encoding is);
         bytes = (bytes * w) mod 2 ^ 32
     in do {
       c \<leftarrow> memmove (is_contents is) (to * w) (from * w) bytes;
       Some (is\<lparr>is_contents := c\<rparr>)
     })"

definition intsetAdd :: "allocator \<Rightarrow> intset \<Rightarrow> int \<Rightarrow> (intset \<times> bool) option" where
  "intsetAdd al is value =
    (if intsetValueEncoding value > is_encoding is then do {
       is \<leftarrow> intsetUpgradeAndAdd al is value;
       Some (is, True)
     } else do {
       (found, pos) \<leftarrow> intsetSearch is value;
       if found then Some (is, False)
       else do {
         is \<leftarrow> intsetResize al is ((is_length is + 1) mod 2 ^ 32);
         is \<leftarrow> (if pos < is_length is then intsetMoveTail is pos ((pos + 1) mod 2 ^ 32) else Some is);
         is \<leftarrow> intsetSet_at is (int32_of_u32 pos) value;
         Some (is\<lparr>is_length := (is_length is + 1) mod 2 ^ 32\<rparr>, True)
       }
     })"

definition intsetRemove :: "allocator \<Rightarrow> intset \<Rightarrow> int \<Rightarrow> (intset \<times> bool) option" where
  "intsetRemove al is value =
    (if intsetValueEncoding value \<le> is_encoding is then do {
       (found, pos) \<leftarrow> intsetSearch is value;
       if found then
         (let len = is_length is in do {
            is \<leftarrow> (if pos < (len + 2 ^ 32 - 1) mod 2 ^ 32
                    then intsetMoveTail is ((pos + 1) mod 2 ^ 32) pos else Some is);
            is \<leftarrow> intsetResize al is ((len + 2 ^ 32 - 1) mod 2 ^ 32);
            Some (is\<lparr>is_length := (len + 2 ^ 32 - 1) mod 2 ^ 32\<rparr>, True)
          })
       else Some (is, False)
     } else Some (is, False))"

definition intsetFind :: "intset \<Rightarrow> int \<Rightarrow> bool option" where
  "intsetFind is value =
    (if intsetValueEncoding value \<le> is_encoding is
     then map_option fst (intsetSearch is value) else Some False)"

text \<open>\<^verbatim>\<open>rand()\<close> is the argument \<open>r\<close>; the assertion \<^verbatim>\<open>assert(len)\<close> gives \<open>None\<close>.\<close>

definition intsetRandom :: "nat \<Rightarrow> intset \<Rightarrow> int option" where
  "intsetRandom r is =
    (if is_length is = 0 then None else intsetGet_at is (int32_of_u32 (r mod is_length is)))"

definition intsetMax :: "intset \<Rightarrow> int option" where
  "intsetMax is = intsetGet_at is (int32_of_u32 ((is_length is + 2 ^ 32 - 1) mod 2 ^ 32))"

definition intsetMin :: "intset \<Rightarrow> int option" where
  "intsetMin is = intsetGet_at is 0"

text \<open>The inner option is the returned flag with the value stored on success.\<close>

definition intsetGet :: "intset \<Rightarrow> nat \<Rightarrow> int option option" where
  "intsetGet is pos =
    (if pos < is_length is then map_option Some (intsetGet_at is (int32_of_u32 pos))
     else Some None)"

definition intsetLen :: "intset \<Rightarrow> nat" where
  "intsetLen is = is_length is"

definition intsetBlobLen :: "intset \<Rightarrow> nat" where
  "intsetBlobLen is = sizeof_intset + is_length is * is_encoding is"

text \<open>The scan of \<open>intsetValidateIntegrity\<close> from index \<open>i\<close> on, \<open>n\<close> rounds to go.\<close>

fun intsetValidate_scan :: "intset \<Rightarrow> nat \<Rightarrow> nat \<Rightarrow> int \<Rightarrow> bool option" where
  "intsetValidate_scan is i 0 prev = Some True"
| "intsetValidate_scan is i (Suc n) prev = do {
     cur \<leftarrow> intsetGet_at is (int32_of_u32 i);
     if cur \<le> prev then Some False else intsetValidate_scan is (i + 1) n cur
   }"

text \<open>The byte string \<open>p\<close> read as an intset: header and contents.\<close>

definition intset_of_bytes :: "mem \<Rightarrow> intset option" where
  "intset_of_bytes p = do {
     enc \<leftarrow> rdn p 0 4;
     len \<leftarrow> rdn p 4 4;
     Some \<lparr>is_encoding = load_le enc, is_length = load_le len, is_contents = drop sizeof_intset p\<rparr>
   }"

definition intsetValidateIntegrity :: "mem \<Rightarrow> nat \<Rightarrow> bool \<Rightarrow> bool option" where
  "intsetValidateIntegrity p sz deep =
    (if sz < sizeof_intset then Some False
     else do {
       is \<leftarrow> intset_of_bytes p;
       let encoding = is_encoding is;
       let record_size = encoding;
       let count = is_length is;
       if encoding \<noteq> INTSET_ENC_INT64 \<and> encoding \<noteq> INTSET_ENC_INT32 \<and>
          encoding \<noteq> INTSET_ENC_INT16 then Some False
       else if sizeof_intset + count * record_size \<noteq> sz then Some False
       else if count = 0 then Some False
       else if \<not> deep then Some True
       else do {
         prev \<leftarrow> intsetGet_at is 0;
         intsetValidate_scan is 1 (count - 1) prev
       }
     })"

subsection \<open>Abstraction and invariant\<close>

text \<open>
  The stored integers in order, the shape of the block, and the invariant: a known encoding, a
  length that is an \<^verbatim>\<open>int\<close>, a block of exactly the size the header announces, and strictly
  ascending elements.
\<close>

definition enc_ok :: "nat \<Rightarrow> bool" where
  "enc_ok e \<longleftrightarrow> e = INTSET_ENC_INT16 \<or> e = INTSET_ENC_INT32 \<or> e = INTSET_ENC_INT64"

definition intset_elems :: "intset \<Rightarrow> int list" where
  "intset_elems is = map (\<lambda>i. the (intsetGet_at is (int i))) [0..<is_length is]"

definition intset_shape :: "intset \<Rightarrow> bool" where
  "intset_shape is \<longleftrightarrow> enc_ok (is_encoding is) \<and> is_length is < 2 ^ 31 \<and>
     length (is_contents is) = is_length is * is_encoding is"

definition intset_ok :: "intset \<Rightarrow> bool" where
  "intset_ok is \<longleftrightarrow> intset_shape is \<and> sorted_wrt (<) (intset_elems is)"

lemma enc_okD:
  assumes "enc_ok e"
  shows "enc_width e = e" and "e mod 256 = e" and "0 < e" and "e \<le> 8" and "2 \<le> e"
  using assms by (auto simp: enc_ok_def enc_defs enc_width_def)

lemma length_intset_elems [simp]: "length (intset_elems is) = is_length is"
  by (simp add: intset_elems_def)

lemma intset_elemsI:
  assumes "is_length is = length xs" and "\<And>i. i < length xs \<Longrightarrow> intsetGet_at is (int i) = Some (xs ! i)"
  shows "intset_elems is = xs"
  using assms by (intro nth_equalityI) (auto simp: intset_elems_def)

lemma intsetGetEncoded_nat:
  "intsetGetEncoded is (int i) e = map_option load_signed (rdn (is_contents is) (i * enc_width e) (enc_width e))"
  by (simp add: intsetGetEncoded_def)

lemma intsetGet_at_nat:
  "enc_ok (is_encoding is) \<Longrightarrow> intsetGet_at is (int i) =
     map_option load_signed (rdn (is_contents is) (i * is_encoding is) (is_encoding is))"
  by (simp add: intsetGet_at_def intsetGetEncoded_nat enc_okD)

lemma intsetGet_at_elems:
  assumes "intset_shape is" and "i < is_length is"
  shows "intsetGet_at is (int i) = Some (intset_elems is ! i)"
proof -
  have "i * is_encoding is + is_encoding is \<le> length (is_contents is)"
    using assms slot_le [OF assms(2)] by (simp add: intset_shape_def)
  then obtain v where "intsetGet_at is (int i) = Some v"
    using assms by (auto simp: intset_shape_def intsetGet_at_nat rdn_def)
  then show ?thesis using assms(2) by (simp add: intset_elems_def)
qed

lemma intset_elems_range:
  assumes "intset_shape is" and "x \<in> set (intset_elems is)"
  shows "in_signed (8 * is_encoding is) x"
proof -
  from assms(2) obtain i where i: "i < is_length is" "x = intset_elems is ! i"
    by (auto simp: in_set_conv_nth)
  with intsetGet_at_elems [OF assms(1) i(1)] obtain bs where
    bs: "rdn (is_contents is) (i * is_encoding is) (is_encoding is) = Some bs" "x = load_signed bs"
    using assms(1) by (auto simp: intset_shape_def intsetGet_at_nat)
  moreover have "length bs = is_encoding is" using bs(1) by (rule rdn_Some_length)
  moreover have "0 < is_encoding is" using assms(1) by (simp add: intset_shape_def enc_okD)
  ultimately show ?thesis using in_signed_load_signed [of bs] by fastforce
qed

lemma intsetSet_at_laws:
  assumes "enc_ok (is_encoding is)" and "i * is_encoding is + is_encoding is \<le> length (is_contents is)"
    and "in_signed (8 * is_encoding is) v"
  obtains c where "intsetSet_at is (int i) v = Some (is\<lparr>is_contents := c\<rparr>)"
    and "length c = length (is_contents is)"
    and "intsetGet_at (is\<lparr>is_contents := c\<rparr>) (int i) = Some v"
    and "\<And>j. j \<noteq> i \<Longrightarrow> intsetGet_at (is\<lparr>is_contents := c\<rparr>) (int j) = intsetGet_at is (int j)"
    and "\<And>j n. j + n \<le> i * is_encoding is \<Longrightarrow> rdn c j n = rdn (is_contents is) j n"
proof -
  let ?e = "is_encoding is"
  obtain c where c: "wr (is_contents is) (i * ?e) (store_signed ?e v) = Some c"
    using wr_Some [of "i * ?e" "store_signed ?e v"] assms(2) by auto
  show thesis
  proof (rule that [of c])
    show "intsetSet_at is (int i) v = Some (is\<lparr>is_contents := c\<rparr>)"
      using c assms(1) by (simp add: intsetSet_at_def enc_okD)
    show "length c = length (is_contents is)" using c by (rule wr_Some_length)
    show "intsetGet_at (is\<lparr>is_contents := c\<rparr>) (int i) = Some v"
      using rdn_wr_same [OF c] assms by (simp add: intsetGet_at_nat load_store_signed enc_okD)
    show "intsetGet_at (is\<lparr>is_contents := c\<rparr>) (int j) = intsetGet_at is (int j)" if "j \<noteq> i" for j
      using rdn_wr_other [OF c, of "j * ?e" ?e] slots_disjoint [OF that, of ?e] assms(1)
      by (simp add: intsetGet_at_nat)
    show "rdn c j n = rdn (is_contents is) j n" if "j + n \<le> i * ?e" for j n
      using rdn_wr_other [OF c] that by simp
  qed
qed

lemma intsetResize_laws:
  assumes "al_ok al (sizeof_intset + len * is_encoding is)" and "enc_ok (is_encoding is)" and "len < 2 ^ 32"
  obtains c where "intsetResize al is len = Some (is\<lparr>is_contents := c\<rparr>)"
    and "length c = len * is_encoding is"
    and "\<And>j n. j + n \<le> len * is_encoding is \<Longrightarrow> j + n \<le> length (is_contents is) \<Longrightarrow>
           rdn c j n = rdn (is_contents is) j n"
proof -
  let ?n = "sizeof_intset + len * is_encoding is"
  have "len * is_encoding is \<le> 2 ^ 32 * 8" using assms by (intro mult_mono) (auto simp: enc_okD)
  also have "\<dots> \<le> (2 ^ 64 - 1) - sizeof_intset" by (simp add: sizeof_intset_def)
  finally have le: "len * is_encoding is \<le> (2 ^ 64 - 1) - sizeof_intset" .
  obtain b where b: "zrealloc al (intset_block is) ?n = Some b" using zrealloc_ok [OF assms(1)] by auto
  have lb: "length b = ?n" using b by (rule zrealloc_Some_length)
  show thesis
  proof (rule that [of "drop sizeof_intset b"])
    show "intsetResize al is len = Some (is\<lparr>is_contents := drop sizeof_intset b\<rparr>)"
      unfolding intsetResize_def Let_def using le b by simp
    show "length (drop sizeof_intset b) = len * is_encoding is" using lb by simp
    fix j n assume a: "j + n \<le> len * is_encoding is" "j + n \<le> length (is_contents is)"
    have tb: "take (8 + (j + n)) b = take (8 + (j + n)) (intset_block is)"
      using a by (intro zrealloc_Some_take [OF b]) (auto simp: sizeof_intset_def intset_block_def)
    have "take (j + n) (drop 8 b) = drop 8 (take (8 + (j + n)) b)" by (simp add: drop_take)
    also have "\<dots> = take (j + n) (is_contents is)" by (simp add: tb intset_block_def drop_take)
    finally show "rdn (drop sizeof_intset b) j n = rdn (is_contents is) j n"
      using a lb by (intro rdn_take_cong [of "j + n"]) (auto simp: sizeof_intset_def)
  qed
qed

lemma intsetMoveTail_laws:
  assumes "enc_ok (is_encoding is)" and "from \<le> is_length is" and "is_length is < 2 ^ 32"
    and "is_length is * is_encoding is \<le> length (is_contents is)"
    and "(to + (is_length is - from)) * is_encoding is \<le> length (is_contents is)"
    and "(is_length is - from) * is_encoding is < 2 ^ 32"
  obtains c where "intsetMoveTail is from to = Some (is\<lparr>is_contents := c\<rparr>)"
    and "length c = length (is_contents is)"
    and "\<And>k. k < is_length is - from \<Longrightarrow>
           intsetGet_at (is\<lparr>is_contents := c\<rparr>) (int (to + k)) = intsetGet_at is (int (from + k))"
    and "\<And>i. i < to \<Longrightarrow> intsetGet_at (is\<lparr>is_contents := c\<rparr>) (int i) = intsetGet_at is (int i)"
proof -
  let ?e = "is_encoding is" and ?n = "is_length is - from"
  have n1: "(is_length is + 2 ^ 32 - from) mod 2 ^ 32 = ?n"
  proof -
    have "is_length is + 2 ^ 32 - from = ?n + 2 ^ 32" using assms(2) by (rule diff_add_assoc2)
    moreover have "?n < 2 ^ 32" using assms(3) by (rule less_imp_diff_less)
    ultimately show ?thesis by (simp only: mod_add_self2 mod_less)
  qed
  have "from * ?e + ?n * ?e = is_length is * ?e"
    using assms(2) by (simp flip: add_mult_distrib)
  then obtain c where c: "memmove (is_contents is) (to * ?e) (from * ?e) (?n * ?e) = Some c"
    using memmove_Some [of "from * ?e" "?n * ?e" "is_contents is" "to * ?e"] assms(4,5)
    by (auto simp: add_mult_distrib)
  show thesis
  proof (rule that [of c])
    show "intsetMoveTail is from to = Some (is\<lparr>is_contents := c\<rparr>)"
      unfolding intsetMoveTail_def Let_def n1 using c assms(1,6) by (simp add: enc_okD)
    show "length c = length (is_contents is)" using c by (rule memmove_Some_length)
    show "intsetGet_at (is\<lparr>is_contents := c\<rparr>) (int (to + k)) = intsetGet_at is (int (from + k))"
      if "k < ?n" for k
      using rdn_memmove [OF c, of "k * ?e" ?e] slot_le [OF that, of ?e] assms(1)
      unfolding intsetGet_at_nat [OF assms(1)]
      by (simp add: intsetGet_at_nat [of "is\<lparr>is_contents := c\<rparr>"] add_mult_distrib del: of_nat_add)
    show "intsetGet_at (is\<lparr>is_contents := c\<rparr>) (int i) = intsetGet_at is (int i)" if "i < to" for i
      using rdn_memmove_other [OF c, of "i * ?e" ?e] slot_le [OF that, of ?e] assms(1)
      by (simp add: intsetGet_at_nat)
  qed
qed

lemma int32_of_u32_small [simp]: "n < 2147483648 \<Longrightarrow> int32_of_u32 n = int n"
  by (simp add: int32_of_u32_def signed_take_bit_int_eq_self)

lemma pred_u32: "0 < n \<Longrightarrow> n < 2147483648 \<Longrightarrow> (n + (2 :: nat) ^ 32 - 1) mod 2 ^ 32 = n - 1"
  by (cases n) auto

lemma intset_okD:
  assumes "intset_ok is"
  shows "intset_shape is" and "sorted_wrt (<) (intset_elems is)" and "enc_ok (is_encoding is)"
    and "is_length is < 2147483648"
    and "length (is_contents is) = is_length is * is_encoding is"
  using assms by (simp_all add: intset_ok_def intset_shape_def)

lemma mid_bounds:
  assumes "0 \<le> lo" and "lo \<le> hi" and "hi < 2147483648"
  shows "((lo mod 2 ^ 32 + hi mod 2 ^ 32) mod 2 ^ 32) div 2 = (lo + hi) div (2 :: int)"
    and "lo \<le> (lo + hi) div 2" and "(lo + hi) div 2 \<le> hi"
  using assms by (simp_all add: mod_pos_pos_trivial)

definition loop_found :: "intset \<Rightarrow> int \<Rightarrow> int \<Rightarrow> bool" where
  "loop_found is v mid \<longleftrightarrow> 0 \<le> mid \<and> mid < int (is_length is) \<and> intset_elems is ! nat mid = v"

definition loop_split :: "intset \<Rightarrow> int \<Rightarrow> int \<Rightarrow> int \<Rightarrow> bool" where
  "loop_split is v lo hi \<longleftrightarrow> 0 \<le> lo \<and> lo \<le> hi + 1 \<and> hi < int (is_length is) \<and>
     (\<forall>i. int i < lo \<longrightarrow> intset_elems is ! i < v) \<and>
     (\<forall>i. hi < int i \<longrightarrow> i < is_length is \<longrightarrow> v < intset_elems is ! i)"

lemma sorted_less_nth: "sorted_wrt (<) (xs :: int list) \<Longrightarrow> i \<le> j \<Longrightarrow> j < length xs \<Longrightarrow> xs ! i \<le> xs ! j"
  by (cases "i = j") (auto simp: sorted_wrt_iff_nth_less intro: less_imp_le)

lemma loop_split_right:
  assumes "intset_ok is" and "loop_split is v lo hi" and "lo \<le> mid" and "mid \<le> hi"
    and "intset_elems is ! nat mid < v"
  shows "loop_split is v (mid + 1) hi"
proof -
  have "intset_elems is ! i < v" if "int i < mid + 1" for i
  proof -
    have "i \<le> nat mid" and "nat mid < is_length is"
      using that assms(2-4) by (auto simp: loop_split_def)
    then have "intset_elems is ! i \<le> intset_elems is ! nat mid"
      using sorted_less_nth [OF intset_okD(2) [OF assms(1)]] by simp
    with assms(5) show ?thesis by simp
  qed
  with assms(2-4) show ?thesis by (auto simp: loop_split_def)
qed

lemma loop_split_left:
  assumes "intset_ok is" and "loop_split is v lo hi" and "lo \<le> mid" and "mid \<le> hi"
    and "v < intset_elems is ! nat mid"
  shows "loop_split is v lo (mid - 1)"
proof -
  have "v < intset_elems is ! i" if "mid - 1 < int i" and "i < is_length is" for i
  proof -
    have "nat mid \<le> i" using that by auto
    then have "intset_elems is ! nat mid \<le> intset_elems is ! i"
      using sorted_less_nth [OF intset_okD(2) [OF assms(1)]] that(2) by simp
    with assms(5) show ?thesis by simp
  qed
  with assms(2-4) show ?thesis by (auto simp: loop_split_def)
qed

lemma intsetSearch_loop_correct:
  assumes "intset_ok is" and "loop_split is v lo hi" and "lo \<le> hi \<or> cur \<noteq> v"
  obtains lo' mid' cur' where "intsetSearch_loop is v lo hi mid cur = Some (lo', mid', cur')"
    and "cur' = v \<Longrightarrow> loop_found is v mid'" and "cur' \<noteq> v \<Longrightarrow> loop_split is v lo' (lo' - 1)"
  using assms(2,3)
proof (induction "nat (hi + 1 - lo)" arbitrary: lo hi mid cur thesis rule: less_induct)
  case less
  note IH = less(1) and that = less(2) and split = less(3) and start = less(4)
  show ?case
  proof (cases "lo \<le> hi")
    case False
    then have "hi = lo - 1" using split by (simp add: loop_split_def)
    with False start split show ?thesis
      by (intro that [of lo mid cur]) (auto simp: intsetSearch_loop.simps)
  next
    case True
    define m where "m = (lo + hi) div 2"
    have hi: "hi < int (is_length is)" and lo: "0 \<le> lo" using split by (auto simp: loop_split_def)
    have len: "is_length is < 2147483648" using assms(1) by (rule intset_okD)
    have m: "((lo mod 2 ^ 32 + hi mod 2 ^ 32) mod 2 ^ 32) div 2 = m" "lo \<le> m" "m \<le> hi"
      using mid_bounds [of lo hi] lo hi len True by (auto simp: m_def)
    have "nat m < is_length is" and nm: "int (nat m) = m" using m lo hi by auto
    then have get: "intsetGet_at is m = Some (intset_elems is ! nat m)"
      using intsetGet_at_elems [OF intset_okD(1) [OF assms(1)], of "nat m"] by simp
    let ?x = "intset_elems is ! nat m"
    have step: "intsetSearch_loop is v lo hi mid cur =
        (if v > ?x then intsetSearch_loop is v (m + 1) hi m ?x
         else if v < ?x then intsetSearch_loop is v lo (m - 1) m ?x else Some (lo, m, ?x))"
      by (subst intsetSearch_loop.simps) (simp only: m Let_def get True if_True Option.bind.simps)
    consider "v > ?x" | "v < ?x" | "v = ?x" by linarith
    then show ?thesis
    proof cases
      case 1
      have "nat (hi + 1 - (m + 1)) < nat (hi + 1 - lo)" using m by linarith
      from IH [OF this _ loop_split_right [OF assms(1) split m(2,3) 1], of m ?x] 1 that
      show ?thesis by (auto simp: step)
    next
      case 2
      have "nat ((m - 1) + 1 - lo) < nat (hi + 1 - lo)" using m by linarith
      from IH [OF this _ loop_split_left [OF assms(1) split m(2,3) 2], of m ?x] 2 that
      show ?thesis by (auto simp: step)
    next
      case 3
      show ?thesis
      proof (rule that [of lo m ?x])
        show "intsetSearch_loop is v lo hi mid cur = Some (lo, m, ?x)" unfolding step using 3 by simp
        show "loop_found is v m" using 3 m(2,3) lo hi by (simp add: loop_found_def)
      qed (simp add: 3)
    qed
  qed
qed

lemma loop_splitD:
  assumes "loop_split is v lo (lo - 1)"
  shows "nat lo \<le> is_length is" and "int (nat lo) = lo"
    and "x \<in> set (take (nat lo) (intset_elems is)) \<Longrightarrow> x < v"
    and "x \<in> set (drop (nat lo) (intset_elems is)) \<Longrightarrow> v < x"
proof -
  show "nat lo \<le> is_length is" and "int (nat lo) = lo" using assms by (auto simp: loop_split_def)
  assume "x \<in> set (take (nat lo) (intset_elems is))"
  then show "x < v" using assms by (auto simp: in_set_conv_nth loop_split_def)
next
  assume "x \<in> set (drop (nat lo) (intset_elems is))"
  then obtain i where "x = drop (nat lo) (intset_elems is) ! i" "i < is_length is - nat lo"
    by (auto simp: in_set_conv_nth)
  moreover from this have "v < intset_elems is ! (nat lo + i)"
    using assms by (auto simp: loop_split_def)
  ultimately show "v < x" by simp
qed

text \<open>The search position: where the value is, or where it belongs.\<close>

definition search_result :: "intset \<Rightarrow> int \<Rightarrow> bool \<Rightarrow> nat \<Rightarrow> bool" where
  "search_result is v found pos \<longleftrightarrow>
    (if found then pos < is_length is \<and> intset_elems is ! pos = v
     else pos \<le> is_length is \<and> (\<forall>x \<in> set (take pos (intset_elems is)). x < v) \<and>
          (\<forall>x \<in> set (drop pos (intset_elems is)). v < x))"

lemma search_result_found: "search_result is v found pos \<Longrightarrow> found \<longleftrightarrow> v \<in> set (intset_elems is)"
proof (cases found)
  case False
  moreover assume "search_result is v found pos"
  moreover have "set (intset_elems is) = set (take pos (intset_elems is)) \<union> set (drop pos (intset_elems is))"
    by (metis append_take_drop_id set_append)
  ultimately show ?thesis by (auto simp: search_result_def)
qed (auto simp: search_result_def)

lemma intsetSearch_correct:
  assumes "intset_ok is"
  obtains found pos where "intsetSearch is v = Some (found, pos)" and "search_result is v found pos"
proof (cases "is_length is = 0")
  case True
  then show thesis
    by (intro that [of False 0]) (auto simp: intsetSearch_def search_result_def intset_elems_def)
next
  case False
  let ?xs = "intset_elems is" and ?n = "is_length is"
  note ok = intset_okD [OF assms]
  have mx: "int32_of_u32 ((?n + 2 ^ 32 - 1) mod 2 ^ 32) = int (?n - 1)"
    using False ok(4) by (simp only: pred_u32 neq0_conv) simp
  have gmax: "intsetGet_at is (int (?n - 1)) = Some (?xs ! (?n - 1))"
    and gmin: "intsetGet_at is 0 = Some (?xs ! 0)"
    using intsetGet_at_elems [OF ok(1), of "?n - 1"] intsetGet_at_elems [OF ok(1), of 0] False by auto
  show thesis
  proof (cases "v > ?xs ! (?n - 1)")
    case True
    have "x < v" if x: "x \<in> set ?xs" for x
    proof -
      from x obtain i where "i < ?n" "x = ?xs ! i" by (auto simp: in_set_conv_nth)
      then show ?thesis using sorted_less_nth [OF ok(2), of i "?n - 1"] True by force
    qed
    with True show thesis
      by (intro that [of False ?n])
        (simp_all only: intsetSearch_def Let_def mx gmax False search_result_def, simp_all)
  next
    case notmax: False
    show thesis
    proof (cases "v < ?xs ! 0")
      case True
      have "v < x" if x: "x \<in> set ?xs" for x
      proof -
        from x obtain i where "i < ?n" "x = ?xs ! i" by (auto simp: in_set_conv_nth)
        then show ?thesis using sorted_less_nth [OF ok(2), of 0 i] True by simp
      qed
      with True notmax show thesis
        by (intro that [of False 0])
          (simp_all only: intsetSearch_def Let_def mx gmax gmin False search_result_def, simp_all)
    next
      case notmin: False
      have "loop_split is v 0 (int (?n - 1))" using False by (auto simp: loop_split_def)
      then obtain lo mid cur where r: "intsetSearch_loop is v 0 (int (?n - 1)) (- 1) (- 1) = Some (lo, mid, cur)"
        and f: "cur = v \<Longrightarrow> loop_found is v mid" and nf: "cur \<noteq> v \<Longrightarrow> loop_split is v lo (lo - 1)"
        by (rule intsetSearch_loop_correct [OF assms]) auto
      have res: "intsetSearch is v = (if v = cur then Some (True, nat (mid mod 2 ^ 32))
          else Some (False, nat (lo mod 2 ^ 32)))"
        by (simp only: intsetSearch_def Let_def mx gmax gmin False if_False Option.bind.simps notmax notmin r prod.case)
      show thesis
      proof (cases "v = cur")
        case True
        with f ok(4) have "nat (mid mod 2 ^ 32) = nat mid" by (simp add: loop_found_def)
        with True res have "intsetSearch is v = Some (True, nat mid)" by simp
        with True f show thesis
          by (intro that [of True "nat mid"]) (auto simp: loop_found_def search_result_def)
      next
        case False
        with nf have nf: "loop_split is v lo (lo - 1)" by simp
        with ok(4) have "nat (lo mod 2 ^ 32) = nat lo" by (simp add: loop_split_def)
        with False loop_splitD [OF nf] show thesis
          by (intro that [of False "nat lo"]) (auto simp: res search_result_def)
      qed
    qed
  qed
qed

subsection \<open>Insertion and removal\<close>

lemma valenc_iff:
  assumes "in_i64 v"
  shows "enc_ok (intsetValueEncoding v)"
    and "enc_ok e \<Longrightarrow> intsetValueEncoding v \<le> e \<longleftrightarrow> in_signed (8 * e) v"
  using assms by (auto simp: intsetValueEncoding_def enc_ok_def enc_defs in_signed_def)

lemma nth_insert_at:
  assumes "pos \<le> length xs"
  shows "(take pos xs @ v # drop pos xs) ! i = (if i < pos then xs ! i else if i = pos then v else xs ! (i - 1))"
  using assms by (auto simp: nth_append nth_Cons' min_def)

lemma nth_delete_at:
  assumes "pos < length xs" and "i < length xs - 1"
  shows "(take pos xs @ drop (Suc pos) xs) ! i = (if i < pos then xs ! i else xs ! Suc i)"
  using assms by (auto simp: nth_append min_def)

lemma intset_okI:
  assumes "enc_ok (is_encoding is)" and "is_length is < 2147483648"
    and "length (is_contents is) = is_length is * is_encoding is"
    and "is_length is = length xs"
    and "\<And>i. i < length xs \<Longrightarrow> intsetGet_at is (int i) = Some (xs ! i)"
    and "sorted_wrt (<) xs"
  shows "intset_ok is \<and> intset_elems is = xs"
  using assms intset_elemsI [OF assms(4,5)] by (simp add: intset_ok_def intset_shape_def)

lemma intsetGet_at_upd_length [simp]: "intsetGet_at (is\<lparr>is_length := n\<rparr>) i = intsetGet_at is i"
  by (simp add: intsetGet_at_def intsetGetEncoded_def)

lemma intset_upd:
  "is\<lparr>is_contents := c\<rparr>\<lparr>is_contents := d\<rparr> = is\<lparr>is_contents := d\<rparr>"
  "is_encoding (is\<lparr>is_contents := c\<rparr>) = is_encoding is"
  "is_length (is\<lparr>is_contents := c\<rparr>) = is_length is"
  "is_contents (is\<lparr>is_contents := c\<rparr>) = c"
  by simp_all

lemmas intsetSet_at_upd = intsetSet_at_laws [of "is\<lparr>is_contents := m\<rparr>" for "is" m, simplified intset_upd]
lemmas intsetMoveTail_upd = intsetMoveTail_laws [of "is\<lparr>is_contents := m\<rparr>" for "is" m, simplified intset_upd]

text \<open>Room for one more element: the allocation is served and the 32-bit quantities do not wrap.\<close>

definition can_grow :: "allocator \<Rightarrow> intset \<Rightarrow> int \<Rightarrow> bool" where
  "can_grow al is v \<longleftrightarrow> is_length is + 1 < 2 ^ 31 \<and> is_length is * is_encoding is < 2 ^ 32 \<and>
     al_ok al (sizeof_intset + (is_length is + 1) * max (is_encoding is) (intsetValueEncoding v))"

lemma insert_sorted:
  assumes "sorted_wrt (<) xs" and "pos \<le> length xs" and "\<forall>x \<in> set (take pos xs). x < (v :: int)"
    and "\<forall>x \<in> set (drop pos xs). v < x"
  shows "sorted_wrt (<) (take pos xs @ v # drop pos xs)"
proof -
  have "sorted_wrt (<) (take pos xs)" and "sorted_wrt (<) (drop pos xs)"
    using assms(1) by (auto intro: sorted_wrt_take sorted_wrt_drop)
  with assms(3,4) show ?thesis by (fastforce simp: sorted_wrt_append)
qed

lemma intsetResize_get:
  assumes "enc_ok (is_encoding is)" and "al_ok al (sizeof_intset + len * is_encoding is)" and "len < 2 ^ 32"
    and "k \<le> len" and "k * is_encoding is \<le> length (is_contents is)"
  obtains c where "intsetResize al is len = Some (is\<lparr>is_contents := c\<rparr>)"
    and "length c = len * is_encoding is"
    and "\<And>i. i < k \<Longrightarrow> intsetGet_at (is\<lparr>is_contents := c\<rparr>) (int i) = intsetGet_at is (int i)"
proof -
  let ?e = "is_encoding is"
  obtain c where c: "intsetResize al is len = Some (is\<lparr>is_contents := c\<rparr>)" "length c = len * ?e"
    and rd: "\<And>j n. j + n \<le> len * ?e \<Longrightarrow> j + n \<le> length (is_contents is) \<Longrightarrow> rdn c j n = rdn (is_contents is) j n"
    using intsetResize_laws [OF assms(2,1,3)] by metis
  have "intsetGet_at (is\<lparr>is_contents := c\<rparr>) (int i) = intsetGet_at is (int i)" if "i < k" for i
    using rd [of "i * ?e" ?e] slot_le [OF that, of ?e] slot_le [OF less_le_trans [OF that assms(4)], of ?e] assms(1,5)
    by (simp add: intsetGet_at_nat)
  with c show thesis by (intro that)
qed

text \<open>The hole at \<open>pos\<close>: after the resize and the move, all old elements are around it.\<close>

lemma intset_open_hole:
  assumes "intset_ok is" and "pos \<le> is_length is" and "can_grow al is v" and "intsetValueEncoding v \<le> is_encoding is"
  obtains c d where "intsetResize al is ((is_length is + 1) mod 2 ^ 32) = Some (is\<lparr>is_contents := c\<rparr>)"
    and "(if pos < is_length is then intsetMoveTail (is\<lparr>is_contents := c\<rparr>) pos ((pos + 1) mod 2 ^ 32)
          else Some (is\<lparr>is_contents := c\<rparr>)) = Some (is\<lparr>is_contents := d\<rparr>)"
    and "length d = (is_length is + 1) * is_encoding is"
    and "\<And>i. i < pos \<Longrightarrow> intsetGet_at (is\<lparr>is_contents := d\<rparr>) (int i) = Some (intset_elems is ! i)"
    and "\<And>i. pos \<le> i \<Longrightarrow> i < is_length is \<Longrightarrow>
           intsetGet_at (is\<lparr>is_contents := d\<rparr>) (int (Suc i)) = Some (intset_elems is ! i)"
proof -
  let ?e = "is_encoding is" and ?n = "is_length is" and ?xs = "intset_elems is"
  note ok = intset_okD [OF assms(1)]
  have len: "?n + 1 < 2147483648" "?n * ?e < 4294967296" and al: "al_ok al (sizeof_intset + (?n + 1) * ?e)"
    using assms(3,4) by (auto simp: can_grow_def max_def)
  obtain c where c: "intsetResize al is (?n + 1) = Some (is\<lparr>is_contents := c\<rparr>)" "length c = (?n + 1) * ?e"
    and get: "\<And>i. i < ?n \<Longrightarrow> intsetGet_at (is\<lparr>is_contents := c\<rparr>) (int i) = intsetGet_at is (int i)"
    using intsetResize_get [OF ok(3) al, of ?n] len ok(5) by auto
  note get = get intsetGet_at_elems [OF ok(1)]
  have mods: "(?n + 1) mod 2 ^ 32 = ?n + 1" "(pos + 1) mod 2 ^ 32 = pos + 1"
    using len assms(2) by auto
  show thesis
  proof (cases "pos < ?n")
    case False
    show thesis
      by (rule that [of c c]; (simp only: mods)?) (use c False get assms(2) in auto)
  next
    case True
    let ?is = "is\<lparr>is_contents := c\<rparr>"
    have fits: "pos \<le> ?n" "?n < 2 ^ 32" "?n * ?e \<le> length c"
      "((pos + 1) + (?n - pos)) * ?e \<le> length c" "(?n - pos) * ?e < 2 ^ 32"
      using True len c(2) le_less_trans [OF mult_le_mono1 [OF diff_le_self] len(2), of pos] by simp_all
    obtain d where d: "intsetMoveTail ?is pos (pos + 1) = Some (is\<lparr>is_contents := d\<rparr>)" "length d = length c"
      and mv: "\<And>k. k < ?n - pos \<Longrightarrow> intsetGet_at (is\<lparr>is_contents := d\<rparr>) (int (pos + 1 + k)) = intsetGet_at ?is (int (pos + k))"
      and lo: "\<And>i. i < pos + 1 \<Longrightarrow> intsetGet_at (is\<lparr>is_contents := d\<rparr>) (int i) = intsetGet_at ?is (int i)"
      by (rule intsetMoveTail_upd [OF ok(3) fits]) (rule that)
    show thesis
    proof (rule that [of c d])
      show "intsetResize al is ((?n + 1) mod 2 ^ 32) = Some ?is" by (simp only: mods c)
      show "(if pos < ?n then intsetMoveTail ?is pos ((pos + 1) mod 2 ^ 32) else Some ?is) = Some (is\<lparr>is_contents := d\<rparr>)"
        using d True by (simp only: mods intset_upd if_True)
      show "length d = (?n + 1) * ?e" using d c by simp
      show "intsetGet_at (is\<lparr>is_contents := d\<rparr>) (int i) = Some (?xs ! i)" if "i < pos" for i
        using lo [of i] that True get by simp
      show "intsetGet_at (is\<lparr>is_contents := d\<rparr>) (int (Suc i)) = Some (?xs ! i)" if "pos \<le> i" "i < ?n" for i
        using mv [of "i - pos"] that True get [of i] by simp
    qed
  qed
qed

lemma intsetAdd_insert:
  assumes "intset_ok is" and "in_i64 v" and "can_grow al is v" and "intsetValueEncoding v \<le> is_encoding is"
    and "intsetSearch is v = Some (False, pos)" and "search_result is v False pos"
  obtains is' where "intsetAdd al is v = Some (is', True)" and "intset_ok is'"
    and "intset_elems is' = take pos (intset_elems is) @ v # drop pos (intset_elems is)"
proof -
  let ?e = "is_encoding is" and ?n = "is_length is" and ?xs = "intset_elems is"
  note ok = intset_okD [OF assms(1)]
  have pos: "pos \<le> ?n" using assms(6) by (simp add: search_result_def)
  have len: "?n + 1 < 2147483648" using assms(3) by (simp add: can_grow_def)
  obtain c d where c: "intsetResize al is ((?n + 1) mod 2 ^ 32) = Some (is\<lparr>is_contents := c\<rparr>)"
    and d: "(if pos < ?n then intsetMoveTail (is\<lparr>is_contents := c\<rparr>) pos ((pos + 1) mod 2 ^ 32)
          else Some (is\<lparr>is_contents := c\<rparr>)) = Some (is\<lparr>is_contents := d\<rparr>)"
    and ld: "length d = (?n + 1) * ?e"
    and lo: "\<And>i. i < pos \<Longrightarrow> intsetGet_at (is\<lparr>is_contents := d\<rparr>) (int i) = Some (?xs ! i)"
    and hi: "\<And>i. pos \<le> i \<Longrightarrow> i < ?n \<Longrightarrow> intsetGet_at (is\<lparr>is_contents := d\<rparr>) (int (Suc i)) = Some (?xs ! i)"
    using intset_open_hole [OF assms(1) pos assms(3,4)] by metis
  let ?is = "is\<lparr>is_contents := d\<rparr>"
  have v: "in_signed (8 * ?e) v" using assms(4) valenc_iff [OF assms(2)] ok(3) by simp
  have fit: "pos * ?e + ?e \<le> length d" using slot_le [of pos "?n + 1" ?e] pos ld by simp
  obtain g where g: "intsetSet_at ?is (int pos) v = Some (is\<lparr>is_contents := g\<rparr>)" "length g = length d"
    and same: "intsetGet_at (is\<lparr>is_contents := g\<rparr>) (int pos) = Some v"
    and other: "\<And>j. j \<noteq> pos \<Longrightarrow> intsetGet_at (is\<lparr>is_contents := g\<rparr>) (int j) = intsetGet_at ?is (int j)"
    by (rule intsetSet_at_upd [OF ok(3) fit v]) (rule that)
  let ?is' = "is\<lparr>is_contents := g, is_length := ?n + 1\<rparr>"
  have "intset_ok ?is' \<and> intset_elems ?is' = take pos ?xs @ v # drop pos ?xs"
  proof (rule intset_okI)
    show "sorted_wrt (<) (take pos ?xs @ v # drop pos ?xs)"
      using insert_sorted [OF ok(2)] assms(6) by (simp add: search_result_def)
    fix i assume "i < length (take pos ?xs @ v # drop pos ?xs)"
    then have i: "i < Suc ?n" using pos by simp
    have "intsetGet_at (is\<lparr>is_contents := g\<rparr>) (int i) = Some (if i < pos then ?xs ! i else if i = pos then v else ?xs ! (i - 1))"
      using same other lo hi [of "i - 1"] i by auto
    then show "intsetGet_at ?is' (int i) = Some ((take pos ?xs @ v # drop pos ?xs) ! i)"
      using pos by (simp add: nth_insert_at)
  qed (use ok(3) ld g(2) len pos in auto)
  moreover have "intsetAdd al is v = Some (?is', True)"
  proof -
    have "int32_of_u32 pos = int pos" and "(?n + 1) mod 2 ^ 32 = ?n + 1" using pos len by auto
    moreover have "\<not> intsetValueEncoding v > ?e" using assms(4) by simp
    ultimately show ?thesis
      using c d g(1) assms(5) by (simp add: intsetAdd_def Let_def)
  qed
  ultimately show thesis using that by blast
qed

subsubsection \<open>Widening\<close>

text \<open>
  The loop keeps the narrow elements below index \<open>n\<close> where they were and the widened ones at
  their final place.
\<close>

lemma intsetUpgrade_loop_correct:
  assumes "enc_ok d" and "enc_ok (is_encoding is)" and "d \<le> is_encoding is"
    and "n \<le> length xs" and "(length xs + p) * is_encoding is \<le> length m"
    and "\<forall>x \<in> set xs. in_signed (8 * d) x"
    and "\<And>i. i < n \<Longrightarrow> intsetGetEncoded (is\<lparr>is_contents := m\<rparr>) (int i) d = Some (xs ! i)"
    and "\<And>i. n \<le> i \<Longrightarrow> i < length xs \<Longrightarrow> intsetGet_at (is\<lparr>is_contents := m\<rparr>) (int (i + p)) = Some (xs ! i)"
  shows "\<exists>c. intsetUpgrade_loop (is\<lparr>is_contents := m\<rparr>) d p n = Some (is\<lparr>is_contents := c\<rparr>) \<and>
    length c = length m \<and>
    (\<forall>i < length xs. intsetGet_at (is\<lparr>is_contents := c\<rparr>) (int (i + p)) = Some (xs ! i))"
  using assms(4,5,7,8)
proof (induction n arbitrary: m)
  case 0
  from 0(4) have "\<forall>i < length xs. intsetGet_at (is\<lparr>is_contents := m\<rparr>) (int (i + p)) = Some (xs ! i)" by blast
  then show ?case by (simp only: intsetUpgrade_loop.simps) blast
next
  case (Suc n)
  let ?e = "is_encoding is"
  have v: "in_signed (8 * ?e) (xs ! n)"
    by (rule in_signed_mono [OF _ assms(3)]) (use assms(6) Suc.prems(1) in simp)
  have fit: "(n + p) * ?e + ?e \<le> length m"
    using slot_le [of "n + p" "length xs + p" ?e] Suc.prems(1,2) by simp
  have below: "n * d \<le> (n + p) * ?e" using assms(3) by (intro mult_le_mono) auto
  obtain c where c: "intsetSet_at (is\<lparr>is_contents := m\<rparr>) (int (n + p)) (xs ! n) = Some (is\<lparr>is_contents := c\<rparr>)"
      "length c = length m"
    and same: "intsetGet_at (is\<lparr>is_contents := c\<rparr>) (int (n + p)) = Some (xs ! n)"
    and other: "\<And>j. j \<noteq> n + p \<Longrightarrow> intsetGet_at (is\<lparr>is_contents := c\<rparr>) (int j) = intsetGet_at (is\<lparr>is_contents := m\<rparr>) (int j)"
    and low: "\<And>j k. j + k \<le> (n + p) * ?e \<Longrightarrow> rdn c j k = rdn m j k"
    by (rule intsetSet_at_upd [OF assms(2) fit v]) (rule that)
  have narrow: "intsetGetEncoded (is\<lparr>is_contents := c\<rparr>) (int i) d = Some (xs ! i)" if "i < n" for i
  proof -
    have "i * d + d \<le> (n + p) * ?e" using slot_le [OF that, of d] below by linarith
    then show ?thesis
      using Suc.prems(3) [of i] that low [of "i * d" d] assms(1) by (simp add: intsetGetEncoded_nat enc_okD)
  qed
  have wide: "intsetGet_at (is\<lparr>is_contents := c\<rparr>) (int (i + p)) = Some (xs ! i)" if "n \<le> i" "i < length xs" for i
    using same other [of "i + p"] Suc.prems(4) [of i] that by (cases "i = n") auto
  have "intsetUpgrade_loop (is\<lparr>is_contents := m\<rparr>) d p (Suc n) = intsetUpgrade_loop (is\<lparr>is_contents := c\<rparr>) d p n"
    using Suc.prems(3) [of n] c(1) by simp
  with Suc.IH [OF _ _ narrow wide] Suc.prems(1,2) c(2) show ?case by simp
qed

lemma sorted_extend:
  assumes "sorted_wrt (<) xs" and "\<forall>x \<in> set xs. in_signed (8 * d) x" and "\<not> in_signed (8 * d) v"
  shows "sorted_wrt (<) (if v < 0 then v # xs else xs @ [v])"
    and "v \<notin> set xs"
proof -
  have "x < v" if "x \<in> set xs" "\<not> v < 0" for x
  proof -
    have "x < 2 ^ (8 * d - 1)" using assms(2) that(1) by (auto simp: in_signed_def)
    moreover have "- (2 ^ (8 * d - 1)) \<le> v" using that(2) by (smt (verit) zero_le_power)
    ultimately show ?thesis using assms(3) that(2) by (auto simp: in_signed_def)
  qed
  moreover have "v < x" if "x \<in> set xs" "v < 0" for x
  proof -
    have "- (2 ^ (8 * d - 1)) \<le> x" using assms(2) that(1) by (auto simp: in_signed_def)
    moreover have "v < 2 ^ (8 * d - 1)" using that(2) by (smt (verit) zero_le_power)
    ultimately show ?thesis using assms(3) that(2) by (auto simp: in_signed_def)
  qed
  ultimately show "sorted_wrt (<) (if v < 0 then v # xs else xs @ [v])" and "v \<notin> set xs"
    using assms(1) by (auto simp: sorted_wrt_append)
qed

lemma intsetUpgradeAndAdd_correct:
  assumes "intset_ok is" and "in_i64 v" and "can_grow al is v" and "intsetValueEncoding v > is_encoding is"
  obtains is' where "intsetUpgradeAndAdd al is v = Some is'" and "intset_ok is'"
    and "intset_elems is' = (if v < 0 then v # intset_elems is else intset_elems is @ [v])"
proof -
  let ?d = "is_encoding is" and ?e = "intsetValueEncoding v" and ?n = "is_length is" and ?xs = "intset_elems is"
  let ?p = "if v < 0 then 1 else 0 :: nat"
  let ?is = "is\<lparr>is_encoding := ?e\<rparr>" and ?ys = "if v < 0 then v # ?xs else ?xs @ [v]"
  note ok = intset_okD [OF assms(1)]
  have e: "enc_ok ?e" "in_signed (8 * ?e) v" and nd: "\<not> in_signed (8 * ?d) v"
    using valenc_iff(1) [OF assms(2)] valenc_iff(2) [OF assms(2), of ?e] valenc_iff(2) [OF assms(2), of ?d] ok(3) assms(4)
    by simp_all
  have len: "?n + 1 < 2147483648" and al: "al_ok al (sizeof_intset + (?n + 1) * is_encoding ?is)"
    using assms(3,4) by (auto simp: can_grow_def max_def)
  have range: "\<forall>x \<in> set ?xs. in_signed (8 * ?d) x" using intset_elems_range [OF ok(1)] by blast
  have ee: "enc_ok (is_encoding ?is)" and l32: "?n + 1 < 2 ^ 32" using e len by auto
  obtain c where c: "intsetResize al ?is (?n + 1) = Some (?is\<lparr>is_contents := c\<rparr>)"
      "length c = (?n + 1) * is_encoding ?is"
    and rd: "\<And>j k. j + k \<le> (?n + 1) * is_encoding ?is \<Longrightarrow> j + k \<le> length (is_contents ?is) \<Longrightarrow> rdn c j k = rdn (is_contents ?is) j k"
    by (rule intsetResize_laws [OF al ee l32]) (rule that)
  have narrow: "intsetGetEncoded (?is\<lparr>is_contents := c\<rparr>) (int i) ?d = Some (?xs ! i)" if "i < ?n" for i
  proof -
    have "i * ?d + ?d \<le> ?n * ?d" using that by (rule slot_le)
    moreover have "?n * ?d \<le> (?n + 1) * ?e" using assms(4) by (intro mult_le_mono) auto
    ultimately have "rdn c (i * ?d) ?d = rdn (is_contents is) (i * ?d) ?d"
      using rd [of "i * ?d" ?d] ok(5) by simp
    then show ?thesis
      using intsetGet_at_elems [OF ok(1) that] ok(3)
      by (simp add: intsetGetEncoded_nat intsetGet_at_nat enc_okD)
  qed
  have room: "(length ?xs + ?p) * is_encoding ?is \<le> length c" using c(2) by simp
  have "\<exists>d. intsetUpgrade_loop (?is\<lparr>is_contents := c\<rparr>) ?d ?p ?n = Some (?is\<lparr>is_contents := d\<rparr>) \<and>
    length d = length c \<and>
    (\<forall>i < length ?xs. intsetGet_at (?is\<lparr>is_contents := d\<rparr>) (int (i + ?p)) = Some (?xs ! i))"
    by (rule intsetUpgrade_loop_correct [OF ok(3) ee _ _ room range narrow]) (use assms(4) in auto)
  then obtain d where d: "intsetUpgrade_loop (?is\<lparr>is_contents := c\<rparr>) ?d ?p ?n = Some (?is\<lparr>is_contents := d\<rparr>)"
      "length d = length c"
    and wide: "\<And>i. i < ?n \<Longrightarrow> intsetGet_at (?is\<lparr>is_contents := d\<rparr>) (int (i + ?p)) = Some (?xs ! i)"
    by auto
  let ?q = "if v < 0 then 0 else ?n"
  have fit: "?q * is_encoding ?is + is_encoding ?is \<le> length d"
    using slot_le [of ?q "?n + 1" ?e] d(2) c(2) by simp
  have ve: "in_signed (8 * is_encoding ?is) v" using e by simp
  obtain g where g: "intsetSet_at (?is\<lparr>is_contents := d\<rparr>) (int ?q) v = Some (?is\<lparr>is_contents := g\<rparr>)" "length g = length d"
    and same: "intsetGet_at (?is\<lparr>is_contents := g\<rparr>) (int ?q) = Some v"
    and other: "\<And>j. j \<noteq> ?q \<Longrightarrow> intsetGet_at (?is\<lparr>is_contents := g\<rparr>) (int j) = intsetGet_at (?is\<lparr>is_contents := d\<rparr>) (int j)"
    by (rule intsetSet_at_upd [OF ee fit ve]) (rule that)
  let ?is' = "?is\<lparr>is_contents := g, is_length := ?n + 1\<rparr>"
  have "intset_ok ?is' \<and> intset_elems ?is' = ?ys"
  proof (rule intset_okI)
    show "sorted_wrt (<) ?ys" using sorted_extend(1) [OF ok(2) range nd] .
    fix i assume "i < length ?ys"
    then have i: "i < Suc ?n" by (auto split: if_splits)
    show "intsetGet_at ?is' (int i) = Some (?ys ! i)"
    proof (cases "i = ?q")
      case True
      then show ?thesis using same by (auto simp: nth_append)
    next
      case False
      then have "i - ?p < ?n" and "i - ?p + ?p = i" and "?ys ! i = ?xs ! (i - ?p)"
        using i by (auto simp: nth_append nth_Cons' split: if_splits)
      then show ?thesis using other [OF False] wide [of "i - ?p"] by simp
    qed
  qed (use e(1) c(2) d(2) g(2) len in auto)
  moreover have "intsetUpgradeAndAdd al is v = Some ?is'"
  proof -
    have "int32_of_u32 ?n = int ?n" and "(?n + 1) mod 2 ^ 32 = ?n + 1" "?d mod 2 ^ 8 = ?d"
      using len enc_okD(2) [OF ok(3)] by auto
    then show ?thesis
      using c(1) d(1) g(1) by (auto simp: intsetUpgradeAndAdd_def Let_def)
  qed
  ultimately show thesis using that by blast
qed

subsubsection \<open>Add, remove, find\<close>

lemma intsetAdd_correct:
  assumes "intset_ok is" and "in_i64 v" and "can_grow al is v"
  obtains is' where "intsetAdd al is v = Some (is', v \<notin> set (intset_elems is))" and "intset_ok is'"
    and "set (intset_elems is') = insert v (set (intset_elems is))"
proof (cases "intsetValueEncoding v \<le> is_encoding is")
  case False
  let ?xs = "intset_elems is"
  note ok = intset_okD [OF assms(1)]
  from False have gt: "intsetValueEncoding v > is_encoding is" by simp
  obtain is' where is': "intsetUpgradeAndAdd al is v = Some is'" "intset_ok is'"
    "intset_elems is' = (if v < 0 then v # ?xs else ?xs @ [v])"
    by (rule intsetUpgradeAndAdd_correct [OF assms gt])
  have "\<not> in_signed (8 * is_encoding is) v" using valenc_iff(2) [OF assms(2) ok(3)] False by simp
  then have "v \<notin> set ?xs" using intset_elems_range [OF ok(1)] by blast
  with is' gt show thesis by (intro that [of is']) (auto simp: intsetAdd_def)
next
  case True
  let ?xs = "intset_elems is"
  obtain found pos where s: "intsetSearch is v = Some (found, pos)" "search_result is v found pos"
    by (rule intsetSearch_correct [OF assms(1)])
  note mem = search_result_found [OF s(2)]
  show thesis
  proof (cases found)
    case True
    with s mem \<open>intsetValueEncoding v \<le> is_encoding is\<close> assms(1) show thesis
      by (intro that [of "is"]) (auto simp: intsetAdd_def)
  next
    case False
    with s have s': "intsetSearch is v = Some (False, pos)" "search_result is v False pos" by auto
    obtain is' where "intsetAdd al is v = Some (is', True)" "intset_ok is'"
      "intset_elems is' = take pos ?xs @ v # drop pos ?xs"
      by (rule intsetAdd_insert [OF assms True s'])
    moreover have "set (take pos ?xs) \<union> set (drop pos ?xs) = set ?xs"
      by (metis append_take_drop_id set_append)
    ultimately show thesis using mem False by (intro that [of is']) auto
  qed
qed

text \<open>A removal shrinks the block: the smaller allocation is served and the byte count does not wrap.\<close>

definition can_shrink :: "allocator \<Rightarrow> intset \<Rightarrow> bool" where
  "can_shrink al is \<longleftrightarrow> (is_length is - 1) * is_encoding is < 2 ^ 32 \<and>
     al_ok al (sizeof_intset + (is_length is - 1) * is_encoding is)"

lemma intset_close_gap:
  assumes "intset_ok is" and "pos < is_length is" and "can_shrink al is"
  obtains c d where "(if pos < is_length is - 1 then intsetMoveTail is ((pos + 1) mod 2 ^ 32) pos else Some is) =
      Some (is\<lparr>is_contents := c\<rparr>)"
    and "intsetResize al (is\<lparr>is_contents := c\<rparr>) (is_length is - 1) = Some (is\<lparr>is_contents := d\<rparr>)"
    and "length d = (is_length is - 1) * is_encoding is"
    and "\<And>i. i < is_length is - 1 \<Longrightarrow> intsetGet_at (is\<lparr>is_contents := d\<rparr>) (int i) =
           Some ((take pos (intset_elems is) @ drop (Suc pos) (intset_elems is)) ! i)"
proof -
  let ?e = "is_encoding is" and ?n = "is_length is" and ?xs = "intset_elems is"
  let ?ys = "take pos ?xs @ drop (Suc pos) ?xs"
  note ok = intset_okD [OF assms(1)]
  have small: "(?n - 1) * ?e < 2 ^ 32" and al: "al_ok al (sizeof_intset + (?n - 1) * ?e)"
    using assms(3) by (auto simp: can_shrink_def)
  have "\<exists>c. (if pos < ?n - 1 then intsetMoveTail is ((pos + 1) mod 2 ^ 32) pos else Some is) = Some (is\<lparr>is_contents := c\<rparr>) \<and>
      length c = ?n * ?e \<and> (\<forall>i < ?n - 1. intsetGet_at (is\<lparr>is_contents := c\<rparr>) (int i) = Some (?ys ! i))"
  proof (cases "pos < ?n - 1")
    case False
    then have "pos = ?n - 1" using assms(2) by simp
    then have "\<forall>i < ?n - 1. intsetGet_at is (int i) = Some (?ys ! i)"
      using intsetGet_at_elems [OF ok(1)] by (simp add: nth_append)
    then show ?thesis using False ok(5) by (intro exI [of _ "is_contents is"]) simp
  next
    case True
    have fits: "pos + 1 \<le> ?n" "?n < 2 ^ 32" "?n * ?e \<le> length (is_contents is)"
      "(pos + (?n - (pos + 1))) * ?e \<le> length (is_contents is)" "(?n - (pos + 1)) * ?e < 2 ^ 32"
      using True ok(4,5) le_less_trans [OF mult_le_mono1 small, of "?n - (pos + 1)"] by simp_all
    obtain c where c: "intsetMoveTail is (pos + 1) pos = Some (is\<lparr>is_contents := c\<rparr>)" "length c = length (is_contents is)"
      and mv: "\<And>k. k < ?n - (pos + 1) \<Longrightarrow> intsetGet_at (is\<lparr>is_contents := c\<rparr>) (int (pos + k)) = intsetGet_at is (int (pos + 1 + k))"
      and lo: "\<And>i. i < pos \<Longrightarrow> intsetGet_at (is\<lparr>is_contents := c\<rparr>) (int i) = intsetGet_at is (int i)"
      by (rule intsetMoveTail_laws [OF ok(3) fits]) (rule that)
    have m: "(pos + 1) mod 2 ^ 32 = pos + 1" using True ok(4) by simp
    have "intsetGet_at (is\<lparr>is_contents := c\<rparr>) (int i) = Some (?ys ! i)" if "i < ?n - 1" for i
    proof (cases "i < pos")
      case True
      then show ?thesis using lo [of i] intsetGet_at_elems [OF ok(1), of i] that assms(2)
        by (simp add: nth_append)
    next
      case False
      then show ?thesis
        using mv [of "i - pos"] intsetGet_at_elems [OF ok(1), of "Suc i"] that assms(2)
        by (simp add: nth_delete_at)
    qed
    with c ok(5) True show ?thesis by (intro exI [of _ c]) (simp only: m if_True, simp)
  qed
  then obtain c where c: "(if pos < ?n - 1 then intsetMoveTail is ((pos + 1) mod 2 ^ 32) pos else Some is) = Some (is\<lparr>is_contents := c\<rparr>)"
      "length c = ?n * ?e" and get: "\<And>i. i < ?n - 1 \<Longrightarrow> intsetGet_at (is\<lparr>is_contents := c\<rparr>) (int i) = Some (?ys ! i)"
    by blast
  have rs: "enc_ok (is_encoding (is\<lparr>is_contents := c\<rparr>))"
    "al_ok al (sizeof_intset + (?n - 1) * is_encoding (is\<lparr>is_contents := c\<rparr>))" "?n - 1 < 2 ^ 32" "?n - 1 \<le> ?n - 1"
    "(?n - 1) * is_encoding (is\<lparr>is_contents := c\<rparr>) \<le> length (is_contents (is\<lparr>is_contents := c\<rparr>))"
    using ok(3,4) al c(2) by simp_all
  obtain d where "intsetResize al (is\<lparr>is_contents := c\<rparr>) (?n - 1) = Some (is\<lparr>is_contents := d\<rparr>)" "length d = (?n - 1) * ?e"
    "\<And>i. i < ?n - 1 \<Longrightarrow> intsetGet_at (is\<lparr>is_contents := d\<rparr>) (int i) = intsetGet_at (is\<lparr>is_contents := c\<rparr>) (int i)"
    by (rule intsetResize_get [OF rs, unfolded intset_upd]) (rule that)
  with c get show thesis by (intro that [of c d]) simp_all
qed

lemma delete_sorted: "sorted_wrt (<) (xs :: int list) \<Longrightarrow> sorted_wrt (<) (take pos xs @ drop (Suc pos) xs)"
proof -
  assume s: "sorted_wrt (<) xs"
  have "sorted_wrt (<) (take pos xs @ drop pos xs)" using s by simp
  moreover have "set (drop (Suc pos) xs) \<subseteq> set (drop pos xs)" by (simp add: set_drop_subset_set_drop)
  ultimately show ?thesis using s by (auto simp: sorted_wrt_append sorted_wrt_drop simp del: append_take_drop_id)
qed

lemma set_delete_at:
  assumes "sorted_wrt (<) (xs :: int list)" and "pos < length xs"
  shows "set (take pos xs @ drop (Suc pos) xs) = set xs - {xs ! pos}"
proof -
  have xs: "xs = take pos xs @ xs ! pos # drop (Suc pos) xs" using assms(2) by (rule id_take_nth_drop)
  have "distinct xs" using assms(1) by (simp add: strict_sorted_iff)
  then have "distinct (take pos xs @ xs ! pos # drop (Suc pos) xs)" using xs by simp
  moreover have "set xs = set (take pos xs @ xs ! pos # drop (Suc pos) xs)" using xs by simp
  ultimately show ?thesis by auto
qed

lemma intsetRemove_correct:
  assumes "intset_ok is" and "in_i64 v" and "can_shrink al is"
  obtains is' where "intsetRemove al is v = Some (is', v \<in> set (intset_elems is))" and "intset_ok is'"
    and "set (intset_elems is') = set (intset_elems is) - {v}"
proof (cases "intsetValueEncoding v \<le> is_encoding is")
  case False
  note ok = intset_okD [OF assms(1)]
  have "\<not> in_signed (8 * is_encoding is) v" using valenc_iff(2) [OF assms(2) ok(3)] False by simp
  then have "v \<notin> set (intset_elems is)" using intset_elems_range [OF ok(1)] by blast
  with False assms(1) show thesis by (intro that [of "is"]) (auto simp: intsetRemove_def)
next
  case enc: True
  let ?xs = "intset_elems is" and ?n = "is_length is"
  note ok = intset_okD [OF assms(1)]
  obtain found pos where s: "intsetSearch is v = Some (found, pos)" "search_result is v found pos"
    by (rule intsetSearch_correct [OF assms(1)])
  note mem = search_result_found [OF s(2)]
  show thesis
  proof (cases found)
    case False
    with s mem enc assms(1) show thesis by (intro that [of "is"]) (auto simp: intsetRemove_def)
  next
    case True
    with s have pos: "pos < ?n" "?xs ! pos = v" by (auto simp: search_result_def)
    obtain c d where c: "(if pos < ?n - 1 then intsetMoveTail is ((pos + 1) mod 2 ^ 32) pos else Some is) = Some (is\<lparr>is_contents := c\<rparr>)"
      and d: "intsetResize al (is\<lparr>is_contents := c\<rparr>) (?n - 1) = Some (is\<lparr>is_contents := d\<rparr>)" "length d = (?n - 1) * is_encoding is"
      and get: "\<And>i. i < ?n - 1 \<Longrightarrow> intsetGet_at (is\<lparr>is_contents := d\<rparr>) (int i) = Some ((take pos ?xs @ drop (Suc pos) ?xs) ! i)"
      by (rule intset_close_gap [OF assms(1) pos(1) assms(3)]) (rule that)
    let ?is' = "is\<lparr>is_contents := d, is_length := ?n - 1\<rparr>"
    have r: "intset_ok ?is' \<and> intset_elems ?is' = take pos ?xs @ drop (Suc pos) ?xs"
      by (rule intset_okI) (use ok d(2) get pos delete_sorted in auto)
    have p: "(?n + 2 ^ 32 - 1) mod 2 ^ 32 = ?n - 1" using pred_u32 pos ok(4) by simp
    have "intsetRemove al is v = Some (?is', True)"
      unfolding intsetRemove_def Let_def using enc s(1) True
      by (simp only: p c d Option.bind.simps if_True prod.case)
    with r mem True pos set_delete_at [OF ok(2), of pos] show thesis by (intro that [of ?is']) auto
  qed
qed

lemma intsetFind_correct:
  assumes "intset_ok is" and "in_i64 v"
  shows "intsetFind is v = Some (v \<in> set (intset_elems is))"
proof (cases "intsetValueEncoding v \<le> is_encoding is")
  case False
  note ok = intset_okD [OF assms(1)]
  have "\<not> in_signed (8 * is_encoding is) v" using valenc_iff(2) [OF assms(2) ok(3)] False by simp
  then show ?thesis using False intset_elems_range [OF ok(1)] by (auto simp: intsetFind_def)
next
  case True
  obtain found pos where "intsetSearch is v = Some (found, pos)" "search_result is v found pos"
    by (rule intsetSearch_correct [OF assms(1)])
  with True search_result_found show ?thesis by (simp add: intsetFind_def)
qed

subsubsection \<open>Reads and validation\<close>

lemma intsetNew_correct:
  assumes "al_ok al sizeof_intset"
  shows "\<exists>is. intsetNew al = Some is \<and> intset_ok is \<and> intset_elems is = []"
proof -
  obtain b where b: "zmalloc al sizeof_intset = Some b" "length b = sizeof_intset"
    using assms zmalloc_Some_length by (auto simp: zmalloc_def resize_block_def)
  then show ?thesis
    by (auto simp: intsetNew_def intset_ok_def intset_shape_def enc_ok_def intset_elems_def)
qed

lemma int32_elems:
  "intset_ok is \<Longrightarrow> i < is_length is \<Longrightarrow> intsetGet_at is (int32_of_u32 i) = Some (intset_elems is ! i)"
  using intsetGet_at_elems [of "is" i] intset_okD [of "is"] by simp

lemma intsetMin_Max_correct:
  assumes "intset_ok is" and "is_length is \<noteq> 0"
  shows "intsetMin is = Some (Min (set (intset_elems is)))"
    and "intsetMax is = Some (Max (set (intset_elems is)))"
proof -
  let ?xs = "intset_elems is" and ?n = "is_length is"
  note ok = intset_okD [OF assms(1)]
  have "Min (set ?xs) = ?xs ! 0"
  proof (rule Min_eqI)
    show "?xs ! 0 \<le> y" if "y \<in> set ?xs" for y
      using that sorted_less_nth [OF ok(2), of 0] by (auto simp: in_set_conv_nth)
  qed (use assms(2) in auto)
  then show "intsetMin is = Some (Min (set ?xs))"
    using intsetGet_at_elems [OF ok(1), of 0] assms(2) by (simp add: intsetMin_def)
  have "Max (set ?xs) = ?xs ! (?n - 1)"
  proof (rule Max_eqI)
    show "y \<le> ?xs ! (?n - 1)" if y: "y \<in> set ?xs" for y
    proof -
      from y obtain i where "i < ?n" "y = ?xs ! i" by (auto simp: in_set_conv_nth)
      then show ?thesis using sorted_less_nth [OF ok(2), of i "?n - 1"] by simp
    qed
  qed (use assms(2) in auto)
  moreover have "intsetMax is = intsetGet_at is (int32_of_u32 (?n - 1))"
    unfolding intsetMax_def using pred_u32 [of ?n] ok(4) assms(2) by simp
  ultimately show "intsetMax is = Some (Max (set ?xs))"
    using int32_elems [OF assms(1), of "?n - 1"] assms(2) by simp
qed

lemma sorted_wrt_less_Cons_nth:
  "sorted_wrt (<) (x # y # xs) \<longleftrightarrow> (x :: int) < y \<and> sorted_wrt (<) (y # xs)"
  by auto

lemma intsetValidate_scan_correct:
  assumes "intset_shape is" and "i + n = is_length is" and "0 < i"
  shows "intsetValidate_scan is i n (intset_elems is ! (i - 1)) =
     Some (sorted_wrt (<) (drop (i - 1) (intset_elems is)))"
  using assms(2,3)
proof (induction n arbitrary: i)
  case 0
  then have "drop (i - 1) (intset_elems is) = [intset_elems is ! (i - 1)]"
    by (subst Cons_nth_drop_Suc [symmetric]) auto
  then show ?case by simp
next
  case (Suc n)
  let ?xs = "intset_elems is"
  have i: "i < is_length is" using Suc.prems by simp
  have "i < 2147483648" using i assms(1) by (simp add: intset_shape_def)
  then have get: "intsetGet_at is (int32_of_u32 i) = Some (?xs ! i)"
    using intsetGet_at_elems [OF assms(1) i] by simp
  have "drop (i - 1) ?xs = ?xs ! (i - 1) # ?xs ! i # drop (Suc i) ?xs" and "drop i ?xs = ?xs ! i # drop (Suc i) ?xs"
    using i Suc.prems by (metis Cons_nth_drop_Suc Suc_pred' length_intset_elems less_imp_diff_less)+
  then have "sorted_wrt (<) (drop (i - 1) ?xs) \<longleftrightarrow> ?xs ! (i - 1) < ?xs ! i \<and> sorted_wrt (<) (drop i ?xs)"
    by (simp only: sorted_wrt_less_Cons_nth)
  then show ?case using get Suc.IH [of "i + 1"] Suc.prems by auto
qed

lemma intset_of_block:
  assumes "is_encoding is < 2 ^ 32" and "is_length is < 2 ^ 32"
  shows "intset_of_bytes (intset_block is) = Some is"
proof -
  have "rdn (intset_block is) 0 4 = Some (store_le 4 (is_encoding is))"
    and "rdn (intset_block is) 4 4 = Some (store_le 4 (is_length is))"
    by (simp_all add: rdn_def intset_block_def)
  then show ?thesis
    using assms by (simp add: intset_of_bytes_def sizeof_intset_def intset_block_def)
qed

lemma intset_of_bytes_block:
  assumes "sizeof_intset \<le> length p"
  obtains "is" where "intset_of_bytes p = Some is" and "intset_block is = p"
    and "length (is_contents is) + sizeof_intset = length p"
proof -
  have p: "rdn p 0 4 = Some (take 4 p)" "rdn p 4 4 = Some (take 4 (drop 4 p))"
    using assms by (auto simp: rdn_def sizeof_intset_def)
  have l: "length (take 4 p) = 4" "length (take 4 (drop 4 p)) = 4"
    using assms by (auto simp: sizeof_intset_def)
  have "intset_block \<lparr>is_encoding = load_le (take 4 p), is_length = load_le (take 4 (drop 4 p)),
      is_contents = drop sizeof_intset p\<rparr> = take 4 p @ take 4 (drop 4 p) @ drop 8 p"
    using store_le_load_le [of "take 4 p"] store_le_load_le [of "take 4 (drop 4 p)"] l
    by (simp add: intset_block_def sizeof_intset_def)
  also have "\<dots> = p" by (metis append_take_drop_id drop_drop numeral_Bit0)
  finally show thesis using assms p by (intro that) (auto simp: intset_of_bytes_def)
qed

text \<open>
  Deep validation accepts exactly the blobs of valid, non-empty sets of fewer than \<open>2 ^ 31\<close>
  elements.
\<close>

lemma intsetValidateIntegrity_deep:
  assumes "length p < 2 ^ 32 + sizeof_intset"
  shows "intsetValidateIntegrity p (length p) True =
    Some (\<exists>is. p = intset_block is \<and> intset_ok is \<and> intset_elems is \<noteq> [])"
proof (cases "sizeof_intset \<le> length p")
  case False
  then have "p \<noteq> intset_block is" for "is" by (auto simp: intset_block_def sizeof_intset_def)
  with False show ?thesis by (auto simp: intsetValidateIntegrity_def)
next
  case True
  then obtain "is" where b: "intset_of_bytes p = Some is" "intset_block is = p"
    "length (is_contents is) + sizeof_intset = length p" by (rule intset_of_bytes_block)
  have uniq: "is' = is" if "p = intset_block is'" "intset_ok is'" for is'
  proof -
    have "is_encoding is' < 2 ^ 32" "is_length is' < 2 ^ 32"
      using intset_okD [OF that(2)] enc_okD(4) by fastforce+
    then show ?thesis using intset_of_block [of is'] b(1) that(1) by simp
  qed
  have ex: "(\<exists>is'. p = intset_block is' \<and> intset_ok is' \<and> intset_elems is' \<noteq> []) \<longleftrightarrow>
      intset_ok is \<and> is_length is \<noteq> 0"
    using uniq b(2) by (metis length_0_conv length_intset_elems)
  show ?thesis
  proof (cases "enc_ok (is_encoding is) \<and> sizeof_intset + is_length is * is_encoding is = length p \<and> is_length is \<noteq> 0")
    case False
    then have "\<not> (intset_ok is \<and> is_length is \<noteq> 0)"
      using b(3) intset_okD [of "is"] by auto
    with False True b(1) show ?thesis
      unfolding ex by (auto simp: intsetValidateIntegrity_def enc_ok_def Let_def)
  next
    case ok: True
    have "is_length is * 2 \<le> is_length is * is_encoding is" using ok by (auto simp: enc_ok_def enc_defs)
    moreover have "is_length is * is_encoding is < 2 ^ 32" using ok assms by simp
    ultimately have "is_length is * 2 < 2 ^ 32" by (rule order_le_less_trans)
    then have "is_length is < 2 ^ 31" by simp
    then have shape: "intset_shape is"
      using ok b(3) by (simp add: intset_shape_def sizeof_intset_def)
    have "intsetGet_at is 0 = Some (intset_elems is ! 0)"
      using intsetGet_at_elems [OF shape, of 0] ok by simp
    then have "intsetValidateIntegrity p (length p) True = intsetValidate_scan is 1 (is_length is - 1) (intset_elems is ! 0)"
      using True b(1) ok by (auto simp: intsetValidateIntegrity_def enc_ok_def Let_def)
    also have "\<dots> = Some (sorted_wrt (<) (intset_elems is))"
      using intsetValidate_scan_correct [OF shape, of 1 "is_length is - 1"] ok by simp
    finally show ?thesis unfolding ex using shape ok by (simp add: intset_ok_def)
  qed
qed

subsection \<open>The integer-set interface\<close>

text \<open>
  What the set commands rely on: an implementation with an invariant, an ascending list of its
  members, and operations that succeed while the set stays within a capacity. The environment
  parameter is the allocator of the implementation.
\<close>

locale int_set =
  fixes env :: "'e \<Rightarrow> bool" and invar :: "'s \<Rightarrow> bool" and elems :: "'s \<Rightarrow> int list" and cap :: nat
    and new :: "'e \<Rightarrow> 's option"
    and add :: "'e \<Rightarrow> 's \<Rightarrow> int \<Rightarrow> ('s \<times> bool) option"
    and remove :: "'e \<Rightarrow> 's \<Rightarrow> int \<Rightarrow> ('s \<times> bool) option"
    and mem :: "'s \<Rightarrow> int \<Rightarrow> bool option"
  assumes ascending: "invar s \<Longrightarrow> sorted_wrt (<) (elems s)"
    and new: "env e \<Longrightarrow> \<exists>s. new e = Some s \<and> invar s \<and> elems s = []"
    and add: "env e \<Longrightarrow> invar s \<Longrightarrow> in_i64 v \<Longrightarrow> length (elems s) < cap \<Longrightarrow>
      \<exists>s'. add e s v = Some (s', v \<notin> set (elems s)) \<and> invar s' \<and>
        set (elems s') = insert v (set (elems s))"
    and remove: "env e \<Longrightarrow> invar s \<Longrightarrow> in_i64 v \<Longrightarrow> length (elems s) \<le> cap \<Longrightarrow>
      \<exists>s'. remove e s v = Some (s', v \<in> set (elems s)) \<and> invar s' \<and>
        set (elems s') = set (elems s) - {v}"
    and mem: "invar s \<Longrightarrow> in_i64 v \<Longrightarrow> mem s v = Some (v \<in> set (elems s))"

text \<open>A client: a sequence of additions and removals, with the flags they report.\<close>

datatype set_cmd = Add (arg: int) | Remove (arg: int)

fun run_cmds :: "('s \<Rightarrow> int \<Rightarrow> ('s \<times> bool) option) \<Rightarrow> ('s \<Rightarrow> int \<Rightarrow> ('s \<times> bool) option) \<Rightarrow>
    's \<Rightarrow> set_cmd list \<Rightarrow> ('s \<times> bool list) option" where
  "run_cmds add rem s [] = Some (s, [])"
| "run_cmds add rem s (c # cs) = do {
     (s, b) \<leftarrow> (case c of Add v \<Rightarrow> add s v | Remove v \<Rightarrow> rem s v);
     (s, bs) \<leftarrow> run_cmds add rem s cs;
     Some (s, b # bs)
   }"

fun spec_cmds :: "int set \<Rightarrow> set_cmd list \<Rightarrow> int set \<times> bool list" where
  "spec_cmds S [] = (S, [])"
| "spec_cmds S (Add v # cs) = (case spec_cmds (insert v S) cs of (T, bs) \<Rightarrow> (T, (v \<notin> S) # bs))"
| "spec_cmds S (Remove v # cs) = (case spec_cmds (S - {v}) cs of (T, bs) \<Rightarrow> (T, (v \<in> S) # bs))"

context int_set
begin

lemma elems_unique: "invar s \<Longrightarrow> elems s = sorted_list_of_set (set (elems s))"
  using ascending by (metis finite_set sorted_list_of_set.idem_if_sorted_distinct strict_sorted_iff)

lemma length_elems: "invar s \<Longrightarrow> length (elems s) = card (set (elems s))"
  using ascending by (metis distinct_card strict_sorted_iff)

lemma run_refines:
  assumes "env e" and "invar s" and "\<forall>c \<in> set cs. in_i64 (arg c)"
    and "length (elems s) + length cs \<le> cap"
  shows "\<exists>s'. run_cmds (add e) (remove e) s cs = Some (s', snd (spec_cmds (set (elems s)) cs)) \<and>
    invar s' \<and> elems s' = sorted_list_of_set (fst (spec_cmds (set (elems s)) cs))"
  using assms(2-)
proof (induction cs arbitrary: s)
  case Nil
  then show ?case using elems_unique by auto
next
  case (Cons c cs)
  note len = length_elems [OF Cons.prems(1)]
  show ?case
  proof (cases c)
    case (Add v)
    then obtain s1 where s1: "add e s v = Some (s1, v \<notin> set (elems s))" "invar s1"
      "set (elems s1) = insert v (set (elems s))"
      using add [OF assms(1) Cons.prems(1), of v] Cons.prems(2,3) by auto
    have "length (elems s1) + length cs \<le> cap"
      using Cons.prems(3) card_insert_le_m1 [of "length (elems s) + 1" "set (elems s)" v]
      by (simp add: length_elems [OF s1(2)] s1(3) len)
    with Cons.IH [OF s1(2)] Cons.prems(2) s1 Add show ?thesis
      by (auto split: prod.splits)
  next
    case (Remove v)
    then obtain s1 where s1: "remove e s v = Some (s1, v \<in> set (elems s))" "invar s1"
      "set (elems s1) = set (elems s) - {v}"
      using remove [OF assms(1) Cons.prems(1), of v] Cons.prems(2,3) by auto
    have "length (elems s1) \<le> length (elems s)"
      by (simp add: length_elems [OF s1(2)] s1(3) len card_Diff1_le)
    with Cons.IH [OF s1(2)] Cons.prems(2,3) s1 Remove show ?thesis
      by (auto split: prod.splits)
  qed
qed

end

text \<open>
  The capacity: with fewer than \<open>2 ^ 29\<close> elements of 8 bytes the byte count of
  \<open>intsetMoveTail\<close> stays below \<open>2 ^ 32\<close>.
\<close>

lemma mult_enc_less:
  assumes "enc_ok e" and "n < 2 ^ 29"
  shows "n * e < 2 ^ 32"
proof -
  have "n * e \<le> n * 8" using enc_okD(4) [OF assms(1)] by simp
  also have "\<dots> < 2 ^ 29 * 8" using assms(2) by simp
  finally show ?thesis by simp
qed

interpretation intset_set: int_set total_al intset_ok intset_elems "2 ^ 29"
  intsetNew intsetAdd intsetRemove intsetFind
proof unfold_locales
  fix s assume "intset_ok s" then show "sorted_wrt (<) (intset_elems s)" by (rule intset_okD)
next
  fix e assume "total_al e" then show "\<exists>s. intsetNew e = Some s \<and> intset_ok s \<and> intset_elems s = []"
    using intsetNew_correct by (simp add: total_al_def)
next
  fix e s v assume a: "total_al e" "intset_ok s" "in_i64 v" "length (intset_elems s) < 2 ^ 29"
  then have "can_grow e s v"
    using mult_enc_less [OF intset_okD(3) [OF a(2)]] by (simp add: can_grow_def total_al_def)
  then show "\<exists>s'. intsetAdd e s v = Some (s', v \<notin> set (intset_elems s)) \<and> intset_ok s' \<and>
      set (intset_elems s') = insert v (set (intset_elems s))"
    using intsetAdd_correct [OF a(2,3)] by metis
next
  fix e s v assume a: "total_al e" "intset_ok s" "in_i64 v" "length (intset_elems s) \<le> 2 ^ 29"
  then have "(is_length s - 1) < 2 ^ 29" by simp
  then have "can_shrink e s"
    using mult_enc_less [OF intset_okD(3) [OF a(2)]] a(1) by (simp add: can_shrink_def total_al_def)
  then show "\<exists>s'. intsetRemove e s v = Some (s', v \<in> set (intset_elems s)) \<and> intset_ok s' \<and>
      set (intset_elems s') = set (intset_elems s) - {v}"
    using intsetRemove_correct [OF a(2,3)] by metis
next
  fix s v assume "intset_ok s" "in_i64 v"
  then show "intsetFind s v = Some (v \<in> set (intset_elems s))" by (rule intsetFind_correct)
qed

subsection \<open>Properties\<close>

text \<open>C15: from a fresh intset, any sequence of at most \<open>2 ^ 29\<close> additions and removals of 64-bit
  integers runs without a fault, reports exactly the flags of the mathematical set, and leaves the
  sorted array of the mathematical result, across all widenings of the encoding.\<close>

theorem intset_commands_refine_sets:
  assumes "total_al al" and "\<forall>c \<in> set cs. in_i64 (arg c)" and "length cs \<le> 2 ^ 29"
  shows "\<exists>is0 is. intsetNew al = Some is0 \<and>
    run_cmds (intsetAdd al) (intsetRemove al) is0 cs = Some (is, snd (spec_cmds {} cs)) \<and>
    intset_ok is \<and> intset_elems is = sorted_list_of_set (fst (spec_cmds {} cs))"
proof -
  obtain is0 where "intsetNew al = Some is0" "intset_ok is0" "intset_elems is0 = []"
    using intset_set.new [OF assms(1)] by blast
  then show ?thesis using intset_set.run_refines [OF assms(1), of is0 cs] assms(2,3) by auto
qed

theorem intset_commands_refine_sets_witness:
  "\<exists>is0 is. intsetNew calm_al = Some is0 \<and>
    run_cmds (intsetAdd calm_al) (intsetRemove calm_al) is0 [Add 5, Add (- 70000), Add 5, Remove 5] =
      Some (is, [True, True, False, True]) \<and> intset_elems is = [- 70000]"
proof -
  let ?cs = "[Add 5, Add (- 70000), Add 5, Remove 5]"
  have "spec_cmds {} ?cs = ({- 70000}, [True, True, False, True])" by auto
  moreover have "\<forall>c \<in> set ?cs. in_i64 (arg c)" and "length ?cs \<le> 2 ^ 29" by (simp_all add: in_i64_iff)
  ultimately show ?thesis
    using intset_commands_refine_sets [OF total_calm_al, of ?cs] by (simp only: fst_conv snd_conv) auto
qed

text \<open>C16: \<open>intsetAdd\<close> on a valid set whose contents have fewer than \<open>2 ^ 32\<close> bytes and which has fewer than
  \<open>2 ^ 31 - 1\<close> elements, with memory for one more: the flag says whether the value is new, the invariant
  is kept, and the value is inserted at its place. Larger contents are beyond the 32-bit byte count of \<open>intsetMoveTail\<close>.\<close>

theorem intsetAdd_inserts:
  assumes "intset_ok is" and "in_i64 v" and "can_grow al is v"
  shows "\<exists>is'. intsetAdd al is v = Some (is', v \<notin> set (intset_elems is)) \<and> intset_ok is' \<and>
    intset_elems is' = sorted_list_of_set (insert v (set (intset_elems is)))"
  using intsetAdd_correct [OF assms] intset_set.elems_unique by metis

definition intset_ex :: intset where
  "intset_ex = \<lparr>is_encoding = 2, is_length = 2, is_contents = [5, 0, 7, 0]\<rparr>"

lemma intset_ex_get: "intsetGet_at intset_ex (int 0) = Some 5" "intsetGet_at intset_ex (int 1) = Some 7"
  by (simp_all add: intsetGet_at_def intsetGetEncoded_def intset_ex_def enc_width_def enc_defs rdn_def
      load_signed_def le_simps signed_take_bit_int_eq_self)

lemma intset_ex: "intset_ok intset_ex \<and> intset_elems intset_ex = [5, 7]"
proof (rule intset_okI)
  fix i assume "i < length [5, 7 :: int]"
  then have "i = 0 \<or> i = 1" by auto
  then show "intsetGet_at intset_ex (int i) = Some ([5, 7] ! i)" using intset_ex_get by auto
qed (simp_all add: intset_ex_def enc_ok_def enc_defs)

theorem intsetAdd_inserts_witness:
  "\<exists>is'. intsetAdd calm_al intset_ex 6 = Some (is', True) \<and> intset_ok is' \<and> intset_elems is' = [5, 6, 7]"
  using intsetAdd_inserts [of intset_ex 6 calm_al] intset_ex
  by (simp add: can_grow_def calm_al_def in_i64_iff intset_ex_def insert_commute)

text \<open>C17: \<open>intsetRemove\<close> on a valid set whose contents without one element have fewer than \<open>2 ^ 32\<close> bytes, with memory
  for them: the flag says whether the value was there, the invariant is kept, and exactly the value is removed.\<close>

theorem intsetRemove_deletes:
  assumes "intset_ok is" and "in_i64 v" and "can_shrink al is"
  shows "\<exists>is'. intsetRemove al is v = Some (is', v \<in> set (intset_elems is)) \<and> intset_ok is' \<and>
    intset_elems is' = sorted_list_of_set (set (intset_elems is) - {v})"
  using intsetRemove_correct [OF assms] intset_set.elems_unique by metis

theorem intsetRemove_deletes_witness:
  "\<exists>is'. intsetRemove calm_al intset_ex 5 = Some (is', True) \<and> intset_ok is' \<and> intset_elems is' = [7]"
  using intsetRemove_deletes [of intset_ex 5 calm_al] intset_ex
  by (simp add: can_shrink_def calm_al_def in_i64_iff intset_ex_def)

text \<open>C18: the binary search terminates without a fault and returns the position of the value, or the
  position that separates the smaller from the larger elements.\<close>

theorem intsetSearch_positions:
  assumes "intset_ok is"
  shows "\<exists>pos. intsetSearch is v = Some (v \<in> set (intset_elems is), pos) \<and>
    (if v \<in> set (intset_elems is) then pos < is_length is \<and> intset_elems is ! pos = v
     else pos \<le> is_length is \<and> (\<forall>x \<in> set (take pos (intset_elems is)). x < v) \<and>
          (\<forall>x \<in> set (drop pos (intset_elems is)). v < x))"
proof -
  obtain found pos where s: "intsetSearch is v = Some (found, pos)" "search_result is v found pos"
    by (rule intsetSearch_correct [OF assms])
  then show ?thesis
    using search_result_found [OF s(2)] by (cases found) (auto simp: search_result_def)
qed

theorem intsetSearch_positions_witness:
  "\<exists>pos. intsetSearch intset_ex 7 = Some (True, pos) \<and> [5, 7 :: int] ! pos = 7"
  using intsetSearch_positions [of intset_ex 7] intset_ex by auto

text \<open>C19: deep validation of a byte string whose contents after the header have less than 4 GiB reads inside it
  only and accepts exactly the encodings of valid non-empty sets. With more bytes there can be \<open>2 ^ 31\<close> elements, whose
  indices do not fit the \<^verbatim>\<open>int\<close> of \<open>intsetGet_at\<close>.\<close>

theorem intsetValidateIntegrity_exact:
  assumes "length p < 2 ^ 32 + sizeof_intset"
  shows "intsetValidateIntegrity p (length p) True =
    Some (\<exists>is. p = intset_block is \<and> intset_ok is \<and> intset_elems is \<noteq> [])"
  using assms by (rule intsetValidateIntegrity_deep)

theorem intsetValidateIntegrity_exact_witness:
  "intsetValidateIntegrity [2, 0, 0, 0, 2, 0, 0, 0, 5, 0, 7, 0] 12 True = Some True"
proof -
  let ?p = "[2, 0, 0, 0, 2, 0, 0, 0, 5, 0, 7, 0] :: mem"
  have "?p = intset_block intset_ex"
    by (simp add: intset_block_def intset_ex_def store_le_4)
  then have "\<exists>is. ?p = intset_block is \<and> intset_ok is \<and> intset_elems is \<noteq> []"
    using intset_ex by (intro exI [of _ intset_ex]) simp
  moreover have "length ?p < 2 ^ 32 + sizeof_intset" and "length ?p = 12" by simp_all
  ultimately show ?thesis using intsetValidateIntegrity_exact [of ?p] by (simp only:)
qed

text \<open>The byte count of \<open>intsetMoveTail\<close> is 32 bits wide: with \<open>2 ^ 29\<close> 64-bit elements, opening a
  hole at the front moves nothing, so the following store overwrites the smallest element.\<close>

lemma intsetMoveTail_count_wraps:
  assumes "is_encoding is = INTSET_ENC_INT64" and "is_length is = 2 ^ 29" and "8 \<le> length (is_contents is)"
  shows "intsetMoveTail is 0 1 = Some is"
  using assms by (simp add: intsetMoveTail_def enc_width_def memmove_def rdn_def wr_def Let_def)

lemma intsetMoveTail_count_wraps_witness:
  "\<exists>c. length c = 2 ^ 32 + 8 \<and>
    intsetMoveTail \<lparr>is_encoding = 8, is_length = 2 ^ 29, is_contents = c\<rparr> 0 1 =
      Some \<lparr>is_encoding = 8, is_length = 2 ^ 29, is_contents = c\<rparr>"
proof -
  obtain c :: mem where c: "length c = 2 ^ 32 + 8" using Ex_list_of_length by blast
  have "intsetMoveTail \<lparr>is_encoding = 8, is_length = 2 ^ 29, is_contents = c\<rparr> 0 1 =
      Some \<lparr>is_encoding = 8, is_length = 2 ^ 29, is_contents = c\<rparr>"
    by (rule intsetMoveTail_count_wraps) (simp_all add: enc_defs c)
  with c show ?thesis by blast
qed

end
