(* ===== verification/Redis_Listpack_Enc.thy ===== *)
theory Redis_Listpack_Enc
  imports Redis_Util
begin

text \<open>
  The entry encodings of \<^verbatim>\<open>src/listpack.c\<close>: integers of 7, 13, 16, 24, 32 and 64 bits, strings
  with a 6, 12 or 32-bit length, the reverse-readable length field that follows each entry, and the
  functions that read an entry at an offset of the block.

  A listpack is a block of memory and a pointer into it is an offset. A function that stores into
  a caller's buffer and returns the number of bytes gives the list of the bytes it stores.
\<close>

subsection \<open>Encoding bytes\<close>

definition LP_HDR_SIZE :: nat where "LP_HDR_SIZE = 6"
definition LP_HDR_NUMELE_UNKNOWN :: nat where "LP_HDR_NUMELE_UNKNOWN = 2 ^ 16 - 1"
definition LP_EOF :: byte where "LP_EOF = 0xFF"
definition LP_INTBUF_SIZE :: nat where "LP_INTBUF_SIZE = 21"

definition LP_ENCODING_IS_7BIT_UINT :: "byte \<Rightarrow> bool" where
  "LP_ENCODING_IS_7BIT_UINT b \<longleftrightarrow> b AND 0x80 = 0"
definition LP_ENCODING_IS_6BIT_STR :: "byte \<Rightarrow> bool" where
  "LP_ENCODING_IS_6BIT_STR b \<longleftrightarrow> b AND 0xC0 = 0x80"
definition LP_ENCODING_IS_13BIT_INT :: "byte \<Rightarrow> bool" where
  "LP_ENCODING_IS_13BIT_INT b \<longleftrightarrow> b AND 0xE0 = 0xC0"
definition LP_ENCODING_IS_12BIT_STR :: "byte \<Rightarrow> bool" where
  "LP_ENCODING_IS_12BIT_STR b \<longleftrightarrow> b AND 0xF0 = 0xE0"
definition LP_ENCODING_IS_16BIT_INT :: "byte \<Rightarrow> bool" where
  "LP_ENCODING_IS_16BIT_INT b \<longleftrightarrow> b AND 0xFF = 0xF1"
definition LP_ENCODING_IS_24BIT_INT :: "byte \<Rightarrow> bool" where
  "LP_ENCODING_IS_24BIT_INT b \<longleftrightarrow> b AND 0xFF = 0xF2"
definition LP_ENCODING_IS_32BIT_INT :: "byte \<Rightarrow> bool" where
  "LP_ENCODING_IS_32BIT_INT b \<longleftrightarrow> b AND 0xFF = 0xF3"
definition LP_ENCODING_IS_64BIT_INT :: "byte \<Rightarrow> bool" where
  "LP_ENCODING_IS_64BIT_INT b \<longleftrightarrow> b AND 0xFF = 0xF4"
definition LP_ENCODING_IS_32BIT_STR :: "byte \<Rightarrow> bool" where
  "LP_ENCODING_IS_32BIT_STR b \<longleftrightarrow> b AND 0xFF = 0xF0"

definition LP_ENCODING_6BIT_STR_LEN :: "byte \<Rightarrow> nat" where
  "LP_ENCODING_6BIT_STR_LEN b = unat (b AND 0x3F)"
definition LP_ENCODING_12BIT_STR_LEN :: "byte \<Rightarrow> byte \<Rightarrow> nat" where
  "LP_ENCODING_12BIT_STR_LEN b0 b1 = push_bit 8 (unat (b0 AND 0xF)) OR unat b1"

subsection \<open>The header\<close>

definition lpGetTotalBytes :: "mem \<Rightarrow> nat option" where
  "lpGetTotalBytes lp = map_option load_le (rdn lp 0 4)"

definition lpGetNumElements :: "mem \<Rightarrow> nat option" where
  "lpGetNumElements lp = map_option load_le (rdn lp 4 2)"

definition lpSetTotalBytes :: "mem \<Rightarrow> nat \<Rightarrow> mem option" where
  "lpSetTotalBytes lp v = wr lp 0 (store_le 4 v)"

definition lpSetNumElements :: "mem \<Rightarrow> nat \<Rightarrow> mem option" where
  "lpSetNumElements lp v = wr lp 4 (store_le 2 v)"

subsection \<open>Encoders\<close>

fun lpStringToInt64_digits :: "64 word \<Rightarrow> byte list \<Rightarrow> (64 word \<times> byte list) option" where
  "lpStringToInt64_digits v [] = Some (v, [])"
| "lpStringToInt64_digits v (c # p) =
    (if 48 \<le> c \<and> c \<le> 57 then
       (if v > (- 1) div 10 then None
        else let v = v * 10 in
          if v > (- 1) - ucast (c - 48) then None
          else lpStringToInt64_digits (v + ucast (c - 48)) p)
     else Some (v, c # p))"

definition lpStringToInt64 :: "byte list \<Rightarrow> int option" where
  "lpStringToInt64 s =
    (if length s = 0 \<or> length s \<ge> LONG_STR_SIZE then None
     else if length s = 1 \<and> hd s = 48 then Some 0
     else
       (let negative = (hd s = 45); p = (if negative then tl s else s) in
        case p of
          [] \<Rightarrow> None
        | c # p \<Rightarrow>
            if 49 \<le> c \<and> c \<le> 57 then
              (case lpStringToInt64_digits (ucast (c - 48)) p of
                 None \<Rightarrow> None
               | Some (v, rest) \<Rightarrow>
                   if rest \<noteq> [] then None
                   else if negative then
                     (if v > 2 ^ 63 then None else Some (sint (- v)))
                   else
                     (if v > 2 ^ 63 - 1 then None else Some (sint v)))
            else None))"

definition lpEncodeIntegerGetType :: "int \<Rightarrow> byte list" where
  "lpEncodeIntegerGetType v =
    (if 0 \<le> v \<and> v \<le> 127 then [word_of_int v]
     else if - 4096 \<le> v \<and> v \<le> 4095 then
       (let u = nat (if v < 0 then 2 ^ 13 + v else v) in
        [of_nat (drop_bit 8 u OR 0xC0), of_nat (u AND 0xff)])
     else if - 32768 \<le> v \<and> v \<le> 32767 then
       (let u = nat (if v < 0 then 2 ^ 16 + v else v) in
        [0xF1, of_nat (u AND 0xff), of_nat (drop_bit 8 u)])
     else if - 8388608 \<le> v \<and> v \<le> 8388607 then
       (let u = nat (if v < 0 then 2 ^ 24 + v else v) in
        [0xF2, of_nat (u AND 0xff), of_nat (drop_bit 8 u AND 0xff), of_nat (drop_bit 16 u)])
     else if - 2147483648 \<le> v \<and> v \<le> 2147483647 then
       (let u = nat (if v < 0 then 2 ^ 32 + v else v) in
        [0xF3, of_nat (u AND 0xff), of_nat (drop_bit 8 u AND 0xff),
         of_nat (drop_bit 16 u AND 0xff), of_nat (drop_bit 24 u)])
     else
       (let u = nat (v mod 2 ^ 64) in
        [0xF4, of_nat (u AND 0xff), of_nat (drop_bit 8 u AND 0xff),
         of_nat (drop_bit 16 u AND 0xff), of_nat (drop_bit 24 u AND 0xff),
         of_nat (drop_bit 32 u AND 0xff), of_nat (drop_bit 40 u AND 0xff),
         of_nat (drop_bit 48 u AND 0xff), of_nat (drop_bit 56 u)]))"

text \<open>\<open>Inl\<close> is \<^verbatim>\<open>LP_ENCODING_INT\<close> with the contents of \<^verbatim>\<open>intenc\<close>, \<open>Inr\<close> is
  \<^verbatim>\<open>LP_ENCODING_STRING\<close> with the value of \<^verbatim>\<open>*enclen\<close>.\<close>

definition lpEncodeGetType :: "byte list \<Rightarrow> byte list + nat" where
  "lpEncodeGetType ele =
    (case lpStringToInt64 ele of
       Some v \<Rightarrow> Inl (lpEncodeIntegerGetType v)
     | None \<Rightarrow>
         Inr (if length ele < 64 then 1 + length ele
              else if length ele < 4096 then 2 + length ele
              else 5 + length ele))"

definition lpEncodeBacklen :: "nat \<Rightarrow> byte list" where
  "lpEncodeBacklen l =
    (if l \<le> 127 then [of_nat l]
     else if l < 16383 then [of_nat (drop_bit 7 l), of_nat ((l AND 127) OR 128)]
     else if l < 2097151 then
       [of_nat (drop_bit 14 l), of_nat ((drop_bit 7 l AND 127) OR 128), of_nat ((l AND 127) OR 128)]
     else if l < 268435455 then
       [of_nat (drop_bit 21 l), of_nat ((drop_bit 14 l AND 127) OR 128),
        of_nat ((drop_bit 7 l AND 127) OR 128), of_nat ((l AND 127) OR 128)]
     else
       [of_nat (drop_bit 28 l), of_nat ((drop_bit 21 l AND 127) OR 128),
        of_nat ((drop_bit 14 l AND 127) OR 128), of_nat ((drop_bit 7 l AND 127) OR 128),
        of_nat ((l AND 127) OR 128)])"

text \<open>The call with a \<^verbatim>\<open>NULL\<close> buffer: only the number of bytes.\<close>

definition lpEncodeBacklen_size :: "nat \<Rightarrow> nat" where
  "lpEncodeBacklen_size l =
    (if l \<le> 127 then 1 else if l < 16383 then 2 else if l < 2097151 then 3
     else if l < 268435455 then 4 else 5)"

definition lpEncodeString :: "mem \<Rightarrow> nat \<Rightarrow> byte list \<Rightarrow> mem option" where
  "lpEncodeString m buf s =
    (let len = length s in
     if len < 64 then do {
       m \<leftarrow> wr m buf [of_nat (len OR 0x80)];
       wr m (buf + 1) s
     } else if len < 4096 then do {
       m \<leftarrow> wr m buf [of_nat (drop_bit 8 len OR 0xE0), of_nat (len AND 0xff)];
       wr m (buf + 2) s
     } else do {
       m \<leftarrow> wr m buf [0xF0, of_nat (len AND 0xff), of_nat (drop_bit 8 len AND 0xff),
              of_nat (drop_bit 16 len AND 0xff), of_nat (drop_bit 24 len AND 0xff)];
       wr m (buf + 5) s
     })"

subsection \<open>Decoders\<close>

text \<open>The loop of \<open>lpDecodeBacklen\<close> walks towards lower addresses.\<close>

function lpDecodeBacklen_loop :: "mem \<Rightarrow> int \<Rightarrow> nat \<Rightarrow> nat \<Rightarrow> nat option" where
  "lpDecodeBacklen_loop m p val shift =
    (if p < 0 then None
     else case rd m (nat p) of
       None \<Rightarrow> None
     | Some b \<Rightarrow>
         (let val = val OR push_bit shift (unat (b AND 127)) in
          if b AND 128 = 0 then Some val
          else if shift + 7 > 28 then Some (2 ^ 64 - 1)
          else lpDecodeBacklen_loop m (p - 1) val (shift + 7)))"
  by pat_completeness auto

termination lpDecodeBacklen_loop
  by (relation "measure (\<lambda>(m, p, val, shift). 35 - shift)") auto

definition lpDecodeBacklen :: "mem \<Rightarrow> int \<Rightarrow> nat option" where
  "lpDecodeBacklen m p = lpDecodeBacklen_loop m p 0 0"

definition lpCurrentEncodedSizeUnsafe :: "mem \<Rightarrow> nat \<Rightarrow> nat option" where
  "lpCurrentEncodedSizeUnsafe m p = do {
     b \<leftarrow> rd m p;
     if LP_ENCODING_IS_7BIT_UINT b then Some 1
     else if LP_ENCODING_IS_6BIT_STR b then Some (1 + LP_ENCODING_6BIT_STR_LEN b)
     else if LP_ENCODING_IS_13BIT_INT b then Some 2
     else if LP_ENCODING_IS_16BIT_INT b then Some 3
     else if LP_ENCODING_IS_24BIT_INT b then Some 4
     else if LP_ENCODING_IS_32BIT_INT b then Some 5
     else if LP_ENCODING_IS_64BIT_INT b then Some 9
     else if LP_ENCODING_IS_12BIT_STR b then do {
       b1 \<leftarrow> rd m (p + 1);
       Some (2 + LP_ENCODING_12BIT_STR_LEN b b1)
     }
     else if LP_ENCODING_IS_32BIT_STR b then do {
       bs \<leftarrow> rdn m (p + 1) 4;
       Some ((5 + load_le bs) mod 2 ^ 32)
     }
     else if b = LP_EOF then Some 1
     else Some 0
   }"

definition lpCurrentEncodedSizeBytes :: "mem \<Rightarrow> nat \<Rightarrow> nat option" where
  "lpCurrentEncodedSizeBytes m p = do {
     b \<leftarrow> rd m p;
     if LP_ENCODING_IS_7BIT_UINT b then Some 1
     else if LP_ENCODING_IS_6BIT_STR b then Some 1
     else if LP_ENCODING_IS_13BIT_INT b then Some 1
     else if LP_ENCODING_IS_16BIT_INT b then Some 1
     else if LP_ENCODING_IS_24BIT_INT b then Some 1
     else if LP_ENCODING_IS_32BIT_INT b then Some 1
     else if LP_ENCODING_IS_64BIT_INT b then Some 1
     else if LP_ENCODING_IS_12BIT_STR b then Some 2
     else if LP_ENCODING_IS_32BIT_STR b then Some 5
     else if b = LP_EOF then Some 1
     else Some 0
   }"

text \<open>
  What \<open>lpGetWithSize\<close> returns: \<^verbatim>\<open>NULL\<close>, a pointer into the listpack, or the caller's \<^verbatim>\<open>intbuf\<close>
  (with its new contents). The pair also has \<^verbatim>\<open>*count\<close>.
\<close>

datatype lp_ptr = PNull | PLp nat | PBuf mem

text \<open>The last step for integers: \<^verbatim>\<open>uval\<close> to a signed value, and printing when \<^verbatim>\<open>intbuf\<close> is given.\<close>

definition lpGet_int :: "nat \<Rightarrow> nat \<Rightarrow> nat \<Rightarrow> mem option \<Rightarrow> (lp_ptr \<times> int) option" where
  "lpGet_int uval negstart negmax intbuf =
    (let val = (if uval \<ge> negstart then - int (negmax - uval) - 1 else int uval) in
     case intbuf of
       Some buf \<Rightarrow> do {
         (buf, n) \<leftarrow> ll2string buf 0 LP_INTBUF_SIZE val;
         Some (PBuf buf, int n)
       }
     | None \<Rightarrow> Some (PNull, val))"

text \<open>The third component is \<^verbatim>\<open>*entry_size\<close>; an unknown encoding leaves it as it was (\<open>None\<close>).\<close>

definition lpGetWithSize :: "mem \<Rightarrow> nat \<Rightarrow> mem option \<Rightarrow> (lp_ptr \<times> int \<times> nat option) option" where
  "lpGetWithSize m p intbuf = do {
     b \<leftarrow> rd m p;
     if LP_ENCODING_IS_7BIT_UINT b then do {
       (r, c) \<leftarrow> lpGet_int (unat (b AND 0x7f)) (2 ^ 64 - 1) 0 intbuf;
       Some (r, c, Some 2)
     }
     else if LP_ENCODING_IS_6BIT_STR b then
       (let count = LP_ENCODING_6BIT_STR_LEN b in
        Some (PLp (p + 1), int count, Some (1 + count + lpEncodeBacklen_size (count + 1))))
     else if LP_ENCODING_IS_13BIT_INT b then do {
       b1 \<leftarrow> rd m (p + 1);
       (r, c) \<leftarrow> lpGet_int (push_bit 8 (unat (b AND 0x1f)) OR unat b1) (2 ^ 12) 8191 intbuf;
       Some (r, c, Some 3)
     }
     else if LP_ENCODING_IS_16BIT_INT b then do {
       bs \<leftarrow> rdn m (p + 1) 2;
       (r, c) \<leftarrow> lpGet_int (load_le bs) (2 ^ 15) (2 ^ 16 - 1) intbuf;
       Some (r, c, Some 4)
     }
     else if LP_ENCODING_IS_24BIT_INT b then do {
       bs \<leftarrow> rdn m (p + 1) 3;
       (r, c) \<leftarrow> lpGet_int (load_le bs) (2 ^ 23) (2 ^ 24 - 1) intbuf;
       Some (r, c, Some 5)
     }
     else if LP_ENCODING_IS_32BIT_INT b then do {
       bs \<leftarrow> rdn m (p + 1) 4;
       (r, c) \<leftarrow> lpGet_int (load_le bs) (2 ^ 31) (2 ^ 32 - 1) intbuf;
       Some (r, c, Some 6)
     }
     else if LP_ENCODING_IS_64BIT_INT b then do {
       bs \<leftarrow> rdn m (p + 1) 8;
       (r, c) \<leftarrow> lpGet_int (load_le bs) (2 ^ 63) (2 ^ 64 - 1) intbuf;
       Some (r, c, Some 10)
     }
     else if LP_ENCODING_IS_12BIT_STR b then do {
       b1 \<leftarrow> rd m (p + 1);
       let count = LP_ENCODING_12BIT_STR_LEN b b1;
       Some (PLp (p + 2), int count, Some (2 + count + lpEncodeBacklen_size (count + 2)))
     }
     else if LP_ENCODING_IS_32BIT_STR b then do {
       bs \<leftarrow> rdn m (p + 1) 4;
       let count = load_le bs;
       Some (PLp (p + 5), int count, Some (5 + count + lpEncodeBacklen_size (count + 5)))
     }
     else do {
       (r, c) \<leftarrow> lpGet_int (12345678900000000 + unat b) (2 ^ 64 - 1) 0 intbuf;
       Some (r, c, None)
     }
   }"

definition lpGet :: "mem \<Rightarrow> nat \<Rightarrow> mem option \<Rightarrow> (lp_ptr \<times> int) option" where
  "lpGet m p intbuf = map_option (\<lambda>(r, c, e). (r, c)) (lpGetWithSize m p intbuf)"

text \<open>\<open>Inl\<close> is the integer in \<^verbatim>\<open>*lval\<close>, \<open>Inr\<close> the returned pointer and \<^verbatim>\<open>*slen\<close>
  (an \<^verbatim>\<open>unsigned int\<close>).\<close>

definition lpGetValue :: "mem \<Rightarrow> nat \<Rightarrow> (int + nat \<times> nat) option" where
  "lpGetValue m p =
    (case lpGet m p None of
       None \<Rightarrow> None
     | Some (PLp q, n) \<Rightarrow> Some (Inr (q, nat (n mod 2 ^ 32)))
     | Some (_, n) \<Rightarrow> Some (Inl n))"

subsection \<open>Facts about the encoding bytes\<close>

lemmas lp_is_defs = LP_ENCODING_IS_7BIT_UINT_def LP_ENCODING_IS_6BIT_STR_def LP_ENCODING_IS_13BIT_INT_def
  LP_ENCODING_IS_12BIT_STR_def LP_ENCODING_IS_16BIT_INT_def LP_ENCODING_IS_24BIT_INT_def
  LP_ENCODING_IS_32BIT_INT_def LP_ENCODING_IS_64BIT_INT_def LP_ENCODING_IS_32BIT_STR_def

lemma lp_class:
  "LP_ENCODING_IS_7BIT_UINT b \<longleftrightarrow> unat b < 128" "LP_ENCODING_IS_6BIT_STR b \<longleftrightarrow> unat b div 64 = 2"
  "LP_ENCODING_IS_13BIT_INT b \<longleftrightarrow> unat b div 32 = 6" "LP_ENCODING_IS_12BIT_STR b \<longleftrightarrow> unat b div 16 = 14"
  by (simp_all add: lp_is_defs word_unat_eq_iff byte_masks) (simp add: div_eq_0_iff)

lemma lp_tags:
  "LP_ENCODING_IS_16BIT_INT b \<longleftrightarrow> b = 0xF1" "LP_ENCODING_IS_24BIT_INT b \<longleftrightarrow> b = 0xF2"
  "LP_ENCODING_IS_32BIT_INT b \<longleftrightarrow> b = 0xF3" "LP_ENCODING_IS_64BIT_INT b \<longleftrightarrow> b = 0xF4"
  "LP_ENCODING_IS_32BIT_STR b \<longleftrightarrow> b = 0xF0"
  by (simp_all add: lp_is_defs word_unat_eq_iff byte_masks)

lemma lp_continues: "b AND 128 = 0 \<longleftrightarrow> unat b < 128" for b :: byte
  using lp_class(1) [of b] by (simp add: lp_is_defs)

lemma lp_12bit_len: "LP_ENCODING_12BIT_STR_LEN b0 b1 = 256 * (unat b0 mod 16) + unat b1"
  using or_push_bit_nat [of "unat b1" 8 "unat b0 mod 16"] unat_byte [of b1]
  by (simp add: LP_ENCODING_12BIT_STR_LEN_def byte_masks or.commute)

subsection \<open>The format\<close>

text \<open>
  The entry format by itself: which byte strings are the body of an entry, and the integer
  (\<open>Inl\<close>) or string (\<open>Inr\<close>) they stand for.
\<close>

inductive lp_entry :: "byte list \<Rightarrow> int + byte list \<Rightarrow> bool" where
  int7: "unat b = u \<Longrightarrow> u < 128 \<Longrightarrow> lp_entry [b] (Inl (int u))"
| str6: "unat b = 128 + length s \<Longrightarrow> length s < 64 \<Longrightarrow> lp_entry (b # s) (Inr s)"
| int13: "unat b = 192 + h \<Longrightarrow> h < 32 \<Longrightarrow> u = 256 * h + unat c \<Longrightarrow>
     lp_entry [b, c] (Inl (if u \<ge> 4096 then int u - 8192 else int u))"
| int16: "length r = 2 \<Longrightarrow> lp_entry (0xF1 # r) (Inl (load_signed r))"
| int24: "length r = 3 \<Longrightarrow> lp_entry (0xF2 # r) (Inl (load_signed r))"
| int32: "length r = 4 \<Longrightarrow> lp_entry (0xF3 # r) (Inl (load_signed r))"
| int64: "length r = 8 \<Longrightarrow> lp_entry (0xF4 # r) (Inl (load_signed r))"
| str12: "unat b = 224 + h \<Longrightarrow> h < 16 \<Longrightarrow> length s = 256 * h + unat c \<Longrightarrow>
     lp_entry (b # c # s) (Inr s)"
| str32: "length r = 4 \<Longrightarrow> load_le r = length s \<Longrightarrow> 5 + length s < 2 ^ 32 \<Longrightarrow>
     lp_entry (0xF0 # r @ s) (Inr s)"

lemma rd_inside: "rd bs i = Some b \<Longrightarrow> rd (pre @ bs @ post) (length pre + i) = Some b"
  by (auto simp: rd_def nth_append split: if_splits)

lemma rdn_inside: "rdn bs i n = Some x \<Longrightarrow> rdn (pre @ bs @ post) (length pre + i) n = Some x"
  by (auto simp: rdn_def split: if_splits)

lemma unat_of_nat_byte: "unat (of_nat n :: byte) = n mod 256"
  by (simp add: unat_of_nat)

lemma signed_take_bit_high:
  fixes k :: int
  assumes "2 ^ n \<le> k" and "k < 2 ^ Suc n"
  shows "signed_take_bit n k = k - 2 ^ Suc n"
proof -
  have "k + 2 ^ n = (k - 2 ^ n) + 2 ^ Suc n" by simp
  then have "(k + 2 ^ n) mod 2 ^ Suc n = (k - 2 ^ n) mod 2 ^ Suc n" by (metis mod_add_self2)
  also have "\<dots> = k - 2 ^ n" using assms by (intro mod_pos_pos_trivial) auto
  finally show ?thesis by (simp add: signed_take_bit_eq_take_bit_shift take_bit_eq_mod)
qed

lemma load_signed_eq:
  assumes "bs \<noteq> []"
  shows "load_signed bs = (if load_le bs \<ge> 2 ^ (8 * length bs - 1)
    then - int ((2 ^ (8 * length bs) - 1) - load_le bs) - 1 else int (load_le bs))"
proof -
  let ?u = "load_le bs"
  obtain n where n: "8 * length bs = Suc n" using assms by (cases bs) auto
  have "(256 :: nat) ^ length bs = 2 ^ (8 * length bs)" by (simp add: power_mult)
  then have "?u < 2 ^ (8 * length bs)" using load_le_less [of bs] by simp
  then have u: "?u < 2 ^ Suc n" by (simp only: n)
  have "signed_take_bit n (int ?u) = (if ?u \<ge> 2 ^ n then - int ((2 ^ Suc n - 1) - ?u) - 1 else int ?u)"
  proof (cases "?u \<ge> 2 ^ n")
    case True
    have "signed_take_bit n (int ?u) = int ?u - 2 ^ Suc n"
    proof (rule signed_take_bit_high)
      have "int (2 ^ n) \<le> int ?u" using True by (simp only: of_nat_le_iff)
      then show "2 ^ n \<le> int ?u" by (simp only: of_nat_power of_nat_numeral)
      have "int ?u < int (2 ^ Suc n)" using u by (simp only: of_nat_less_iff)
      then show "int ?u < 2 ^ Suc n" by (simp only: of_nat_power of_nat_numeral)
    qed
    moreover have "int ((2 ^ Suc n - 1) - ?u) = 2 ^ Suc n - 1 - int ?u"
      using u by (simp add: of_nat_diff)
    ultimately show ?thesis using True by (simp only: if_True)
  next
    case False
    then have "int ?u < int (2 ^ n)" by (simp only: of_nat_less_iff not_le)
    then have "int ?u < 2 ^ n" by (simp only: of_nat_power of_nat_numeral)
    then have "signed_take_bit n (int ?u) = int ?u"
      by (intro signed_take_bit_int_eq_self) (auto intro: order_trans [of _ 0])
    with False show ?thesis by simp
  qed
  then show ?thesis by (simp only: load_signed_def n diff_Suc_1)
qed

subsection \<open>The readers on well-formed entries\<close>

text \<open>\<open>lp_at m p bs\<close>: the bytes \<open>bs\<close> lie at offset \<open>p\<close>.\<close>

definition lp_at :: "mem \<Rightarrow> nat \<Rightarrow> byte list \<Rightarrow> bool" where
  "lp_at m p bs \<longleftrightarrow> rdn m p (length bs) = Some bs"

lemma lp_atI: "p = length pre \<Longrightarrow> lp_at (pre @ bs @ post) p bs"
  by (simp add: lp_at_def rdn_def)

lemma lp_atE:
  assumes "lp_at m p bs"
  obtains pre post where "m = pre @ bs @ post" and "length pre = p"
proof -
  from assms have le: "p + length bs \<le> length m" and bs: "take (length bs) (drop p m) = bs"
    by (auto simp: lp_at_def rdn_def split: if_splits)
  have "m = take p m @ bs @ drop (length bs) (drop p m)"
    using bs by (metis append_take_drop_id)
  with le show thesis by (intro that) auto
qed

lemma lp_at_rd: "lp_at m p (b # bs) \<Longrightarrow> rd m p = Some b"
  by (erule lp_atE) (auto simp: rd_def)

lemma lp_at_rd1: "lp_at m p (b # c # bs) \<Longrightarrow> rd m (Suc p) = Some c"
  by (erule lp_atE) (auto simp: rd_def nth_append)

lemma lp_at_rdn: "lp_at m p (b # cs @ bs) \<Longrightarrow> n = length cs \<Longrightarrow> rdn m (Suc p) n = Some cs"
  by (erule lp_atE) (auto simp: rdn_def)

lemmas lp_at_rdn0 = lp_at_rdn [of _ _ _ _ "[]", unfolded append_Nil2]

lemma lp_at_append1: "lp_at m p (xs @ ys) \<Longrightarrow> lp_at m p xs"
  by (erule lp_atE) (auto simp: lp_at_def rdn_def)

lemma lp_at_append2: "lp_at m p (xs @ ys) \<Longrightarrow> lp_at m (p + length xs) ys"
  by (erule lp_atE) (auto simp: lp_at_def rdn_def)

lemma lp_class_arith:
  "n < 64 \<Longrightarrow> (128 + n) mod 64 = n" "n < 32 \<Longrightarrow> (192 + n) mod 32 = n" "n < 16 \<Longrightarrow> (224 + n) mod 16 = n" for n :: nat
  by (subst mod_add_left_eq [symmetric]; simp)+

lemma lp_class_str6:
  assumes "unat b = 128 + n" and "n < 64"
  shows "\<not> LP_ENCODING_IS_7BIT_UINT b" and "LP_ENCODING_IS_6BIT_STR b" and "LP_ENCODING_6BIT_STR_LEN b = n"
  using assms by (simp_all add: lp_class LP_ENCODING_6BIT_STR_LEN_def byte_masks lp_class_arith)

lemma lp_class_int13:
  assumes "unat b = 192 + h" and "h < 32"
  shows "\<not> LP_ENCODING_IS_7BIT_UINT b" and "\<not> LP_ENCODING_IS_6BIT_STR b" and "LP_ENCODING_IS_13BIT_INT b"
    and "unat (b AND 0x1f) = h"
  using assms by (simp_all add: lp_class byte_masks lp_class_arith)

lemma lp_class_str12:
  assumes "unat b = 224 + h" and "h < 16"
  shows "\<not> LP_ENCODING_IS_7BIT_UINT b" and "\<not> LP_ENCODING_IS_6BIT_STR b" and "\<not> LP_ENCODING_IS_13BIT_INT b"
    and "\<not> LP_ENCODING_IS_16BIT_INT b" and "\<not> LP_ENCODING_IS_24BIT_INT b" and "\<not> LP_ENCODING_IS_32BIT_INT b"
    and "\<not> LP_ENCODING_IS_64BIT_INT b" and "LP_ENCODING_IS_12BIT_STR b"
    and "LP_ENCODING_12BIT_STR_LEN b c = 256 * h + unat c"
  using assms by (auto simp: lp_class lp_tags lp_12bit_len lp_class_arith)

lemma lp_class_tag:
  assumes "b \<in> {0xF0, 0xF1, 0xF2, 0xF3, 0xF4}"
  shows "\<not> LP_ENCODING_IS_7BIT_UINT b" and "\<not> LP_ENCODING_IS_6BIT_STR b" and "\<not> LP_ENCODING_IS_13BIT_INT b"
    and "\<not> LP_ENCODING_IS_12BIT_STR b"
  using assms by (auto simp: lp_class)

lemma lp_entry_length: assumes "lp_entry bs v" shows "0 < length bs \<and> length bs < 4294967296"
  using assms
proof (cases rule: lp_entry.cases)
  case (str12 b h s c)
  then show ?thesis using unat_byte [of c] by simp
qed auto

lemma lp_entry_not_EOF: assumes "lp_entry bs v" shows "hd bs \<noteq> LP_EOF"
  using assms by (cases rule: lp_entry.cases) (auto simp: LP_EOF_def word_unat_eq_iff)

lemma lp_at_reads:
  assumes "lp_at m p bs"
  shows "0 < length bs \<Longrightarrow> rd m p = Some (hd bs)"
    and "1 < length bs \<Longrightarrow> rd m (Suc p) = Some (bs ! 1)"
    and "n < length bs \<Longrightarrow> rdn m (Suc p) n = Some (take n (tl bs))"
proof -
  obtain pre post where m: "m = pre @ bs @ post" "length pre = p" using assms by (rule lp_atE)
  show "0 < length bs \<Longrightarrow> rd m p = Some (hd bs)" and "1 < length bs \<Longrightarrow> rd m (Suc p) = Some (bs ! 1)"
    and "n < length bs \<Longrightarrow> rdn m (Suc p) n = Some (take n (tl bs))"
    using m by (cases bs; auto simp: rd_def rdn_def nth_append)+
qed

text \<open>The three readers of an encoding byte, on the body of an entry.\<close>

lemmas lp_class_simps = lp_class(1) lp_class_str6 lp_class_int13 lp_class_str12

lemma lp_entry_size:
  assumes "lp_entry bs v" and "lp_at m p bs"
  shows "lpCurrentEncodedSizeUnsafe m p = Some (length bs)"
proof -
  note reads = lpCurrentEncodedSizeUnsafe_def lp_at_reads [OF assms(2)]
  from assms(1) show ?thesis
  proof (cases rule: lp_entry.cases)
    case (str12 b h s c)
    then show ?thesis by (simp add: reads lp_class_simps)
  qed (simp_all add: reads lp_class(1) lp_class_str6 lp_class_int13 lp_class_tag lp_tags)
qed

lemma lp_entry_size_bytes:
  assumes "lp_entry bs v" and "lp_at m p bs"
  shows "\<exists>n. lpCurrentEncodedSizeBytes m p = Some n \<and> 0 < n \<and> n \<le> length bs"
proof -
  note reads = lpCurrentEncodedSizeBytes_def lp_at_reads [OF assms(2)]
  from assms(1) show ?thesis
  proof (cases rule: lp_entry.cases)
    case (str12 b h s c)
    then show ?thesis by (simp add: reads lp_class_simps)
  qed (simp_all add: reads lp_class(1) lp_class_str6 lp_class_int13 lp_class_tag lp_tags)
qed

lemma lpGet_int_None: "lpGet_int u ns nm None = Some (PNull, if u \<ge> ns then - int (nm - u) - 1 else int u)"
  by (simp add: lpGet_int_def)

lemma lpGet_int_signed:
  "length r = 2 \<Longrightarrow> lpGet_int (load_le r) (2 ^ 15) (2 ^ 16 - 1) None = Some (PNull, load_signed r)"
  "length r = 3 \<Longrightarrow> lpGet_int (load_le r) (2 ^ 23) (2 ^ 24 - 1) None = Some (PNull, load_signed r)"
  "length r = 4 \<Longrightarrow> lpGet_int (load_le r) (2 ^ 31) (2 ^ 32 - 1) None = Some (PNull, load_signed r)"
  "length r = 8 \<Longrightarrow> lpGet_int (load_le r) (2 ^ 63) (2 ^ 64 - 1) None = Some (PNull, load_signed r)"
  using load_signed_eq [of r] by (force simp: lpGet_int_None)+

lemma lpEncodeBacklen_size_small [simp]: "l \<le> 127 \<Longrightarrow> lpEncodeBacklen_size l = 1"
  by (simp add: lpEncodeBacklen_size_def)

text \<open>An entry read with \<^verbatim>\<open>intbuf\<close> null: integers come back by value, strings by position.\<close>

definition lp_get_result :: "nat \<Rightarrow> byte list \<Rightarrow> int + byte list \<Rightarrow> lp_ptr \<times> int \<times> nat option" where
  "lp_get_result p bs v = (case v of
     Inl i \<Rightarrow> (PNull, i, Some (length bs + lpEncodeBacklen_size (length bs)))
   | Inr s \<Rightarrow> (PLp (p + (length bs - length s)), int (length s),
       Some (length bs + lpEncodeBacklen_size (length bs))))"

lemma lpGetWithSize_entry:
  assumes "lp_entry bs v" and "lp_at m p bs"
  shows "lpGetWithSize m p None = Some (lp_get_result p bs v)"
  using assms(1)
proof (cases rule: lp_entry.cases)
  case (int7 b u)
  then show ?thesis
    by (simp add: lpGetWithSize_def lp_at_reads [OF assms(2)] lp_class(1) byte_masks lpGet_int_None lp_get_result_def)
next
  case (str6 b s)
  then show ?thesis
    by (simp add: lpGetWithSize_def lp_at_reads [OF assms(2)] lp_class_str6 lp_get_result_def Let_def)
next
  case (int13 b h u c)
  have "push_bit 8 h OR unat c = u"
    using or_push_bit_nat [of "unat c" 8 h] unat_byte [of c] int13 by (simp add: or.commute)
  moreover have "u < 8192" using int13 unat_byte [of c] by simp
  ultimately show ?thesis using int13
    by (simp add: lpGetWithSize_def lp_at_reads [OF assms(2)] lp_class_int13 lpGet_int_None lp_get_result_def of_nat_diff)
next
  case (str12 b h s c)
  then show ?thesis
    by (simp add: lpGetWithSize_def lp_at_reads [OF assms(2)] lp_class_str12 lp_get_result_def Let_def)
next
  case (str32 r s)
  then show ?thesis
    by (simp add: lpGetWithSize_def lp_at_reads [OF assms(2)] lp_class_tag lp_tags lp_get_result_def Let_def
        add.commute [of _ 5])
qed (simp_all add: lpGetWithSize_def lp_at_reads [OF assms(2)] lp_class_tag lp_tags lp_get_result_def
    lpGet_int_signed [simplified])

subsection \<open>The encoders produce the format\<close>

lemma and_255: "(u :: nat) AND 255 = u mod 256"
proof -
  have "(255 :: nat) = mask 8" by (simp add: mask_eq_exp_minus_1)
  then have "u AND 255 = take_bit 8 u" by (simp only: take_bit_eq_mask)
  then show ?thesis by (simp add: take_bit_eq_mod)
qed

lemma and_127: "(u :: nat) AND 127 = u mod 128"
proof -
  have "(127 :: nat) = mask 7" by (simp add: mask_eq_exp_minus_1)
  then have "u AND 127 = take_bit 7 u" by (simp only: take_bit_eq_mask)
  then show ?thesis by (simp add: take_bit_eq_mod)
qed

lemma of_nat_mod_byte: "(of_nat (u mod 256) :: byte) = of_nat u"
  by (simp add: word_unat_eq_iff unat_of_nat_byte)

lemma or_const:
  "a < 128 \<Longrightarrow> a OR 128 = a + (128 :: nat)" "a < 64 \<Longrightarrow> a OR 192 = a + (192 :: nat)"
  "a < 32 \<Longrightarrow> a OR 224 = a + (224 :: nat)"
  using or_push_bit_nat [of a 7 1] or_push_bit_nat [of a 6 3] or_push_bit_nat [of a 5 7]
  by (simp_all add: push_bit_eq_mult)

lemma store_le_unfold:
  "store_le 2 u = [of_nat u, of_nat (drop_bit 8 u)]"
  "store_le 3 u = [of_nat u, of_nat (drop_bit 8 u), of_nat (drop_bit 16 u)]"
  "store_le 4 u = [of_nat u, of_nat (drop_bit 8 u), of_nat (drop_bit 16 u), of_nat (drop_bit 24 u)]"
  "store_le 8 u = [of_nat u, of_nat (drop_bit 8 u), of_nat (drop_bit 16 u), of_nat (drop_bit 24 u),
     of_nat (drop_bit 32 u), of_nat (drop_bit 40 u), of_nat (drop_bit 48 u), of_nat (drop_bit 56 u)]"
proof -
  have n: "2 = Suc (Suc 0)" "3 = Suc (Suc (Suc 0))" "4 = Suc (Suc (Suc (Suc 0)))"
    "8 = Suc (Suc (Suc (Suc (Suc (Suc (Suc (Suc 0)))))))" by simp_all
  show "store_le 2 u = [of_nat u, of_nat (drop_bit 8 u)]"
    by (simp only: n(1) store_le.simps)
  show "store_le 3 u = [of_nat u, of_nat (drop_bit 8 u), of_nat (drop_bit 16 u)]"
    by (simp only: n(2) store_le.simps) simp
  show "store_le 4 u = [of_nat u, of_nat (drop_bit 8 u), of_nat (drop_bit 16 u), of_nat (drop_bit 24 u)]"
    by (simp only: n(3) store_le.simps) simp
  show "store_le 8 u = [of_nat u, of_nat (drop_bit 8 u), of_nat (drop_bit 16 u), of_nat (drop_bit 24 u),
     of_nat (drop_bit 32 u), of_nat (drop_bit 40 u), of_nat (drop_bit 48 u), of_nat (drop_bit 56 u)]"
    by (subst n(4), simp only: store_le.simps) simp
qed

lemma take_bit_negative:
  fixes v :: int
  assumes "- (2 ^ n) \<le> v" and "v < 2 ^ n"
  shows "take_bit n v = (if v < 0 then 2 ^ n + v else v)"
  using assms mod_pos_pos_trivial [of "v + 2 ^ n" "2 ^ n"] by (auto simp: take_bit_eq_mod)

lemma take_bit_wrap:
  "- 32768 \<le> v \<Longrightarrow> v \<le> 32767 \<Longrightarrow> (if v < 0 then 2 ^ 16 + v else v) = take_bit 16 v"
  "- 8388608 \<le> v \<Longrightarrow> v \<le> 8388607 \<Longrightarrow> (if v < 0 then 2 ^ 24 + v else v) = take_bit 24 v"
  "- 2147483648 \<le> v \<Longrightarrow> v \<le> 2147483647 \<Longrightarrow> (if v < 0 then 2 ^ 32 + v else v) = take_bit 32 v" for v :: int
  by (subst take_bit_negative; simp)+

lemma lpEncodeInteger_store:
  "lpEncodeIntegerGetType v =
    (if 0 \<le> v \<and> v \<le> 127 then [word_of_int v]
     else if - 4096 \<le> v \<and> v \<le> 4095 then
       (let u = nat (if v < 0 then 2 ^ 13 + v else v) in
        [of_nat (drop_bit 8 u OR 0xC0), of_nat (u AND 0xff)])
     else if - 32768 \<le> v \<and> v \<le> 32767 then 0xF1 # store_signed 2 v
     else if - 8388608 \<le> v \<and> v \<le> 8388607 then 0xF2 # store_signed 3 v
     else if - 2147483648 \<le> v \<and> v \<le> 2147483647 then 0xF3 # store_signed 4 v
     else 0xF4 # store_signed 8 v)"
  unfolding lpEncodeIntegerGetType_def store_signed_def and_255 of_nat_mod_byte
  by (simp add: store_le_unfold take_bit_wrap [simplified] Let_def take_bit_eq_mod [of 64])

lemma lpEncodeInteger_entry:
  assumes "in_i64 v"
  shows "lp_entry (lpEncodeIntegerGetType v) (Inl v)"
proof -
  consider "0 \<le> v \<and> v \<le> 127" | "\<not> (0 \<le> v \<and> v \<le> 127)" "- 4096 \<le> v \<and> v \<le> 4095"
    | "\<not> (- 4096 \<le> v \<and> v \<le> 4095)" by blast
  then show ?thesis
  proof cases
    case 1
    then have "unat (word_of_int v :: byte) = nat v"
      by (simp add: unat_eq_nat_uint uint_word_of_int)
    with 1 lp_entry.int7 [of "word_of_int v" "nat v"] show ?thesis
      by (force simp: lpEncodeInteger_store)
  next
    case 2
    define u where "u = nat (if v < 0 then 2 ^ 13 + v else v)"
    have u: "u < 8192" and v: "v = (if u \<ge> 4096 then int u - 8192 else int u)" using 2 by (auto simp: u_def)
    have h: "drop_bit 8 u < 32" and uu: "u = 256 * drop_bit 8 u + u mod 256" using u by (auto simp: drop_bit_eq_div)
    have e: "lpEncodeIntegerGetType v = [of_nat (drop_bit 8 u OR 0xC0), of_nat (u AND 0xff)]"
      using 2 by (simp add: lpEncodeInteger_store u_def Let_def)
    have entry: "lp_entry [of_nat (drop_bit 8 u OR 0xC0), of_nat (u AND 0xff)] (Inl (if u \<ge> 4096 then int u - 8192 else int u))"
    proof (rule lp_entry.int13 [of _ "drop_bit 8 u"])
      show "unat (of_nat (drop_bit 8 u OR 0xC0) :: byte) = 192 + drop_bit 8 u"
        using h or_const(2) [of "drop_bit 8 u"] by (simp only: unat_of_nat_byte) simp
      show "u = 256 * drop_bit 8 u + unat (of_nat (u AND 0xff) :: byte)"
        using uu by (simp add: and_255 unat_of_nat_byte)
    qed (rule h)
    show ?thesis unfolding e by (subst v) (rule entry)
  next
    case 3
    have "in_signed 16 v \<Longrightarrow> load_signed (store_signed 2 v) = v" "in_signed 24 v \<Longrightarrow> load_signed (store_signed 3 v) = v"
      "in_signed 32 v \<Longrightarrow> load_signed (store_signed 4 v) = v" "load_signed (store_signed 8 v) = v"
      using load_store_signed [of 2 v] load_store_signed [of 3 v] load_store_signed [of 4 v]
        load_store_signed [of 8 v] assms by auto
    with 3 lp_entry.int16 [of "store_signed 2 v"] lp_entry.int24 [of "store_signed 3 v"]
      lp_entry.int32 [of "store_signed 4 v"] lp_entry.int64 [of "store_signed 8 v"] show ?thesis
      by (auto simp: lpEncodeInteger_store in_signed_def)
  qed
qed


text \<open>What \<open>lpEncodeString\<close> stores.\<close>

definition lp_str_bytes :: "byte list \<Rightarrow> byte list" where
  "lp_str_bytes s =
    (let len = length s in
     if len < 64 then of_nat (128 + len) # s
     else if len < 4096 then of_nat (224 + len div 256) # of_nat (len mod 256) # s
     else 0xF0 # store_le 4 len @ s)"

lemma wr_wr:
  assumes "i + length (xs @ ys) \<le> length m"
  shows "do { m \<leftarrow> wr m i xs; wr m (i + length xs) ys } = wr m i (xs @ ys)"
proof -
  obtain pre gap suf where m: "m = pre @ gap @ suf" "length pre = i" "length gap = length (xs @ ys)"
    using assms by (rule block_split)
  obtain g1 g2 where "gap = g1 @ g2" "length g1 = length xs" "length g2 = length ys"
    using m(3) by (metis append_eq_conv_conj append_take_drop_id length_append length_drop add_diff_cancel_left' length_take min.absorb2 le_add1)
  then show ?thesis using m by (simp add: wr_def)
qed

lemma lpEncodeString_wr:
  assumes "buf + length (lp_str_bytes s) \<le> length m"
  shows "lpEncodeString m buf s = wr m buf (lp_str_bytes s)"
proof -
  let ?n = "length s"
  consider "?n < 64" | "64 \<le> ?n" "?n < 4096" | "4096 \<le> ?n" by linarith
  then show ?thesis
  proof cases
    case 1
    then have "of_nat (?n OR 0x80) = (of_nat (128 + ?n) :: byte)" using or_const(1) [of ?n] by (simp add: add.commute)
    with 1 assms wr_wr [of buf "[of_nat (128 + ?n)]" s m] show ?thesis
      by (simp add: lpEncodeString_def lp_str_bytes_def Let_def)
  next
    case 2
    then have "drop_bit 8 ?n < 32" by (simp add: drop_bit_eq_div)
    then have "of_nat (drop_bit 8 ?n OR 0xE0) = (of_nat (224 + ?n div 256) :: byte)"
      using or_const(3) by (simp add: add.commute drop_bit_eq_div)
    with 2 assms wr_wr [of buf "[of_nat (224 + ?n div 256), of_nat (?n mod 256)]" s m] show ?thesis
      by (simp add: lpEncodeString_def lp_str_bytes_def Let_def and_255)
  next
    case 3
    have "[0xF0, of_nat (?n AND 0xff), of_nat (drop_bit 8 ?n AND 0xff), of_nat (drop_bit 16 ?n AND 0xff),
        of_nat (drop_bit 24 ?n AND 0xff)] = (0xF0 # store_le 4 ?n :: byte list)"
      by (simp only: and_255 of_nat_mod_byte store_le_unfold)
    with 3 assms wr_wr [of buf "0xF0 # store_le 4 ?n" s m] show ?thesis
      by (simp add: lpEncodeString_def lp_str_bytes_def Let_def)
  qed
qed

lemma lp_str_entry:
  assumes "5 + length s < 2 ^ 32"
  shows "lp_entry (lp_str_bytes s) (Inr s)"
proof -
  let ?n = "length s"
  consider "?n < 64" | "64 \<le> ?n" "?n < 4096" | "4096 \<le> ?n" by linarith
  then show ?thesis
  proof cases
    case 1
    then show ?thesis
      using lp_entry.str6 [of "of_nat (128 + ?n)" s]
      by (simp add: lp_str_bytes_def Let_def unat_of_nat_byte del: of_nat_add)
  next
    case 2
    then show ?thesis
      using lp_entry.str12 [of "of_nat (224 + ?n div 256)" "?n div 256" s "of_nat (?n mod 256)"]
      by (simp add: lp_str_bytes_def Let_def unat_of_nat_byte less_mult_imp_div_less del: of_nat_add)
  next
    case 3
    then show ?thesis
      using lp_entry.str32 [of "store_le 4 ?n" s] assms by (simp add: lp_str_bytes_def Let_def)
  qed
qed

lemma lpEncodeGetType_len:
  "lpEncodeGetType s = Inr n \<Longrightarrow> n = length (lp_str_bytes s)"
  by (auto simp: lpEncodeGetType_def lp_str_bytes_def Let_def split: option.splits if_splits)


subsection \<open>The length field behind an entry\<close>

lemma length_lpEncodeBacklen [simp]: "length (lpEncodeBacklen l) = lpEncodeBacklen_size l"
  by (simp add: lpEncodeBacklen_def lpEncodeBacklen_size_def)

lemma lpEncodeBacklen_size_bounds: "0 < lpEncodeBacklen_size l" "lpEncodeBacklen_size l \<le> 5"
  by (simp_all add: lpEncodeBacklen_size_def)

declare lpDecodeBacklen_loop.simps [simp del]

lemma lpDecodeBacklen_last:
  assumes "rd m p = Some b" and "unat b < 128" and "val < 2 ^ shift"
  shows "lpDecodeBacklen_loop m (int p) val shift = Some (val + unat b * 2 ^ shift)"
  using assms or_push_bit_nat [OF assms(3), of "unat b"]
  by (simp add: lpDecodeBacklen_loop.simps lp_continues byte_masks Let_def)

lemma lpDecodeBacklen_more:
  assumes "rd m (Suc p) = Some b" and "128 \<le> unat b" and "val < 2 ^ shift" and "shift \<le> 21"
  shows "lpDecodeBacklen_loop m (int (Suc p)) val shift =
    lpDecodeBacklen_loop m (int p) (val + unat b mod 128 * 2 ^ shift) (shift + 7)"
proof -
  have p: "int (Suc p) - 1 = int p" by simp
  from assms or_push_bit_nat [OF assms(3), of "unat b mod 128"] show ?thesis
    by (subst lpDecodeBacklen_loop.simps) (simp add: lp_continues byte_masks Let_def p del: of_nat_Suc)
qed

lemma backlen_byte:
  "unat (of_nat ((x AND 127) OR 128) :: byte) = 128 + x mod 128"
  "128 \<le> unat (of_nat ((x AND 127) OR 128) :: byte)"
  "unat (of_nat ((x AND 127) OR 128) :: byte) mod 128 = x mod 128"
proof -
  have "(x AND 127) OR 128 = x mod 128 + 128" unfolding and_127 by (rule or_const(1)) simp
  then show 1: "unat (of_nat ((x AND 127) OR 128) :: byte) = 128 + x mod 128"
    by (simp only: unat_of_nat_byte) simp
  show "128 \<le> unat (of_nat ((x AND 127) OR 128) :: byte)"
    "unat (of_nat ((x AND 127) OR 128) :: byte) mod 128 = x mod 128"
    unfolding 1 by simp_all
qed

text \<open>One step of the decoder on a continuation byte that holds seven bits of \<open>l\<close>.\<close>

lemma lpDecodeBacklen_bits:
  assumes "rd m (Suc p) = Some (of_nat ((drop_bit s l AND 127) OR 128))" and "s \<le> 21"
  shows "lpDecodeBacklen_loop m (int (Suc p)) (l mod 2 ^ s) s =
    lpDecodeBacklen_loop m (int p) (l mod 2 ^ (s + 7)) (s + 7)"
proof -
  have "l mod 2 ^ s + drop_bit s l mod 128 * 2 ^ s = l mod 2 ^ (s + 7)"
    by (simp add: drop_bit_eq_div power_add mod_mult2_eq mult.commute)
  then show ?thesis
    using lpDecodeBacklen_more [OF assms(1) backlen_byte(2) _ assms(2), of "l mod 2 ^ s"]
    by (simp only: backlen_byte(3)) simp
qed

lemma lpDecodeBacklen_end:
  assumes "rd m p = Some (of_nat (drop_bit s l))" and "drop_bit s l < 128"
  shows "lpDecodeBacklen_loop m (int p) (l mod 2 ^ s) s = Some l"
proof -
  have u: "unat (of_nat (drop_bit s l) :: byte) = drop_bit s l"
    using assms(2) by (simp add: unat_of_nat_byte del: of_nat_drop_bit)
  have "l mod 2 ^ s + drop_bit s l * 2 ^ s = l" by (simp add: drop_bit_eq_div mod_div_mult_eq)
  then show ?thesis
    using lpDecodeBacklen_last [OF assms(1), of "l mod 2 ^ s" s] u assms(2) by simp
qed

lemma lpDecodeBacklen_correct:
  assumes "lp_at m p (lpEncodeBacklen l)" and "l < 2 ^ 35"
  shows "lpDecodeBacklen m (int (p + lpEncodeBacklen_size l) - 1) = Some l"
proof -
  have rds: "rd m (p + i) = Some (lpEncodeBacklen l ! i)" if "i < lpEncodeBacklen_size l" for i
    using assms(1) by (rule lp_atE) (use that in \<open>auto simp: rd_def nth_append\<close>)
  have small: "drop_bit s l < 128" if "l < 2 ^ (s + 7)" for s
    using that by (simp add: drop_bit_eq_div power_add less_mult_imp_div_less mult.commute)
  have start: "lpDecodeBacklen m q = lpDecodeBacklen_loop m q (l mod 2 ^ 0) 0" for q
    by (simp add: lpDecodeBacklen_def)
  note step = lpDecodeBacklen_bits [of m _ 0 l] lpDecodeBacklen_bits [of m _ 7 l]
    lpDecodeBacklen_bits [of m _ 14 l] lpDecodeBacklen_bits [of m _ 21 l]
  note fin = lpDecodeBacklen_end [of m p 0 l] lpDecodeBacklen_end [of m p 7 l]
    lpDecodeBacklen_end [of m p 14 l] lpDecodeBacklen_end [of m p 21 l] lpDecodeBacklen_end [of m p 28 l]
  consider "l \<le> 127" | "127 < l" "l < 16383" | "16383 \<le> l" "l < 2097151" | "2097151 \<le> l" "l < 268435455"
    | "268435455 \<le> l" by linarith
  then show ?thesis
  proof cases
    case 1
    then show ?thesis using rds [of 0] fin(1) small [of 0] start by (simp add: lpEncodeBacklen_def)
  next
    case 2
    then show ?thesis
      using rds [of 0] rds [of "Suc 0"] fin(2) small [of 7] start step(1) [of p]
      by (simp add: lpEncodeBacklen_def lpEncodeBacklen_size_def)
  next
    case 3
    then show ?thesis
      using rds [of 0] rds [of "Suc 0"] rds [of "Suc (Suc 0)"] fin(3) small [of 14] start step(1) [of "Suc p"] step(2) [of p]
      by (simp add: lpEncodeBacklen_def lpEncodeBacklen_size_def)
  next
    case 4
    then show ?thesis
      using rds [of 0] rds [of "Suc 0"] rds [of "Suc (Suc 0)"] rds [of "Suc (Suc (Suc 0))"] fin(4) small [of 21] start
        step(1) [of "Suc (Suc p)"] step(2) [of "Suc p"] step(3) [of p]
      by (simp add: lpEncodeBacklen_def lpEncodeBacklen_size_def)
  next
    case 5
    then show ?thesis
      using rds [of 0] rds [of "Suc 0"] rds [of "Suc (Suc 0)"] rds [of "Suc (Suc (Suc 0))"] rds [of "Suc (Suc (Suc (Suc 0)))"] fin(5) small [of 28] assms(2) start
        step(1) [of "Suc (Suc (Suc p))"] step(2) [of "Suc (Suc p)"] step(3) [of "Suc p"] step(4) [of p]
      by (simp add: lpEncodeBacklen_def lpEncodeBacklen_size_def)
  qed
qed

end
