(* ===== verification/Redis_Listpack.thy ===== *)
theory Redis_Listpack
  imports Redis_Listpack_Enc
begin

text \<open>
  The listpack of \<^verbatim>\<open>src/listpack.c\<close>: navigation, validation, insertion, replacement and deletion
  on the bytes of the block. \<open>lp_malloc_size\<close> is the length of the block, which the reallocations
  of the model make the usable size.

  A pointer into the block is an offset; where the code compares or subtracts pointers that may lie
  before the block, the offset is an integer. An inner \<open>None\<close> is a \<^verbatim>\<open>NULL\<close> result, an outer
  \<open>None\<close> an access outside the block or a failed \<^verbatim>\<open>assert\<close>.
\<close>

subsection \<open>Validation of one entry\<close>

text \<open>\<open>Some (b, pp)\<close>: the returned flag and the new value of \<^verbatim>\<open>*pp\<close>.\<close>

definition OUT_OF_RANGE :: "nat \<Rightarrow> int \<Rightarrow> bool" where
  "OUT_OF_RANGE lpbytes p \<longleftrightarrow> p < int LP_HDR_SIZE \<or> p > int lpbytes - 1"

definition lpValidateNext :: "mem \<Rightarrow> int option \<Rightarrow> nat \<Rightarrow> (bool \<times> int option) option" where
  "lpValidateNext lp pp lpbytes =
    (case pp of
       None \<Rightarrow> Some (False, pp)
     | Some p \<Rightarrow>
         if OUT_OF_RANGE lpbytes p then Some (False, pp)
         else do {
           b \<leftarrow> rd lp (nat p);
           if b = LP_EOF then Some (True, None)
           else do {
             lenbytes \<leftarrow> lpCurrentEncodedSizeBytes lp (nat p);
             if lenbytes = 0 then Some (False, pp)
             else if OUT_OF_RANGE lpbytes (p + int lenbytes) then Some (False, pp)
             else do {
               entrylen \<leftarrow> lpCurrentEncodedSizeUnsafe lp (nat p);
               let encodedBacklen = lpEncodeBacklen_size entrylen;
               let entrylen = entrylen + encodedBacklen;
               if OUT_OF_RANGE lpbytes (p + int entrylen) then Some (False, pp)
               else do {
                 let p = p + int entrylen;
                 prevlen \<leftarrow> lpDecodeBacklen lp (p - 1);
                 if (prevlen + encodedBacklen) mod 2 ^ 64 \<noteq> entrylen then Some (False, pp)
                 else Some (True, Some p)
               }
             }
           }
         })"

text \<open>The assertion: no value, or a fault.\<close>

definition lpAssertValidEntry :: "mem \<Rightarrow> nat \<Rightarrow> int \<Rightarrow> unit option" where
  "lpAssertValidEntry lp lpbytes p = do {
     (ok, pp) \<leftarrow> lpValidateNext lp (Some p) lpbytes;
     if ok then Some () else None
   }"

subsection \<open>Navigation\<close>

definition lpBytes :: "mem \<Rightarrow> nat option" where
  "lpBytes lp = lpGetTotalBytes lp"

definition lpSkip :: "mem \<Rightarrow> nat \<Rightarrow> nat option" where
  "lpSkip lp p = do {
     entrylen \<leftarrow> lpCurrentEncodedSizeUnsafe lp p;
     Some (p + (entrylen + lpEncodeBacklen_size entrylen))
   }"

definition lpNext :: "mem \<Rightarrow> nat \<Rightarrow> nat option option" where
  "lpNext lp p = do {
     p \<leftarrow> lpSkip lp p;
     b \<leftarrow> rd lp p;
     if b = LP_EOF then Some None
     else do {
       n \<leftarrow> lpBytes lp;
       _ \<leftarrow> lpAssertValidEntry lp n (int p);
       Some (Some p)
     }
   }"

definition lpPrev :: "mem \<Rightarrow> nat \<Rightarrow> nat option option" where
  "lpPrev lp p =
    (if p = LP_HDR_SIZE then Some None
     else do {
       prevlen \<leftarrow> lpDecodeBacklen lp (int p - 1);
       let prevlen = (prevlen + lpEncodeBacklen_size prevlen) mod 2 ^ 64;
       let q = (int p - 1) - (int prevlen - 1);
       n \<leftarrow> lpBytes lp;
       _ \<leftarrow> lpAssertValidEntry lp n q;
       Some (Some (nat q))
     })"

definition lpFirst :: "mem \<Rightarrow> nat option option" where
  "lpFirst lp = do {
     b \<leftarrow> rd lp LP_HDR_SIZE;
     if b = LP_EOF then Some None
     else do {
       n \<leftarrow> lpBytes lp;
       _ \<leftarrow> lpAssertValidEntry lp n (int LP_HDR_SIZE);
       Some (Some LP_HDR_SIZE)
     }
   }"

definition lpLast :: "mem \<Rightarrow> nat option option" where
  "lpLast lp = do {
     n \<leftarrow> lpGetTotalBytes lp;
     if n = 0 then None else lpPrev lp (n - 1)
   }"

text \<open>The scan of \<open>lpLength\<close>; the counter is a \<^verbatim>\<open>uint32_t\<close>.\<close>

partial_function (option) lpLength_loop :: "mem \<Rightarrow> nat option \<Rightarrow> nat \<Rightarrow> nat option" where
  "lpLength_loop lp p count =
    (case p of
       None \<Rightarrow> Some count
     | Some p \<Rightarrow> do {
         q \<leftarrow> lpNext lp p;
         lpLength_loop lp q ((count + 1) mod 2 ^ 32)
       })"

definition lpLength :: "mem \<Rightarrow> (mem \<times> nat) option" where
  "lpLength lp = do {
     numele \<leftarrow> lpGetNumElements lp;
     if numele \<noteq> LP_HDR_NUMELE_UNKNOWN then Some (lp, numele)
     else do {
       p \<leftarrow> lpFirst lp;
       count \<leftarrow> lpLength_loop lp p 0;
       lp \<leftarrow> (if count < LP_HDR_NUMELE_UNKNOWN then lpSetNumElements lp count else Some lp);
       Some (lp, count)
     }
   }"

fun lpSeek_forward :: "mem \<Rightarrow> nat option \<Rightarrow> nat \<Rightarrow> nat option option" where
  "lpSeek_forward lp None n = Some None"
| "lpSeek_forward lp (Some ele) 0 = Some (Some ele)"
| "lpSeek_forward lp (Some ele) (Suc n) = do {
     ele \<leftarrow> lpNext lp ele;
     lpSeek_forward lp ele n
   }"

fun lpSeek_backward :: "mem \<Rightarrow> nat option \<Rightarrow> nat \<Rightarrow> nat option option" where
  "lpSeek_backward lp None n = Some None"
| "lpSeek_backward lp (Some ele) 0 = Some (Some ele)"
| "lpSeek_backward lp (Some ele) (Suc n) = do {
     ele \<leftarrow> lpPrev lp ele;
     lpSeek_backward lp ele n
   }"

text \<open>
  The two scans take \<^verbatim>\<open>index\<close> and \<^verbatim>\<open>-1 - index\<close> steps.
\<close>

definition lpSeek_scan :: "mem \<Rightarrow> bool \<Rightarrow> int \<Rightarrow> nat option option" where
  "lpSeek_scan lp forward index =
    (if forward then do {
       ele \<leftarrow> lpFirst lp;
       lpSeek_forward lp ele (nat index)
     } else do {
       ele \<leftarrow> lpLast lp;
       lpSeek_backward lp ele (nat (- 1 - index))
     })"

definition lpSeek :: "mem \<Rightarrow> int \<Rightarrow> nat option option" where
  "lpSeek lp index = do {
     numele \<leftarrow> lpGetNumElements lp;
     if numele \<noteq> LP_HDR_NUMELE_UNKNOWN then
       (let index = (if index < 0 then int numele + index else index) in
        if index < 0 then Some None
        else if index \<ge> int numele then Some None
        else if index > int numele div 2 then lpSeek_scan lp False (index - int numele)
        else lpSeek_scan lp True index)
     else lpSeek_scan lp (\<not> index < 0) index
   }"

subsection \<open>Insertion, replacement, deletion\<close>

datatype lp_where = LP_BEFORE | LP_AFTER | LP_REPLACE

definition lpNew :: "allocator \<Rightarrow> nat \<Rightarrow> mem option" where
  "lpNew al capacity = do {
     lp \<leftarrow> zmalloc_usable al (if capacity > LP_HDR_SIZE + 1 then capacity else LP_HDR_SIZE + 1);
     lp \<leftarrow> lpSetTotalBytes lp (LP_HDR_SIZE + 1);
     lp \<leftarrow> lpSetNumElements lp 0;
     wr lp LP_HDR_SIZE [LP_EOF]
   }"

definition lpShrinkToFit :: "allocator \<Rightarrow> mem \<Rightarrow> mem option" where
  "lpShrinkToFit al lp = do {
     size \<leftarrow> lpGetTotalBytes lp;
     if size < length lp then zrealloc_usable al lp size else Some lp
   }"

definition lpSafeToAdd :: "mem option \<Rightarrow> nat \<Rightarrow> bool option" where
  "lpSafeToAdd lp add = do {
     len \<leftarrow> (case lp of Some lp \<Rightarrow> lpGetTotalBytes lp | None \<Rightarrow> Some 0);
     Some (\<not> (len + add) mod 2 ^ 64 > 2 ^ 30)
   }"

text \<open>
  The element to store: \<^verbatim>\<open>elestr\<close>, \<^verbatim>\<open>eleint\<close> (an encoded integer), or neither, which deletes.
\<close>

datatype lp_arg = EleStr "byte list" | EleInt "byte list" | EleNone

text \<open>The selection of the encoding: \<open>Inl\<close> an encoded integer, \<open>Inr\<close> the length of a string, as in
  \<open>lpEncodeGetType\<close>.\<close>

definition lpInsert_enc :: "lp_arg \<Rightarrow> byte list + nat" where
  "lpInsert_enc ele =
    (case ele of
       EleStr s \<Rightarrow> lpEncodeGetType s
     | EleInt e \<Rightarrow> Inl e
     | EleNone \<Rightarrow> Inl [])"

text \<open>Storing the entry and its length field at \<open>dst\<close>.\<close>

definition lpInsert_store :: "mem \<Rightarrow> nat \<Rightarrow> lp_arg \<Rightarrow> byte list + nat \<Rightarrow> nat \<Rightarrow> byte list \<Rightarrow> mem option" where
  "lpInsert_store lp dst ele enc enclen backlen =
    (if ele = EleNone then Some lp
     else do {
       lp \<leftarrow> (case enc of
                Inl eleint \<Rightarrow> wr lp dst eleint
              | Inr _ \<Rightarrow> (case ele of EleStr s \<Rightarrow> lpEncodeString lp dst s | _ \<Rightarrow> None));
       wr lp (dst + enclen) backlen
     })"

text \<open>The update of the element count.\<close>

definition lpInsert_count :: "mem \<Rightarrow> bool \<Rightarrow> lp_where \<Rightarrow> mem option" where
  "lpInsert_count lp delete wher =
    (if wher \<noteq> LP_REPLACE \<or> delete then do {
       num_elements \<leftarrow> lpGetNumElements lp;
       if num_elements \<noteq> LP_HDR_NUMELE_UNKNOWN then
         lpSetNumElements lp (if \<not> delete then num_elements + 1 else (num_elements + 2 ^ 32 - 1) mod 2 ^ 32)
       else Some lp
     } else Some lp)"

text \<open>The size of the entry that a replacement removes, with its length field.\<close>

definition lpInsert_replaced :: "mem \<Rightarrow> nat \<Rightarrow> lp_where \<Rightarrow> nat \<Rightarrow> nat option" where
  "lpInsert_replaced lp p wher old_bytes =
    (if wher = LP_REPLACE then do {
       r \<leftarrow> lpCurrentEncodedSizeUnsafe lp p;
       let r = (r + lpEncodeBacklen_size r) mod 2 ^ 32;
       if p \<ge> LP_HDR_SIZE \<and> p + r < old_bytes then Some r else None
     } else Some 0)"

text \<open>Reallocation before, relocation of the tail, reallocation after; \<open>room\<close> is the size of the
  new entry with its length field.\<close>

definition lpInsert_move ::
  "allocator \<Rightarrow> mem \<Rightarrow> nat \<Rightarrow> lp_where \<Rightarrow> nat \<Rightarrow> nat \<Rightarrow> nat \<Rightarrow> nat \<Rightarrow> mem option" where
  "lpInsert_move al lp p wher room replaced_len old_bytes new_bytes = do {
     lp \<leftarrow> (if new_bytes > old_bytes \<and> new_bytes > length lp
             then zrealloc_usable al lp new_bytes else Some lp);
     lp \<leftarrow> (if wher = LP_BEFORE
             then memmove lp (p + room) p (old_bytes - p)
             else memmove lp (p + room) (p + replaced_len) (old_bytes - p - replaced_len));
     if new_bytes < old_bytes then zrealloc_usable al lp new_bytes else Some lp
   }"

text \<open>
  The function from the point where \<^verbatim>\<open>where\<close> is \<open>LP_BEFORE\<close> or \<open>LP_REPLACE\<close>. The result is
  \<^verbatim>\<open>NULL\<close> (inner \<open>None\<close>), or the new block with the value of \<^verbatim>\<open>*newp\<close>.
\<close>

definition lpInsert_at :: "allocator \<Rightarrow> mem \<Rightarrow> lp_arg \<Rightarrow> nat \<Rightarrow> lp_where \<Rightarrow> (mem \<times> nat option) option option" where
  "lpInsert_at al lp ele p wher =
    (let delete = (ele = EleNone);
         enc = lpInsert_enc ele;
         enclen = (case enc of Inl e \<Rightarrow> length e | Inr n \<Rightarrow> n);
         backlen = (if \<not> delete then lpEncodeBacklen enclen else [])
     in do {
       old_bytes \<leftarrow> lpGetTotalBytes lp;
       replaced_len \<leftarrow> lpInsert_replaced lp p wher old_bytes;
       let new_bytes = old_bytes + enclen + length backlen - replaced_len;
       if new_bytes > 2 ^ 32 - 1 then Some None
       else do {
         lp \<leftarrow> lpInsert_move al lp p wher (enclen + length backlen) replaced_len old_bytes new_bytes;
         newp \<leftarrow> (if delete then do { b \<leftarrow> rd lp p; Some (if b = LP_EOF then None else Some p) }
                   else Some (Some p));
         lp \<leftarrow> lpInsert_store lp p ele enc enclen backlen;
         lp \<leftarrow> lpInsert_count lp delete wher;
         lp \<leftarrow> lpSetTotalBytes lp new_bytes;
         Some (Some (lp, newp))
       }
     })"

definition lpInsert :: "allocator \<Rightarrow> mem \<Rightarrow> lp_arg \<Rightarrow> nat \<Rightarrow> lp_where \<Rightarrow> (mem \<times> nat option) option option" where
  "lpInsert al lp ele p wher =
    (let wher = (if ele = EleNone then LP_REPLACE else wher) in
     if wher = LP_AFTER then do {
       q \<leftarrow> lpSkip lp p;
       n \<leftarrow> lpGetTotalBytes lp;
       if q \<ge> LP_HDR_SIZE \<and> q < n then lpInsert_at al lp ele q LP_BEFORE else None
     } else lpInsert_at al lp ele p wher)"

definition lpInsertString :: "allocator \<Rightarrow> mem \<Rightarrow> byte list \<Rightarrow> nat \<Rightarrow> lp_where \<Rightarrow> (mem \<times> nat option) option option" where
  "lpInsertString al lp s p wher = lpInsert al lp (EleStr s) p wher"

definition lpInsertInteger :: "allocator \<Rightarrow> mem \<Rightarrow> int \<Rightarrow> nat \<Rightarrow> lp_where \<Rightarrow> (mem \<times> nat option) option option" where
  "lpInsertInteger al lp lval p wher = lpInsert al lp (EleInt (lpEncodeIntegerGetType lval)) p wher"

definition lpAppend :: "allocator \<Rightarrow> mem \<Rightarrow> byte list \<Rightarrow> mem option option" where
  "lpAppend al lp ele = do {
     listpack_bytes \<leftarrow> lpGetTotalBytes lp;
     if listpack_bytes = 0 then None
     else map_option (map_option fst) (lpInsert al lp (EleStr ele) (listpack_bytes - 1) LP_BEFORE)
   }"

definition lpAppendInteger :: "allocator \<Rightarrow> mem \<Rightarrow> int \<Rightarrow> mem option option" where
  "lpAppendInteger al lp lval = do {
     listpack_bytes \<leftarrow> lpGetTotalBytes lp;
     if listpack_bytes = 0 then None
     else map_option (map_option fst) (lpInsertInteger al lp lval (listpack_bytes - 1) LP_BEFORE)
   }"

definition lpPrepend :: "allocator \<Rightarrow> mem \<Rightarrow> byte list \<Rightarrow> mem option option" where
  "lpPrepend al lp s = do {
     p \<leftarrow> lpFirst lp;
     case p of
       None \<Rightarrow> lpAppend al lp s
     | Some p \<Rightarrow> map_option (map_option fst) (lpInsert al lp (EleStr s) p LP_BEFORE)
   }"

definition lpPrependInteger :: "allocator \<Rightarrow> mem \<Rightarrow> int \<Rightarrow> mem option option" where
  "lpPrependInteger al lp lval = do {
     p \<leftarrow> lpFirst lp;
     case p of
       None \<Rightarrow> lpAppendInteger al lp lval
     | Some p \<Rightarrow> map_option (map_option fst) (lpInsertInteger al lp lval p LP_BEFORE)
   }"

definition lpReplace :: "allocator \<Rightarrow> mem \<Rightarrow> nat \<Rightarrow> byte list \<Rightarrow> (mem \<times> nat option) option option" where
  "lpReplace al lp p s = lpInsert al lp (EleStr s) p LP_REPLACE"

definition lpReplaceInteger :: "allocator \<Rightarrow> mem \<Rightarrow> nat \<Rightarrow> int \<Rightarrow> (mem \<times> nat option) option option" where
  "lpReplaceInteger al lp p lval = lpInsertInteger al lp lval p LP_REPLACE"

definition lpDelete :: "allocator \<Rightarrow> mem \<Rightarrow> nat \<Rightarrow> (mem \<times> nat option) option option" where
  "lpDelete al lp p = lpInsert al lp EleNone p LP_REPLACE"

subsection \<open>Well-formed listpacks\<close>

text \<open>
  A well-formed listpack: header, entries each followed by its length field, the end marker, and
  whatever the allocation has beyond. The abstraction is the list of entry bodies.
\<close>

definition lp_entry_bytes :: "byte list \<Rightarrow> byte list" where
  "lp_entry_bytes bs = bs @ lpEncodeBacklen (length bs)"

definition lp_body :: "byte list list \<Rightarrow> byte list" where
  "lp_body bss = concat (map lp_entry_bytes bss)"

definition lp_off :: "byte list list \<Rightarrow> nat \<Rightarrow> nat" where
  "lp_off bss i = LP_HDR_SIZE + length (lp_body (take i bss))"

definition lp_total :: "byte list list \<Rightarrow> nat" where
  "lp_total bss = LP_HDR_SIZE + length (lp_body bss) + 1"

definition lp_entries :: "byte list list \<Rightarrow> bool" where
  "lp_entries bss \<longleftrightarrow> (\<forall>bs \<in> set bss. \<exists>v. lp_entry bs v)"

definition lp_num_ok :: "nat \<Rightarrow> byte list list \<Rightarrow> bool" where
  "lp_num_ok num bss \<longleftrightarrow> num = LP_HDR_NUMELE_UNKNOWN \<or> num = length bss \<and> num < LP_HDR_NUMELE_UNKNOWN"

definition lp_image :: "nat \<Rightarrow> byte list list \<Rightarrow> mem" where
  "lp_image num bss = store_le 4 (lp_total bss) @ store_le 2 num @ lp_body bss @ [LP_EOF]"

definition lp_rep :: "mem \<Rightarrow> byte list list \<Rightarrow> bool" where
  "lp_rep lp bss \<longleftrightarrow> lp_entries bss \<and> lp_total bss < 2 ^ 32 \<and>
     (\<exists>num rest. lp_num_ok num bss \<and> lp = lp_image num bss @ rest)"

lemma length_lp_entry_bytes: "length (lp_entry_bytes bs) = length bs + lpEncodeBacklen_size (length bs)"
  by (simp add: lp_entry_bytes_def)

lemma lp_body_simps [simp]:
  "lp_body [] = []" "lp_body (bs # bss) = lp_entry_bytes bs @ lp_body bss"
  "lp_body (xs @ ys) = lp_body xs @ lp_body ys"
  by (simp_all add: lp_body_def)

lemma lp_off_0 [simp]: "lp_off bss 0 = LP_HDR_SIZE"
  by (simp add: lp_off_def)

lemma lp_off_Suc:
  "i < length bss \<Longrightarrow> lp_off bss (Suc i) = lp_off bss i + (length (bss ! i) + lpEncodeBacklen_size (length (bss ! i)))"
  by (simp add: lp_off_def take_Suc_conv_app_nth length_lp_entry_bytes)

lemma lp_off_length: "lp_off bss (length bss) + 1 = lp_total bss"
  by (simp add: lp_off_def lp_total_def)

lemma lp_off_ge: "LP_HDR_SIZE \<le> lp_off bss i"
  by (simp add: lp_off_def)

lemma lp_off_mono: "i \<le> j \<Longrightarrow> lp_off bss i \<le> lp_off bss j"
proof -
  assume "i \<le> j"
  then have "take j bss = take i bss @ take (j - i) (drop i bss)"
    by (metis le_add_diff_inverse take_add)
  then show ?thesis by (simp add: lp_off_def)
qed

lemma lp_off_strict: "i < j \<Longrightarrow> j \<le> length bss \<Longrightarrow> lp_off bss i < lp_off bss j"
  using lp_off_mono [of "Suc i" j bss] lp_off_Suc [of i bss] lpEncodeBacklen_size_bounds(1) [of "length (bss ! i)"]
  by simp

lemma lp_off_less: "i \<le> length bss \<Longrightarrow> lp_off bss i < lp_total bss"
  using lp_off_mono [of i "length bss" bss] lp_off_length [of bss] by simp

lemma lp_entriesD: "lp_entries bss \<Longrightarrow> i < length bss \<Longrightarrow> \<exists>v. lp_entry (bss ! i) v"
  by (simp add: lp_entries_def)

lemma lp_rep_total: "lp_rep lp bss \<Longrightarrow> lp_total bss \<le> length lp"
  by (auto simp: lp_rep_def lp_image_def lp_total_def LP_HDR_SIZE_def)

lemma lp_rep_bytes: "lp_rep lp bss \<Longrightarrow> lpGetTotalBytes lp = Some (lp_total bss)"
  by (auto simp: lp_rep_def lp_image_def lpGetTotalBytes_def rdn_def)

lemma lp_rep_num:
  assumes "lp_rep lp bss"
  obtains num where "lpGetNumElements lp = Some num" and "lp_num_ok num bss"
proof -
  from assms obtain num rest where n: "lp_num_ok num bss" "lp = lp_image num bss @ rest"
    by (auto simp: lp_rep_def)
  have "num mod 65536 = num" using n(1) by (auto simp: lp_num_ok_def LP_HDR_NUMELE_UNKNOWN_def)
  then have "lpGetNumElements lp = Some num"
    using n(2) by (simp add: lpGetNumElements_def rdn_def lp_image_def)
  then show thesis using n(1) by (rule that)
qed

lemma lp_rep_at:
  assumes "lp_rep lp bss" and "i < length bss"
  shows "lp_at lp (lp_off bss i) (lp_entry_bytes (bss ! i))"
proof -
  from assms(1) obtain num rest where lp: "lp = lp_image num bss @ rest" by (auto simp: lp_rep_def)
  have "bss = take i bss @ bss ! i # drop (Suc i) bss" using assms(2) by (rule id_take_nth_drop)
  then have "lp_body bss = lp_body (take i bss) @ lp_entry_bytes (bss ! i) @ lp_body (drop (Suc i) bss)"
    by (metis lp_body_simps(2,3))
  then have "lp = (store_le 4 (lp_total bss) @ store_le 2 num @ lp_body (take i bss)) @
      lp_entry_bytes (bss ! i) @ (lp_body (drop (Suc i) bss) @ LP_EOF # rest)"
    by (simp add: lp lp_image_def)
  moreover have "lp_off bss i = length (store_le 4 (lp_total bss) @ store_le 2 num @ lp_body (take i bss))"
    by (simp add: lp_off_def LP_HDR_SIZE_def)
  ultimately show ?thesis by (simp only: lp_atI)
qed

lemma lp_rep_at_body:
  assumes "lp_rep lp bss" and "i < length bss"
  shows "lp_at lp (lp_off bss i) (bss ! i)"
  using lp_rep_at [OF assms] unfolding lp_entry_bytes_def by (rule lp_at_append1)

lemma lp_rep_EOF: "lp_rep lp bss \<Longrightarrow> rd lp (lp_off bss (length bss)) = Some LP_EOF"
  by (auto simp: lp_rep_def lp_image_def lp_off_def LP_HDR_SIZE_def rd_def nth_append)

lemma lp_rep_hd:
  assumes "lp_rep lp bss" and "i < length bss"
  shows "\<exists>b. rd lp (lp_off bss i) = Some b \<and> b \<noteq> LP_EOF"
proof -
  obtain v where v: "lp_entry (bss ! i) v" using assms lp_entriesD by (auto simp: lp_rep_def)
  then have "rd lp (lp_off bss i) = Some (hd (bss ! i))"
    using lp_at_reads(1) [OF lp_rep_at_body [OF assms]] lp_entry_length [OF v] by simp
  then show ?thesis using lp_entry_not_EOF [OF v] by simp
qed

lemma lp_rep_rd_EOF_iff:
  assumes "lp_rep lp bss" and "i \<le> length bss"
  shows "\<exists>b. rd lp (lp_off bss i) = Some b \<and> (b = LP_EOF \<longleftrightarrow> i = length bss)"
  using assms lp_rep_EOF lp_rep_hd [OF assms(1), of i] by (cases "i = length bss") auto

subsection \<open>Navigation on well-formed listpacks\<close>

lemma lp_rep_size:
  assumes "lp_rep lp bss" and "i < length bss"
  shows "lpCurrentEncodedSizeUnsafe lp (lp_off bss i) = Some (length (bss ! i))"
  using lp_entry_size [OF _ lp_rep_at_body [OF assms]] lp_entriesD assms by (metis lp_rep_def)

lemma lpSkip_rep:
  assumes "lp_rep lp bss" and "i < length bss"
  shows "lpSkip lp (lp_off bss i) = Some (lp_off bss (Suc i))"
  using lp_rep_size [OF assms] lp_off_Suc [OF assms(2)] by (simp add: lpSkip_def)

lemma lp_rep_backlen:
  assumes "lp_rep lp bss" and "i < length bss"
  shows "lpDecodeBacklen lp (int (lp_off bss (Suc i)) - 1) = Some (length (bss ! i))"
proof -
  let ?n = "length (bss ! i)"
  have at: "lp_at lp (lp_off bss i + ?n) (lpEncodeBacklen ?n)"
    using lp_at_append2 [OF lp_rep_at [OF assms, unfolded lp_entry_bytes_def]] .
  have "?n < 2 ^ 35" using lp_entriesD [of bss i] lp_entry_length assms by (fastforce simp: lp_rep_def)
  from lpDecodeBacklen_correct [OF at this] show ?thesis
    by (simp add: lp_off_Suc [OF assms(2)] add.assoc)
qed

lemma lpValidateNext_rep:
  assumes "lp_rep lp bss" and "i < length bss"
  shows "lpValidateNext lp (Some (int (lp_off bss i))) (lp_total bss) =
    Some (True, Some (int (lp_off bss (Suc i))))"
proof -
  let ?p = "lp_off bss i" and ?n = "length (bss ! i)"
  obtain v where v: "lp_entry (bss ! i) v" using assms lp_entriesD by (auto simp: lp_rep_def)
  obtain b where b: "rd lp ?p = Some b" "b \<noteq> LP_EOF" using lp_rep_hd [OF assms] by auto
  obtain k where k: "lpCurrentEncodedSizeBytes lp ?p = Some k" "0 < k" "k \<le> ?n"
    using lp_entry_size_bytes [OF v lp_rep_at_body [OF assms]] by auto
  have S: "lp_off bss (Suc i) = ?p + (?n + lpEncodeBacklen_size ?n)" using lp_off_Suc [OF assms(2)] .
  have le: "lp_off bss (Suc i) < lp_total bss" using lp_off_less [of "Suc i" bss] assms(2) by simp
  have in1: "\<not> OUT_OF_RANGE (lp_total bss) (int ?p)" "\<not> OUT_OF_RANGE (lp_total bss) (int ?p + int k)"
    and in2: "\<not> OUT_OF_RANGE (lp_total bss) (int ?p + int (?n + lpEncodeBacklen_size ?n))"
    using lp_off_ge [of bss i] le k S by (auto simp: OUT_OF_RANGE_def)
  have "?n + lpEncodeBacklen_size ?n < 2 ^ 64"
    using lp_entry_length [OF v] lpEncodeBacklen_size_bounds(2) [of ?n] by simp
  moreover have "lpDecodeBacklen lp (int ?p + int (?n + lpEncodeBacklen_size ?n) - 1) = Some ?n"
    using lp_rep_backlen [OF assms] by (simp add: S)
  ultimately show ?thesis
    using b k in1 in2 lp_rep_size [OF assms] by (simp add: lpValidateNext_def Let_def S)
qed

lemma lpValidateNext_end:
  assumes "lp_rep lp bss"
  shows "lpValidateNext lp (Some (int (lp_off bss (length bss)))) (lp_total bss) = Some (True, None)"
  using lp_rep_EOF [OF assms] lp_off_ge [of bss "length bss"] lp_off_length [of bss]
  by (simp add: lpValidateNext_def OUT_OF_RANGE_def)

lemma lpAssertValidEntry_rep:
  assumes "lp_rep lp bss" and "i \<le> length bss"
  shows "lpAssertValidEntry lp (lp_total bss) (int (lp_off bss i)) = Some ()"
  using assms lpValidateNext_rep [OF assms(1), of i] lpValidateNext_end [OF assms(1)]
  by (cases "i = length bss") (auto simp: lpAssertValidEntry_def)

text \<open>The position of the \<open>i\<close>-th entry, or \<^verbatim>\<open>NULL\<close> past the end.\<close>

definition lp_pos :: "byte list list \<Rightarrow> nat \<Rightarrow> nat option" where
  "lp_pos bss i = (if i < length bss then Some (lp_off bss i) else None)"

lemma lpNext_rep:
  assumes "lp_rep lp bss" and "i < length bss"
  shows "lpNext lp (lp_off bss i) = Some (lp_pos bss (Suc i))"
proof -
  obtain b where "rd lp (lp_off bss (Suc i)) = Some b" "b = LP_EOF \<longleftrightarrow> Suc i = length bss"
    using lp_rep_rd_EOF_iff [OF assms(1), of "Suc i"] assms(2) by auto
  then show ?thesis
    using lpSkip_rep [OF assms] lp_rep_bytes [OF assms(1)] lpAssertValidEntry_rep [OF assms(1), of "Suc i"] assms(2)
    by (auto simp: lpNext_def lpBytes_def lp_pos_def)
qed

lemma lpFirst_rep:
  assumes "lp_rep lp bss"
  shows "lpFirst lp = Some (lp_pos bss 0)"
  using lp_rep_rd_EOF_iff [OF assms, of 0] lp_rep_bytes [OF assms] lpAssertValidEntry_rep [OF assms, of 0]
  by (auto simp: lpFirst_def lpBytes_def lp_pos_def)

lemma lpPrev_rep:
  assumes "lp_rep lp bss" and "i \<le> length bss"
  shows "lpPrev lp (lp_off bss i) = Some (if i = 0 then None else Some (lp_off bss (i - 1)))"
proof (cases i)
  case 0
  then show ?thesis by (simp add: lpPrev_def)
next
  case (Suc j)
  let ?n = "length (bss ! j)"
  have j: "j < length bss" using Suc assms(2) by simp
  have S: "lp_off bss i = lp_off bss j + (?n + lpEncodeBacklen_size ?n)" using lp_off_Suc [OF j] Suc by simp
  have "?n + lpEncodeBacklen_size ?n < 2 ^ 64"
    using lp_entriesD [of bss j] lp_entry_length lpEncodeBacklen_size_bounds(2) [of ?n] assms j
    by (fastforce simp: lp_rep_def)
  then have m: "(?n + lpEncodeBacklen_size ?n) mod 2 ^ 64 = ?n + lpEncodeBacklen_size ?n" by (rule mod_less)
  have q: "int (lp_off bss i) - 1 - (int (?n + lpEncodeBacklen_size ?n) - 1) = int (lp_off bss j)"
    using S by simp
  have "lp_off bss i \<noteq> LP_HDR_SIZE" using lp_off_strict [of 0 i bss] Suc assms(2) by simp
  moreover have "lpDecodeBacklen lp (int (lp_off bss i) - 1) = Some ?n"
    using lp_rep_backlen [OF assms(1) j] by (simp only: Suc)
  moreover have "lpAssertValidEntry lp (lp_total bss) (int (lp_off bss j)) = Some ()"
    using lpAssertValidEntry_rep [OF assms(1), of j] j by simp
  ultimately have "lpPrev lp (lp_off bss i) = Some (Some (lp_off bss j))"
    unfolding lpPrev_def Let_def
    by (simp only: if_False Option.bind.simps lpBytes_def lp_rep_bytes [OF assms(1)] m q nat_int)
  then show ?thesis by (simp add: Suc)
qed

lemma lpLast_rep:
  assumes "lp_rep lp bss"
  shows "lpLast lp = Some (if bss = [] then None else Some (lp_off bss (length bss - 1)))"
proof -
  have "lp_total bss - 1 = lp_off bss (length bss)" and "lp_total bss \<noteq> 0"
    using lp_off_length [of bss] by auto
  then show ?thesis
    using lp_rep_bytes [OF assms] lpPrev_rep [OF assms, of "length bss"] by (simp add: lpLast_def)
qed


lemma lpSeek_forward_rep:
  assumes "lp_rep lp bss"
  shows "lpSeek_forward lp (lp_pos bss i) n = Some (lp_pos bss (i + n))"
proof (induction n arbitrary: i)
  case 0
  show ?case by (cases "lp_pos bss i") (auto simp: lp_pos_def)
next
  case (Suc n)
  show ?case
  proof (cases "i < length bss")
    case True
    then show ?thesis using lpNext_rep [OF assms True] Suc [of "Suc i"] by (simp add: lp_pos_def)
  qed (simp add: lp_pos_def)
qed

lemma lpSeek_backward_rep:
  assumes "lp_rep lp bss" and "i < length bss"
  shows "lpSeek_backward lp (Some (lp_off bss i)) n = Some (if n \<le> i then Some (lp_off bss (i - n)) else None)"
  using assms(2)
proof (induction n arbitrary: i)
  case (Suc n)
  show ?case
  proof (cases i)
    case 0
    then show ?thesis using lpPrev_rep [OF assms(1), of 0] by simp
  next
    case (Suc j)
    then show ?thesis
      using lpPrev_rep [OF assms(1), of i] Suc.IH [of j] Suc.prems by simp
  qed
qed simp

text \<open>The element at an index as Redis counts: from the front, or from the back when negative.\<close>

definition lp_index :: "byte list list \<Rightarrow> int \<Rightarrow> nat option" where
  "lp_index bss index =
    (let i = (if index < 0 then int (length bss) + index else index) in
     if 0 \<le> i \<and> i < int (length bss) then Some (lp_off bss (nat i)) else None)"

lemma lpSeek_scan_rep:
  assumes "lp_rep lp bss"
  shows "lpSeek_scan lp (\<not> index < 0) index = Some (lp_index bss index)"
proof (cases "index < 0")
  case False
  then show ?thesis
    using lpFirst_rep [OF assms] lpSeek_forward_rep [OF assms, of 0 "nat index"]
    by (auto simp: lpSeek_scan_def lp_index_def lp_pos_def)
next
  case True
  show ?thesis
  proof (cases "bss = []")
    case True
    then show ?thesis using lpLast_rep [OF assms] \<open>index < 0\<close> by (simp add: lpSeek_scan_def lp_index_def)
  next
    case False
    then have l: "0 < length bss" by simp
    then have "length bss - 1 < length bss" by simp
    note bk = lpSeek_backward_rep [OF assms this, of "nat (- 1 - index)"]
    have "nat (- 1 - index) \<le> length bss - 1 \<longleftrightarrow> 0 \<le> int (length bss) + index"
      and "length bss - 1 - nat (- 1 - index) = nat (int (length bss) + index)"
      using l True by (linarith+)
    then show ?thesis
      using bk lpLast_rep [OF assms] False True by (simp add: lpSeek_scan_def lp_index_def)
  qed
qed

lemma lpSeek_rep:
  assumes "lp_rep lp bss"
  shows "lpSeek lp index = Some (lp_index bss index)"
proof -
  obtain num where num: "lpGetNumElements lp = Some num" "lp_num_ok num bss" by (rule lp_rep_num [OF assms])
  show ?thesis
  proof (cases "num = LP_HDR_NUMELE_UNKNOWN")
    case True
    then show ?thesis using num lpSeek_scan_rep [OF assms, of index] by (simp add: lpSeek_def)
  next
    case False
    then have n: "num = length bss" using num(2) by (simp add: lp_num_ok_def)
    let ?i = "if index < 0 then int num + index else index"
    have "lp_index bss (?i - int num) = lp_index bss ?i" if "0 \<le> ?i" "?i < int num"
      using that by (auto simp: lp_index_def n)
    moreover have "lp_index bss ?i = lp_index bss index" if "0 \<le> ?i"
      using that by (auto simp: lp_index_def n)
    ultimately show ?thesis
      using num(1) False lpSeek_scan_rep [OF assms, of ?i] lpSeek_scan_rep [OF assms, of "?i - int num"] n
      unfolding lpSeek_def Let_def by (auto simp: lp_index_def Let_def)
  qed
qed

subsection \<open>Counting\<close>

lemma lp_length_bound: "lp_total bss < 4294967296 \<Longrightarrow> length bss < 4294967296"
proof -
  have "length bss \<le> length (lp_body bss)"
  proof (induction bss)
    case (Cons bs bss)
    then show ?case using lpEncodeBacklen_size_bounds(1) [of "length bs"] by (simp add: length_lp_entry_bytes)
  qed simp
  then show "lp_total bss < 4294967296 \<Longrightarrow> length bss < 4294967296" by (simp add: lp_total_def)
qed

lemma lpLength_loop_rep:
  assumes "lp_rep lp bss" and "i \<le> length bss" and "i = n"
  shows "lpLength_loop lp (lp_pos bss i) n = Some (length bss)"
  using assms(2,3)
proof (induction "length bss - i" arbitrary: i n)
  case 0
  then have "lp_pos bss i = None" by (simp add: lp_pos_def)
  with 0 show ?case by (simp add: lpLength_loop.simps)
next
  case (Suc k)
  then have i: "i < length bss" by simp
  then have "(i + 1) mod 2 ^ 32 = Suc i"
    using lp_length_bound [of bss] assms(1) by (simp add: lp_rep_def)
  moreover have "lpLength_loop lp (lp_pos bss (Suc i)) (Suc i) = Some (length bss)"
    using Suc by (intro Suc.hyps(1)) auto
  moreover have "lp_pos bss i = Some (lp_off bss i)" using i by (simp add: lp_pos_def)
  ultimately show ?case
    using lpNext_rep [OF assms(1) i] Suc.prems(2) by (subst lpLength_loop.simps) simp
qed

lemma lpSetNumElements_image:
  "lpSetNumElements (lp_image num bss @ rest) n = Some (lp_image n bss @ rest)"
  using wr_at [of 4 "store_le 4 (lp_total bss)" "store_le 2 n" "store_le 2 num" "lp_body bss @ LP_EOF # rest"]
  by (simp add: lpSetNumElements_def lp_image_def)

lemma lpLength_rep:
  assumes "lp_rep lp bss"
  shows "\<exists>lp'. lpLength lp = Some (lp', length bss) \<and> lp_rep lp' bss \<and> length lp' = length lp"
proof -
  from assms obtain num rest where n: "lp_num_ok num bss" "lp = lp_image num bss @ rest"
    by (auto simp: lp_rep_def)
  have g: "lpGetNumElements lp = Some num"
    using n by (auto simp: lpGetNumElements_def rdn_def lp_image_def lp_num_ok_def LP_HDR_NUMELE_UNKNOWN_def)
  show ?thesis
  proof (cases "num = LP_HDR_NUMELE_UNKNOWN")
    case False
    then have "num = length bss" using n(1) by (simp add: lp_num_ok_def)
    with g False assms show ?thesis by (simp add: lpLength_def)
  next
    case True
    have "lpLength lp = do { lp \<leftarrow> (if length bss < LP_HDR_NUMELE_UNKNOWN then lpSetNumElements lp (length bss) else Some lp);
        Some (lp, length bss) }"
      using g True lpFirst_rep [OF assms] lpLength_loop_rep [OF assms, of 0] by (simp add: lpLength_def)
    moreover have "lp_rep (lp_image (length bss) bss @ rest) bss" if "length bss < LP_HDR_NUMELE_UNKNOWN"
      using assms that by (auto simp: lp_rep_def lp_num_ok_def)
    moreover have "length (lp_image (length bss) bss @ rest) = length lp" by (simp add: n(2) lp_image_def)
    ultimately show ?thesis
      using assms lpSetNumElements_image [of num bss rest "length bss"] by (simp add: n(2))
  qed
qed

subsection \<open>Insertion, replacement and deletion\<close>

text \<open>Making room: the reallocations and the move around a gap for the new entry.\<close>

lemma lp_make_room:
  assumes "lp = pre @ old @ tail @ rest" and "p = length pre" and "r = length old"
    and "tot = length (pre @ old @ tail)" and "new = tot + e - r" and "al_ok al new"
  obtains lp1 lp2 gap rest' where
    "(if new > tot \<and> new > length lp then zrealloc_usable al lp new else Some lp) = Some lp1"
    and "memmove lp1 (p + e) (p + r) (length tail) = Some lp2"
    and "(if new < tot then zrealloc_usable al lp2 new else Some lp2) = Some (pre @ gap @ tail @ rest')"
    and "length gap = e"
proof -
  have new: "new = p + e + length tail" using assms(2-5) by simp
  obtain lp1 ext where 1: "(if new > tot \<and> new > length lp then zrealloc_usable al lp new else Some lp) = Some lp1"
    "lp1 = lp @ ext" "new \<le> length lp1"
  proof (cases "new > tot \<and> new > length lp")
    case True
    then obtain r where "zrealloc_usable al lp new = Some (lp @ r)" "new \<le> length lp + length r"
      using zrealloc_usable_grow [OF assms(6), of lp] by auto
    with True that show thesis by auto
  next
    case False
    then have "new \<le> length lp" using assms(1,4) by auto
    with False that [of lp "[]"] show thesis by auto
  qed
  have rd: "rdn lp1 (p + r) (length tail) = Some tail"
    using 1(2) assms(1-3) by (simp add: rdn_def)
  let ?lp2 = "take (p + e) lp1 @ tail @ drop new lp1"
  have 2: "memmove lp1 (p + e) (p + r) (length tail) = Some ?lp2"
    using rd 1(3) new by (simp add: memmove_def wr_def)
  have "take p lp1 = pre" using 1(2) assms(1,2) by simp
  then have gap: "take (p + e) lp1 = pre @ take e (drop p lp1)" by (simp add: take_add)
  have le: "length (take e (drop p lp1)) = e" using 1(3) new by simp
  have l2: "length (pre @ take e (drop p lp1) @ tail) = new" using le new assms(2) by simp
  obtain rest' where "(if new < tot then zrealloc_usable al ?lp2 new else Some ?lp2) =
      Some (pre @ take e (drop p lp1) @ tail @ rest')"
  proof (cases "new < tot")
    case True
    have "new \<le> length ?lp2" using l2 gap by simp
    then obtain r where "zrealloc_usable al ?lp2 new = Some (take new ?lp2 @ r)"
      using zrealloc_usable_shrink [OF assms(6)] by blast
    moreover have "?lp2 = (pre @ take e (drop p lp1) @ tail) @ drop new lp1" using gap by simp
    then have "take new ?lp2 = pre @ take e (drop p lp1) @ tail" using l2 by (metis append_eq_conv_conj)
    ultimately have "zrealloc_usable al ?lp2 new = Some (pre @ take e (drop p lp1) @ tail @ r)"
      by (simp only: append_assoc)
    with True show thesis using that [of r] by (simp only: if_True)
  next
    case False
    then show thesis using that [of "drop new lp1"] gap by simp
  qed
  then show thesis using le by (rule that [OF 1(1) 2])
qed


text \<open>The bytes an argument of \<open>lpInsert\<close> is stored as.\<close>

definition lp_arg_bytes :: "lp_arg \<Rightarrow> byte list" where
  "lp_arg_bytes ele =
    (case ele of
       EleStr s \<Rightarrow> (case lpStringToInt64 s of Some v \<Rightarrow> lpEncodeIntegerGetType v | None \<Rightarrow> lp_str_bytes s)
     | EleInt e \<Rightarrow> e
     | EleNone \<Rightarrow> [])"

lemma lpInsert_enc_len:
  "(case lpInsert_enc ele of Inl e \<Rightarrow> length e | Inr n \<Rightarrow> n) = length (lp_arg_bytes ele)"
  by (cases ele) (auto simp: lpInsert_enc_def lp_arg_bytes_def lpEncodeGetType_def lp_str_bytes_def Let_def
      split: option.splits)

lemma lpInsert_store_eq:
  assumes "length gap = length (lp_arg_bytes ele) + length bl" and "ele \<noteq> EleNone" and "p = length pre"
  shows "lpInsert_store (pre @ gap @ post) p ele (lpInsert_enc ele) (length (lp_arg_bytes ele)) bl =
    Some (pre @ lp_arg_bytes ele @ bl @ post)"
proof -
  let ?b = "lp_arg_bytes ele"
  have w: "(case lpInsert_enc ele of Inl eleint \<Rightarrow> wr (pre @ gap @ post) p eleint
      | Inr _ \<Rightarrow> (case ele of EleStr s \<Rightarrow> lpEncodeString (pre @ gap @ post) p s | _ \<Rightarrow> None)) =
      wr (pre @ gap @ post) p ?b"
  proof (cases ele)
    case (EleStr s)
    then show ?thesis
      using lpEncodeString_wr [of p s "pre @ gap @ post"] assms
      by (auto simp: lpInsert_enc_def lp_arg_bytes_def lpEncodeGetType_def split: option.splits)
  qed (use assms in \<open>auto simp: lpInsert_enc_def lp_arg_bytes_def\<close>)
  have "lpInsert_store (pre @ gap @ post) p ele (lpInsert_enc ele) (length ?b) bl =
      do { m \<leftarrow> wr (pre @ gap @ post) p ?b; wr m (p + length ?b) bl }"
    using assms(2) by (simp only: lpInsert_store_def if_False w)
  also have "\<dots> = wr (pre @ gap @ post) p (?b @ bl)" by (rule wr_wr) (simp add: assms)
  also have "\<dots> = Some (pre @ (?b @ bl) @ post)" by (rule wr_at) (simp_all add: assms)
  finally show ?thesis by simp
qed

text \<open>An argument that, stored, is an entry.\<close>

definition lp_arg_ok :: "lp_arg \<Rightarrow> bool" where
  "lp_arg_ok ele \<longleftrightarrow> (case ele of EleInt e \<Rightarrow> \<exists>v. lp_entry e v | _ \<Rightarrow> True)"

lemma lpStringToInt64_eq: "lpStringToInt64 s = string2ll s"
proof -
  have "lpStringToInt64_digits v p = string2ll_digits v p" for v p
    by (induction p arbitrary: v) (simp_all add: ULLONG_MAX_def Let_def)
  then have digits: "lpStringToInt64_digits = string2ll_digits" by (intro ext)
  have zero: "length s = 1 \<and> hd s = 48 \<longleftrightarrow> s = [48]" by (cases s) auto
  show ?thesis unfolding lpStringToInt64_def string2ll_def digits zero ..
qed

lemma lp_arg_entry:
  assumes "lp_arg_ok ele" and "ele \<noteq> EleNone" and "length (lp_arg_bytes ele) < 4294967296"
  shows "\<exists>v. lp_entry (lp_arg_bytes ele) v"
proof (cases ele)
  case (EleStr s)
  show ?thesis
  proof (cases "lpStringToInt64 s")
    case None
    then have b: "lp_arg_bytes ele = lp_str_bytes s" using EleStr by (simp add: lp_arg_bytes_def)
    have "5 + length s < 2 ^ 32"
      using assms(3) b by (auto simp: lp_str_bytes_def Let_def split: if_splits)
    then show ?thesis using b lp_str_entry by metis
  next
    case (Some v)
    then have "in_i64 v" using ll_text.parse_range lpStringToInt64_eq by simp
    then show ?thesis using lpEncodeInteger_entry EleStr Some by (auto simp: lp_arg_bytes_def)
  qed
qed (use assms in \<open>auto simp: lp_arg_ok_def lp_arg_bytes_def\<close>)


text \<open>The splice of the block that all variants of \<open>lpInsert\<close> perform.\<close>

lemma lp_image_split:
  "lp_image num (A @ B) = (store_le 4 (lp_total (A @ B)) @ store_le 2 num @ lp_body A) @ lp_body B @ [LP_EOF]"
  by (simp add: lp_image_def)

lemma lpSetTotalBytes_at:
  "lpSetTotalBytes (store_le 4 t @ m) n = Some (store_le 4 n @ m)"
  using wr_at [of 0 "[]" "store_le 4 n" "store_le 4 t" m] by (simp add: lpSetTotalBytes_def)

lemma lpGetNumElements_at:
  "num < 65536 \<Longrightarrow> lpGetNumElements (store_le 4 t @ store_le 2 num @ m) = Some num"
  by (simp add: lpGetNumElements_def rdn_def)

lemma lpSetNumElements_at:
  "lpSetNumElements (store_le 4 t @ store_le 2 num @ m) n = Some (store_le 4 t @ store_le 2 n @ m)"
  using wr_at [of 4 "store_le 4 t" "store_le 2 n" "store_le 2 num" m] by (simp add: lpSetNumElements_def)

text \<open>The new element count, before and after the update.\<close>

definition lp_new_num :: "nat \<Rightarrow> bool \<Rightarrow> lp_where \<Rightarrow> nat" where
  "lp_new_num num delete wher =
    (if (wher \<noteq> LP_REPLACE \<or> delete) \<and> num \<noteq> LP_HDR_NUMELE_UNKNOWN
     then (if delete then num - 1 else num + 1) else num)"

lemma lpInsert_count_at:
  assumes "num < 65536" and "delete \<Longrightarrow> 0 < num"
  shows "lpInsert_count (store_le 4 t @ store_le 2 num @ m) delete wher =
    Some (store_le 4 t @ store_le 2 (lp_new_num num delete wher) @ m)"
proof -
  have "(num + 2 ^ 32 - 1) mod 2 ^ 32 = num - 1" if delete
    using assms that by (cases num) auto
  then show ?thesis
    using lpGetNumElements_at [OF assms(1)] lpSetNumElements_at
    by (simp add: lpInsert_count_def lp_new_num_def)
qed

text \<open>The entries before, at and after the cursor; the middle ones are replaced by the new entry.\<close>

definition lp_spliced :: "byte list list \<Rightarrow> lp_arg \<Rightarrow> byte list list \<Rightarrow> byte list list" where
  "lp_spliced A ele D = A @ (if ele = EleNone then [] else [lp_arg_bytes ele]) @ D"

lemma lp_num_ok_spliced:
  assumes "lp_num_ok num (A @ M @ D)" and "ele = EleNone \<Longrightarrow> wher = LP_REPLACE"
    and "length M = (if wher = LP_REPLACE then 1 else 0)"
  shows "lp_num_ok (lp_new_num num (ele = EleNone) wher) (lp_spliced A ele D)" and "num < 65536"
    and "ele = EleNone \<Longrightarrow> 0 < num"
  using assms by (auto simp: lp_num_ok_def lp_new_num_def lp_spliced_def LP_HDR_NUMELE_UNKNOWN_def split: if_splits)

lemma lp_off_append: "lp_off (A @ B) (length A) = LP_HDR_SIZE + length (lp_body A)"
  by (simp add: lp_off_def)

lemma lpInsert_replaced_rep:
  assumes "lp_rep lp (A @ M @ D)" and "wher \<noteq> LP_AFTER" and "length M = (if wher = LP_REPLACE then 1 else 0)"
  shows "lpInsert_replaced lp (LP_HDR_SIZE + length (lp_body A)) wher (lp_total (A @ M @ D)) = Some (length (lp_body M))"
proof (cases "wher = LP_REPLACE")
  case False
  then show ?thesis using assms(3) by (simp add: lpInsert_replaced_def)
next
  case True
  then obtain x where M: "M = [x]" using assms(3) by (auto simp: length_Suc_conv)
  let ?bss = "A @ x # D"
  have s: "lpCurrentEncodedSizeUnsafe lp (LP_HDR_SIZE + length (lp_body A)) = Some (length x)"
    using lp_rep_size [of lp ?bss "length A"] lp_off_append [of A "x # D"] assms(1) M by simp
  have "length (lp_entry_bytes x) < 2 ^ 32" using assms(1) M by (simp add: lp_rep_def lp_total_def)
  then have "(length x + lpEncodeBacklen_size (length x)) mod 2 ^ 32 = length (lp_entry_bytes x)"
    by (simp add: length_lp_entry_bytes)
  with s True M show ?thesis
    by (simp add: lpInsert_replaced_def Let_def lp_total_def)
qed

lemma lpInsert_move_rep:
  assumes "wher \<noteq> LP_AFTER" and "wher = LP_BEFORE \<Longrightarrow> old = []"
    and "lp = pre @ old @ tail @ rest" and "new = length (pre @ old @ tail) + e - length old" and "al_ok al new"
  obtains gap rest' where
    "lpInsert_move al lp (length pre) wher e (length old) (length (pre @ old @ tail)) new = Some (pre @ gap @ tail @ rest')"
    and "length gap = e"
proof -
  obtain lp1 lp2 gap rest' where 1: "(if new > length (pre @ old @ tail) \<and> new > length lp then zrealloc_usable al lp new else Some lp) = Some lp1"
    and 2: "memmove lp1 (length pre + e) (length pre + length old) (length tail) = Some lp2"
    and 3: "(if new < length (pre @ old @ tail) then zrealloc_usable al lp2 new else Some lp2) = Some (pre @ gap @ tail @ rest')"
    and 4: "length gap = e"
    by (rule lp_make_room [OF assms(3) refl refl refl assms(4,5)])
  have "(if wher = LP_BEFORE then memmove lp1 (length pre + e) (length pre) (length (pre @ old @ tail) - length pre)
      else memmove lp1 (length pre + e) (length pre + length old) (length (pre @ old @ tail) - length pre - length old)) = Some lp2"
    using 2 assms(2) by (cases "wher = LP_BEFORE") auto
  with 1 3 4 show thesis
    by (intro that [of gap rest']) (simp_all only: lpInsert_move_def Option.bind.simps)
qed

text \<open>
  \<open>lpInsert\<close> on a well-formed listpack splices the list of entries; the result is \<^verbatim>\<open>NULL\<close> just when the
  new size does not fit the header.
\<close>

definition lp_inserted :: "(mem \<times> nat option) option option \<Rightarrow> byte list list \<Rightarrow> nat option \<Rightarrow> bool" where
  "lp_inserted r bss newp \<longleftrightarrow>
    (if lp_total bss \<ge> 2 ^ 32 then r = Some None
     else \<exists>lp'. r = Some (Some (lp', newp)) \<and> lp_rep lp' bss)"

lemma lp_entries_append [simp]:
  "lp_entries [] \<longleftrightarrow> True" "lp_entries (x # A) \<longleftrightarrow> (\<exists>v. lp_entry x v) \<and> lp_entries A"
  "lp_entries (A @ B) \<longleftrightarrow> lp_entries A \<and> lp_entries B"
  by (auto simp: lp_entries_def)

lemma lp_total_spliced:
  "lp_total (lp_spliced A ele D) = lp_total (A @ M @ D) + length (lp_arg_bytes ele) +
     length (if \<not> (ele = EleNone) then lpEncodeBacklen (length (lp_arg_bytes ele)) else []) - length (lp_body M)"
  by (simp add: lp_total_def lp_spliced_def length_lp_entry_bytes lp_arg_bytes_def)

lemma lp_rep_at_header:
  "lp_rep (store_le 4 (lp_total bss) @ store_le 2 num @ lp_body bss @ [LP_EOF] @ rest) bss \<longleftrightarrow>
     lp_entries bss \<and> lp_total bss < 2 ^ 32 \<and> lp_num_ok num bss" if "lp_num_ok num bss"
  using that by (auto simp: lp_rep_def lp_image_def)

lemma lpInsert_at_rep:
  assumes rep: "lp_rep lp (A @ M @ D)" and wher: "wher \<noteq> LP_AFTER" "ele = EleNone \<Longrightarrow> wher = LP_REPLACE"
    and M: "length M = (if wher = LP_REPLACE then 1 else 0)" and ok: "lp_arg_ok ele"
    and p: "p = LP_HDR_SIZE + length (lp_body A)" and al: "al_ok al (lp_total (lp_spliced A ele D))"
  shows "lp_inserted (lpInsert_at al lp ele p wher) (lp_spliced A ele D)
    (if ele = EleNone \<and> D = [] then None else Some p)"
proof -
  let ?bss = "A @ M @ D" and ?bss' = "lp_spliced A ele D" and ?n = "length (lp_arg_bytes ele)"
  let ?bl = "if \<not> (ele = EleNone) then lpEncodeBacklen ?n else []"
  note new = lp_total_spliced [of A ele D M, symmetric]
  have repl: "lpInsert_replaced lp p wher (lp_total ?bss) = Some (length (lp_body M))"
    unfolding p by (rule lpInsert_replaced_rep [OF rep wher(1) M])
  show ?thesis
  proof (cases "lp_total ?bss' \<ge> 2 ^ 32")
    case True
    then have "lpInsert_at al lp ele p wher = Some None"
      unfolding lpInsert_at_def Let_def lpInsert_enc_len lp_rep_bytes [OF rep] Option.bind.simps repl new by simp
    with True show ?thesis by (simp add: lp_inserted_def)
  next
    case False
    from rep obtain num rest where num: "lp_num_ok num ?bss" and lp: "lp = lp_image num ?bss @ rest"
      by (auto simp: lp_rep_def)
    let ?num' = "lp_new_num num (ele = EleNone) wher"
    let ?pre = "store_le 4 (lp_total ?bss) @ store_le 2 num @ lp_body A" and ?tail = "lp_body D @ [LP_EOF]"
    have lp: "lp = ?pre @ lp_body M @ ?tail @ rest" by (simp add: lp lp_image_def)
    have tot: "length (?pre @ lp_body M @ ?tail) = lp_total ?bss" and p': "length ?pre = p"
      by (simp_all add: lp_total_def p LP_HDR_SIZE_def)
    have bm: "wher = LP_BEFORE \<Longrightarrow> lp_body M = []" using M by simp
    have new': "lp_total ?bss' = length (?pre @ lp_body M @ ?tail) + (?n + length ?bl) - length (lp_body M)"
      unfolding tot add.assoc [symmetric] by (rule lp_total_spliced)
    obtain gap rest' where mv: "lpInsert_move al lp (length ?pre) wher (?n + length ?bl) (length (lp_body M))
        (length (?pre @ lp_body M @ ?tail)) (lp_total ?bss') = Some (?pre @ gap @ ?tail @ rest')"
      and gap: "length gap = ?n + length ?bl"
      by (rule lpInsert_move_rep [OF wher(1) bm lp new' al])
    note mv = mv [unfolded tot p']
    have st: "lpInsert_store (?pre @ gap @ ?tail @ rest') p ele (lpInsert_enc ele) ?n ?bl =
        Some (store_le 4 (lp_total ?bss) @ store_le 2 num @ lp_body ?bss' @ [LP_EOF] @ rest')"
    proof (cases "ele = EleNone")
      case True
      then have "gap = []" using gap by (simp add: lp_arg_bytes_def)
      with True show ?thesis by (simp add: lpInsert_store_def lp_spliced_def)
    next
      case False
      with lpInsert_store_eq [OF gap, of p ?pre "?tail @ rest'"] p' show ?thesis
        by (simp add: lp_spliced_def lp_entry_bytes_def)
    qed
    have cnt: "lp_num_ok ?num' ?bss'" "num < 65536" "ele = EleNone \<Longrightarrow> 0 < num"
      using lp_num_ok_spliced [OF num _ M, of ele] wher(2) by blast+
    have ct: "lpInsert_count (store_le 4 t @ store_le 2 num @ m) (ele = EleNone) wher =
        Some (store_le 4 t @ store_le 2 ?num' @ m)" for t m
      by (rule lpInsert_count_at [OF cnt(2)]) (rule cnt(3))
    have rdp: "ele = EleNone \<Longrightarrow> \<exists>b. rd (?pre @ gap @ ?tail @ rest') p = Some b \<and> (b = LP_EOF \<longleftrightarrow> D = [])"
    proof -
      assume del: "ele = EleNone"
      then have "gap = []" using gap by (simp add: lp_arg_bytes_def)
      moreover have "\<exists>b. rd (lp_body D @ LP_EOF # rest') 0 = Some b \<and> (b = LP_EOF \<longleftrightarrow> D = [])"
      proof (cases D)
        case (Cons x D')
        then obtain v where "lp_entry x v" using rep by (auto simp: lp_rep_def)
        with Cons show ?thesis using lp_entry_not_EOF [of x v] lp_entry_length [of x v]
          by (cases x) (auto simp: rd_def lp_entry_bytes_def)
      qed (simp add: rd_def)
      ultimately show ?thesis using p' by (simp add: rd_append_right)
    qed
    then obtain newp where np: "(if ele = EleNone then do { b \<leftarrow> rd (?pre @ gap @ ?tail @ rest') p; Some (if b = LP_EOF then None else Some p) }
        else Some (Some p)) = Some newp" "newp = (if ele = EleNone \<and> D = [] then None else Some p)"
      by (cases "ele = EleNone") auto
    have "lpInsert_at al lp ele p wher =
        Some (Some (store_le 4 (lp_total ?bss') @ store_le 2 ?num' @ lp_body ?bss' @ [LP_EOF] @ rest', newp))"
      unfolding lpInsert_at_def Let_def lpInsert_enc_len lp_rep_bytes [OF rep] Option.bind.simps repl new mv st
        np(1) ct lpSetTotalBytes_at using False by simp
    moreover have "lp_entries ?bss'"
    proof -
      have "?n < 4294967296" if "ele \<noteq> EleNone"
        using False that by (simp add: lp_total_def lp_spliced_def length_lp_entry_bytes)
      then show ?thesis using rep lp_arg_entry [OF ok] by (auto simp: lp_spliced_def lp_rep_def)
    qed
    ultimately show ?thesis
      using False cnt(1) np(2) lp_rep_at_header [OF cnt(1)] by (simp add: lp_inserted_def)
  qed
qed

subsection \<open>The operations as list operations\<close>

lemma lp_off_take: "LP_HDR_SIZE + length (lp_body (take i bss)) = lp_off bss i"
  by (simp add: lp_off_def)

lemma lpInsert_before:
  assumes "lp_rep lp bss" and "i \<le> length bss" and "ele \<noteq> EleNone" and "lp_arg_ok ele"
    and "al_ok al (lp_total (take i bss @ lp_arg_bytes ele # drop i bss))"
  shows "lp_inserted (lpInsert al lp ele (lp_off bss i) LP_BEFORE)
    (take i bss @ lp_arg_bytes ele # drop i bss) (Some (lp_off bss i))"
  using lpInsert_at_rep [of lp "take i bss" "[]" "drop i bss" LP_BEFORE ele _ al] assms
  by (simp add: lpInsert_def Let_def lp_off_take lp_spliced_def)

lemma lpInsert_after:
  assumes "lp_rep lp bss" and "i < length bss" and "ele \<noteq> EleNone" and "lp_arg_ok ele"
    and "al_ok al (lp_total (take (Suc i) bss @ lp_arg_bytes ele # drop (Suc i) bss))"
  shows "lp_inserted (lpInsert al lp ele (lp_off bss i) LP_AFTER)
    (take (Suc i) bss @ lp_arg_bytes ele # drop (Suc i) bss) (Some (lp_off bss (Suc i)))"
proof -
  have "lpInsert al lp ele (lp_off bss i) LP_AFTER = lpInsert al lp ele (lp_off bss (Suc i)) LP_BEFORE"
    using lpSkip_rep [OF assms(1,2)] lp_rep_bytes [OF assms(1)] lp_off_ge [of bss "Suc i"]
      lp_off_less [of "Suc i" bss] assms(2,3) by (simp add: lpInsert_def)
  with lpInsert_before [of lp bss "Suc i" ele al] assms show ?thesis by simp
qed

lemma lpInsert_replace:
  assumes "lp_rep lp bss" and "i < length bss" and "ele \<noteq> EleNone" and "lp_arg_ok ele"
    and "al_ok al (lp_total (bss[i := lp_arg_bytes ele]))"
  shows "lp_inserted (lpInsert al lp ele (lp_off bss i) LP_REPLACE) (bss[i := lp_arg_bytes ele]) (Some (lp_off bss i))"
proof -
  have "take i bss @ [bss ! i] @ drop (Suc i) bss = bss" using assms(2) by (simp add: id_take_nth_drop [symmetric])
  moreover have "bss[i := lp_arg_bytes ele] = lp_spliced (take i bss) ele (drop (Suc i) bss)"
    using assms(2,3) by (simp add: lp_spliced_def upd_conv_take_nth_drop)
  ultimately show ?thesis
    using lpInsert_at_rep [of lp "take i bss" "[bss ! i]" "drop (Suc i) bss" LP_REPLACE ele _ al] assms
    by (simp add: lpInsert_def lp_off_take)
qed

lemma lpDelete_rep:
  assumes "lp_rep lp bss" and "i < length bss" and "al_ok al (lp_total (take i bss @ drop (Suc i) bss))"
  obtains lp' where "lpDelete al lp (lp_off bss i) = Some (Some (lp', lp_pos (take i bss @ drop (Suc i) bss) i))"
    and "lp_rep lp' (take i bss @ drop (Suc i) bss)"
proof -
  let ?bss' = "take i bss @ drop (Suc i) bss"
  have bss: "take i bss @ [bss ! i] @ drop (Suc i) bss = bss" using assms(2) by (simp add: id_take_nth_drop [symmetric])
  have "lp_inserted (lpDelete al lp (lp_off bss i)) ?bss' (if drop (Suc i) bss = [] then None else Some (lp_off bss i))"
    using lpInsert_at_rep [of lp "take i bss" "[bss ! i]" "drop (Suc i) bss" LP_REPLACE EleNone _ al] assms bss
    by (simp add: lpDelete_def lpInsert_def Let_def lp_off_take lp_spliced_def lp_arg_ok_def)
  moreover have "lp_total ?bss' < 2 ^ 32"
  proof -
    have "lp_total ?bss' \<le> lp_total (take i bss @ [bss ! i] @ drop (Suc i) bss)" by (simp add: lp_total_def)
    then show ?thesis using assms(1) bss by (simp add: lp_rep_def)
  qed
  moreover have "lp_pos ?bss' i = (if drop (Suc i) bss = [] then None else Some (lp_off bss i))"
    using assms(2) by (auto simp: lp_pos_def lp_off_def min_def)
  ultimately show thesis using that by (auto simp: lp_inserted_def)
qed

lemma lpAppend_rep:
  assumes "lp_rep lp bss" and "al_ok al (lp_total (bss @ [lp_arg_bytes (EleStr s)]))"
    and "lp_total (bss @ [lp_arg_bytes (EleStr s)]) < 2 ^ 32"
  obtains lp' where "lpAppend al lp s = Some (Some lp')" and "lp_rep lp' (bss @ [lp_arg_bytes (EleStr s)])"
proof -
  have "lp_total bss - 1 = lp_off bss (length bss)" and "lp_total bss \<noteq> 0"
    using lp_off_length [of bss] by auto
  then have "lpAppend al lp s = map_option (map_option fst) (lpInsert al lp (EleStr s) (lp_off bss (length bss)) LP_BEFORE)"
    using lp_rep_bytes [OF assms(1)] by (simp add: lpAppend_def)
  then show thesis
    using lpInsert_before [OF assms(1), of "length bss" "EleStr s" al] assms(2,3) that
    by (auto simp: lp_inserted_def lp_arg_ok_def)
qed

lemma lpPrepend_rep:
  assumes "lp_rep lp bss" and "al_ok al (lp_total (lp_arg_bytes (EleStr s) # bss))"
    and "lp_total (lp_arg_bytes (EleStr s) # bss) < 2 ^ 32"
  obtains lp' where "lpPrepend al lp s = Some (Some lp')" and "lp_rep lp' (lp_arg_bytes (EleStr s) # bss)"
proof (cases "bss = []")
  case True
  then show thesis
    using lpFirst_rep [OF assms(1)] lpAppend_rep [of lp bss al s] assms that by (auto simp: lpPrepend_def lp_pos_def)
next
  case False
  then have "lpPrepend al lp s = map_option (map_option fst) (lpInsert al lp (EleStr s) (lp_off bss 0) LP_BEFORE)"
    using lpFirst_rep [OF assms(1)] by (simp add: lpPrepend_def lp_pos_def)
  then show thesis
    using lpInsert_before [OF assms(1), of 0 "EleStr s" al] assms(2,3) that
    by (auto simp: lp_inserted_def lp_arg_ok_def)
qed

lemma lpNew_rep:
  assumes "al_ok al (if capacity > LP_HDR_SIZE + 1 then capacity else LP_HDR_SIZE + 1)"
  obtains lp where "lpNew al capacity = Some lp" and "lp_rep lp []"
proof -
  let ?n = "if capacity > LP_HDR_SIZE + 1 then capacity else LP_HDR_SIZE + 1"
  obtain m where m: "zmalloc_usable al ?n = Some m" "7 \<le> length m"
    using assms by (auto simp: zmalloc_usable_def resize_block_def LP_HDR_SIZE_def)
  obtain a m1 where a: "m = a @ m1" "length a = 4"
    using m(2) by (intro that [of "take 4 m" "drop 4 m"]) auto
  obtain b m2 where b: "m1 = b @ m2" "length b = 2"
    using m(2) a by (intro that [of "take 2 m1" "drop 2 m1"]) auto
  obtain c d where c: "m2 = c @ d" "length c = 1"
    using m(2) a b by (intro that [of "take 1 m2" "drop 1 m2"]) auto
  note abc = a(1) [unfolded b(1) c(1)] and l = a(2) b(2) c(2)
  have "lpNew al capacity = Some (store_le 4 7 @ store_le 2 0 @ [LP_EOF] @ d)"
    using m(1) abc l
    by (simp add: lpNew_def lpSetTotalBytes_def lpSetNumElements_def wr_def LP_HDR_SIZE_def)
  moreover have "lp_rep (store_le 4 7 @ store_le 2 0 @ [LP_EOF] @ d) []"
    by (auto simp: lp_rep_def lp_num_ok_def lp_image_def lp_total_def LP_HDR_SIZE_def LP_HDR_NUMELE_UNKNOWN_def)
  ultimately show thesis by (rule that)
qed

subsection \<open>Values of entries\<close>

text \<open>The value of an entry body, and its text: what a caller with an \<^verbatim>\<open>intbuf\<close> reads.\<close>

definition lp_value :: "byte list \<Rightarrow> int + byte list" where
  "lp_value bs =
    (case lpGetWithSize bs 0 None of
       Some (PLp q, n, _) \<Rightarrow> Inr (take (nat n) (drop q bs))
     | Some (_, v, _) \<Rightarrow> Inl v
     | None \<Rightarrow> Inl 0)"

definition lp_text :: "byte list \<Rightarrow> byte list" where
  "lp_text bs = (case lp_value bs of Inl v \<Rightarrow> sdec v | Inr s \<Rightarrow> s)"

lemma lp_entry_suffix:
  assumes "lp_entry bs (Inr s)"
  shows "drop (length bs - length s) bs = s" and "length s \<le> length bs"
  using assms by (auto elim!: lp_entry.cases)

lemma lp_entry_i64:
  assumes "lp_entry bs (Inl v)"
  shows "in_i64 v"
proof -
  have r: "in_i64 (load_signed r)" if "r \<noteq> []" "length r \<le> 8" for r
  proof -
    have "in_signed (8 * length r) (load_signed r)" using in_signed_load_signed [OF that(1)] .
    then have "in_signed (8 * 8) (load_signed r)" by (rule in_signed_mono) (rule that(2))
    then show ?thesis by simp
  qed
  from assms show ?thesis
  proof (cases rule: lp_entry.cases)
    case (int13 b h u c)
    then have u: "u < 8192" using unat_byte [of c] by simp
    show ?thesis unfolding in_i64_iff using int13(2) u by (auto split: if_splits)
  next
    case (int7 b u)
    then show ?thesis by (simp add: in_i64_iff)
  qed (auto intro!: r)
qed

lemma lp_entry_value:
  assumes "lp_entry bs v"
  shows "lp_value bs = v"
proof -
  have "lp_at bs 0 bs" by (simp add: lp_at_def rdn_def)
  from lpGetWithSize_entry [OF assms this] show ?thesis
    using assms lp_entry_suffix [of bs] by (cases v) (auto simp: lp_value_def lp_get_result_def)
qed

lemma lp_rep_value:
  assumes "lp_rep lp bss" and "i < length bss"
  shows "lpGetWithSize lp (lp_off bss i) None = Some (lp_get_result (lp_off bss i) (bss ! i) (lp_value (bss ! i)))"
proof -
  obtain v where v: "lp_entry (bss ! i) v" using assms lp_entriesD by (auto simp: lp_rep_def)
  then show ?thesis using lpGetWithSize_entry [OF v lp_rep_at_body [OF assms]] lp_entry_value [OF v] by simp
qed

lemma lpGet_int_buf:
  "lpGet_int u a b (Some buf) = do {
     (r, c) \<leftarrow> lpGet_int u a b None;
     (buf, n) \<leftarrow> ll2string buf 0 LP_INTBUF_SIZE c;
     Some (PBuf buf, int n)
   }"
  by (simp add: lpGet_int_def Let_def)

lemma lpGetWithSize_buf:
  "lpGetWithSize m p (Some buf) = do {
     (r, c, e) \<leftarrow> lpGetWithSize m p None;
     if r = PNull then do { (buf, n) \<leftarrow> ll2string buf 0 LP_INTBUF_SIZE c; Some (PBuf buf, int n, e) }
     else Some (r, c, e)
   }"
proof (cases "rd m p")
  case (Some b)
  have int: "do { (r, c) \<leftarrow> lpGet_int u x y (Some buf); Some (r, c, e) } = do {
     (r, c, e) \<leftarrow> do { (r, c) \<leftarrow> lpGet_int u x y None; Some (r, c, e) };
     if r = PNull then do { (buf, n) \<leftarrow> ll2string buf 0 LP_INTBUF_SIZE c; Some (PBuf buf, int n, e) }
     else Some (r, c, e)
   }" for u x y e
    by (cases "ll2string buf 0 LP_INTBUF_SIZE (if u \<ge> x then - int (y - u) - 1 else int u)")
      (auto simp: lpGet_int_def Let_def split: option.splits)
  show ?thesis
    unfolding lpGetWithSize_def Some Option.bind.simps int
    by (cases "rd m (p + 1)"; cases "rdn m (p + 1) 2"; cases "rdn m (p + 1) 3"; cases "rdn m (p + 1) 4"; cases "rdn m (p + 1) 8")
      (simp_all add: Let_def)
qed (simp add: lpGetWithSize_def)


text \<open>The caller's view of \<open>lpGet\<close> with a buffer: the bytes of the returned string.\<close>

definition lp_read :: "mem \<Rightarrow> nat \<Rightarrow> mem \<Rightarrow> byte list option" where
  "lp_read lp p intbuf = do {
     (r, n) \<leftarrow> lpGet lp p (Some intbuf);
     case r of
       PBuf buf \<Rightarrow> rdn buf 0 (nat n)
     | PLp q \<Rightarrow> rdn lp q (nat n)
     | PNull \<Rightarrow> None
   }"

lemma lp_read_rep:
  assumes "lp_rep lp bss" and "i < length bss" and "LP_INTBUF_SIZE \<le> length intbuf"
  shows "lp_read lp (lp_off bss i) intbuf = Some (lp_text (bss ! i))"
proof -
  let ?bs = "bss ! i"
  obtain v where v: "lp_entry ?bs v" using assms lp_entriesD by (auto simp: lp_rep_def)
  note val = lp_entry_value [OF v]
  note get = lp_rep_value [OF assms(1,2)]
  show ?thesis
  proof (cases v)
    case (Inl k)
    then have k: "in_i64 k" using lp_entry_i64 v by simp
    then have "length (sdec k) < LP_INTBUF_SIZE" using length_sdec_i64 [OF k] by (simp add: LP_INTBUF_SIZE_def)
    from ll2string_fits [OF this, of 0 intbuf] k assms(3) show ?thesis
      using get Inl val
      by (simp add: lp_read_def lpGet_def lpGetWithSize_buf lp_get_result_def lp_text_def rdn_def)
  next
    case (Inr s)
    obtain pre post where lp: "lp = pre @ ?bs @ post" "length pre = lp_off bss i"
      using lp_rep_at_body [OF assms(1,2)] by (rule lp_atE)
    have bs: "?bs = take (length ?bs - length s) ?bs @ s"
      using lp_entry_suffix [OF v [unfolded Inr]] by (metis append_take_drop_id)
    have "rdn lp (lp_off bss i + (length ?bs - length s)) (length s) = Some s"
    proof -
      have "lp = (pre @ take (length ?bs - length s) ?bs) @ s @ post" using lp(1) bs by simp
      then show ?thesis using lp(2) by (metis rdn_at diff_le_self length_append length_take min.absorb2)
    qed
    then show ?thesis
      using get Inr val by (simp add: lp_read_def lpGet_def lpGetWithSize_buf lp_get_result_def lp_text_def)
  qed
qed

lemma lp_text_arg:
  assumes "length (lp_arg_bytes (EleStr s)) < 4294967296"
  shows "lp_text (lp_arg_bytes (EleStr s)) = s"
proof (cases "lpStringToInt64 s")
  case None
  then have b: "lp_arg_bytes (EleStr s) = lp_str_bytes s" by (simp add: lp_arg_bytes_def)
  have "5 + length s < 2 ^ 32" using assms b by (auto simp: lp_str_bytes_def Let_def split: if_splits)
  then show ?thesis using lp_entry_value [OF lp_str_entry] b by (simp add: lp_text_def)
next
  case (Some v)
  then have v: "in_i64 v" "sdec v = s"
    using ll_text.parse_range [of s v] ll_text.print_parse [of s v] by (simp_all add: lpStringToInt64_eq)
  then show ?thesis
    using lp_entry_value [OF lpEncodeInteger_entry [OF v(1)]] Some by (simp add: lp_arg_bytes_def lp_text_def)
qed

subsection \<open>The sequence interface\<close>

text \<open>
  What the users of a listpack rely on: a sequence of byte strings that grows at both ends and is read
  by index, within a limit on the bytes used. \<open>rep\<close> relates an implementation to the sequence.
\<close>

locale byte_seq =
  fixes env :: "'e \<Rightarrow> bool" and rep :: "'s \<Rightarrow> byte list list \<Rightarrow> bool" and weight :: "'s \<Rightarrow> nat" and limit overhead base :: nat
    and new :: "'e \<Rightarrow> 's option"
    and push_back :: "'e \<Rightarrow> 's \<Rightarrow> byte list \<Rightarrow> 's option option"
    and push_front :: "'e \<Rightarrow> 's \<Rightarrow> byte list \<Rightarrow> 's option option"
    and get :: "'s \<Rightarrow> int \<Rightarrow> byte list option option"
  assumes new: "env e \<Longrightarrow> \<exists>s. new e = Some s \<and> rep s [] \<and> weight s = base"
    and push_back: "env e \<Longrightarrow> rep s xs \<Longrightarrow> weight s + length x + overhead < limit \<Longrightarrow>
      \<exists>s'. push_back e s x = Some (Some s') \<and> rep s' (xs @ [x]) \<and> weight s' \<le> weight s + length x + overhead"
    and push_front: "env e \<Longrightarrow> rep s xs \<Longrightarrow> weight s + length x + overhead < limit \<Longrightarrow>
      \<exists>s'. push_front e s x = Some (Some s') \<and> rep s' (x # xs) \<and> weight s' \<le> weight s + length x + overhead"
    and get: "rep s xs \<Longrightarrow> get s i =
      Some (let k = (if i < 0 then int (length xs) + i else i) in
            if 0 \<le> k \<and> k < int (length xs) then Some (xs ! nat k) else None)"

text \<open>A client: a sequence of pushes at either end.\<close>

datatype push = Back (item: "byte list") | Front (item: "byte list")

fun run_pushes :: "('s \<Rightarrow> byte list \<Rightarrow> 's option option) \<Rightarrow> ('s \<Rightarrow> byte list \<Rightarrow> 's option option) \<Rightarrow>
    's \<Rightarrow> push list \<Rightarrow> 's option option" where
  "run_pushes back front s [] = Some (Some s)"
| "run_pushes back front s (c # cs) =
    (case (case c of Back x \<Rightarrow> back s x | Front x \<Rightarrow> front s x) of
       Some (Some s) \<Rightarrow> run_pushes back front s cs
     | r \<Rightarrow> r)"

fun spec_pushes :: "byte list list \<Rightarrow> push list \<Rightarrow> byte list list" where
  "spec_pushes xs [] = xs"
| "spec_pushes xs (Back x # cs) = spec_pushes (xs @ [x]) cs"
| "spec_pushes xs (Front x # cs) = spec_pushes (x # xs) cs"

context byte_seq
begin

lemma run_pushes_refines:
  assumes "env e" and "rep s xs" and "weight s + (\<Sum>c \<leftarrow> cs. length (item c) + overhead) < limit"
  shows "\<exists>s'. run_pushes (push_back e) (push_front e) s cs = Some (Some s') \<and> rep s' (spec_pushes xs cs)"
  using assms(2,3)
proof (induction cs arbitrary: s xs)
  case (Cons c cs)
  have room: "weight s + length (item c) + overhead < limit" using Cons.prems(2) by simp
  show ?case
  proof (cases c)
    case (Back x)
    then obtain s1 where s1: "push_back e s x = Some (Some s1)" "rep s1 (xs @ [x])" "weight s1 \<le> weight s + length x + overhead"
      using push_back [OF assms(1) Cons.prems(1)] room by auto
    with Cons.IH [OF s1(2)] Cons.prems(2) Back show ?thesis by simp
  next
    case (Front x)
    then obtain s1 where s1: "push_front e s x = Some (Some s1)" "rep s1 (x # xs)" "weight s1 \<le> weight s + length x + overhead"
      using push_front [OF assms(1) Cons.prems(1)] room by auto
    with Cons.IH [OF s1(2)] Cons.prems(2) Front show ?thesis by simp
  qed
qed simp

lemma get_after_pushes:
  assumes "env e" and "base + (\<Sum>c \<leftarrow> cs. length (item c) + overhead) < limit"
  shows "\<exists>s0 s. new e = Some s0 \<and> run_pushes (push_back e) (push_front e) s0 cs = Some (Some s) \<and>
    (\<forall>k < length (spec_pushes [] cs). get s (int k) = Some (Some (spec_pushes [] cs ! k))) \<and>
    get s (int (length (spec_pushes [] cs))) = Some None"
proof -
  obtain s0 where s0: "new e = Some s0" "rep s0 []" "weight s0 = base" using new [OF assms(1)] by blast
  then obtain s where "run_pushes (push_back e) (push_front e) s0 cs = Some (Some s)" "rep s (spec_pushes [] cs)"
    using run_pushes_refines [OF assms(1) s0(2), of cs] assms(2) by auto
  with s0(1) get show ?thesis by (auto simp: Let_def)
qed

end

subsubsection \<open>The listpack as a sequence\<close>

definition lp_seq :: "mem \<Rightarrow> byte list list \<Rightarrow> bool" where
  "lp_seq lp xs \<longleftrightarrow> (\<exists>bss. lp_rep lp bss \<and> xs = map lp_text bss)"

definition lp_weight :: "mem \<Rightarrow> nat" where
  "lp_weight lp = (case lpGetTotalBytes lp of Some n \<Rightarrow> n | None \<Rightarrow> 0)"

text \<open>Seek and read through a caller's buffer.\<close>

definition lp_nth :: "mem \<Rightarrow> int \<Rightarrow> byte list option option" where
  "lp_nth lp index = do {
     p \<leftarrow> lpSeek lp index;
     case p of
       None \<Rightarrow> Some None
     | Some p \<Rightarrow> map_option Some (lp_read lp p (replicate LP_INTBUF_SIZE 0))
   }"

lemma length_lp_arg: "length (lp_arg_bytes (EleStr s)) \<le> length s + 9"
proof (cases "lpStringToInt64 s")
  case None
  then show ?thesis by (simp add: lp_arg_bytes_def lp_str_bytes_def Let_def)
next
  case (Some v)
  then show ?thesis by (simp add: lp_arg_bytes_def lpEncodeIntegerGetType_def Let_def)
qed

lemma lp_total_Cons: "lp_total (lp_arg_bytes (EleStr s) # bss) \<le> lp_total bss + length s + 14"
  using length_lp_arg [of s] lpEncodeBacklen_size_bounds(2) [of "length (lp_arg_bytes (EleStr s))"]
  by (simp add: lp_total_def length_lp_entry_bytes)

lemma lp_total_snoc: "lp_total (bss @ [lp_arg_bytes (EleStr s)]) = lp_total (lp_arg_bytes (EleStr s) # bss)"
  by (simp add: lp_total_def)

lemma lp_weight_rep: "lp_rep lp bss \<Longrightarrow> lp_weight lp = lp_total bss"
  by (simp add: lp_weight_def lp_rep_bytes)

lemma lp_text_fits:
  "lp_total (lp_arg_bytes (EleStr s) # bss) < 4294967296 \<Longrightarrow> lp_text (lp_arg_bytes (EleStr s)) = s"
  by (rule lp_text_arg) (simp add: lp_total_def length_lp_entry_bytes)

interpretation lp: byte_seq total_al lp_seq lp_weight "2 ^ 32" 14 7
  "\<lambda>al. lpNew al 0" lpAppend lpPrepend lp_nth
proof unfold_locales
  fix al assume "total_al al"
  then obtain lp where "lpNew al 0 = Some lp" "lp_rep lp []"
    using lpNew_rep [of al 0] by (auto simp: total_al_def)
  then show "\<exists>s. lpNew al 0 = Some s \<and> lp_seq s [] \<and> lp_weight s = 7"
    by (auto simp: lp_seq_def lp_weight_rep lp_total_def LP_HDR_SIZE_def)
next
  fix al s xs and x :: "byte list"
  assume a: "total_al al" "lp_seq s xs" "lp_weight s + length x + 14 < 2 ^ 32"
  then obtain bss where bss: "lp_rep s bss" "xs = map lp_text bss" by (auto simp: lp_seq_def)
  let ?b = "lp_arg_bytes (EleStr x)"
  have w: "lp_total (?b # bss) \<le> lp_weight s + length x + 14"
    using lp_total_Cons [of x bss] lp_weight_rep [OF bss(1)] by simp
  then have fit: "lp_total (?b # bss) < 2 ^ 32" using a(3) by simp
  then have tx: "lp_text ?b = x" using lp_text_fits [of x bss] by simp
  obtain s' where "lpAppend al s x = Some (Some s')" "lp_rep s' (bss @ [?b])"
    using lpAppend_rep [OF bss(1), of al x] fit a(1) by (auto simp: total_al_def lp_total_snoc)
  then show "\<exists>s'. lpAppend al s x = Some (Some s') \<and> lp_seq s' (xs @ [x]) \<and> lp_weight s' \<le> lp_weight s + length x + 14"
    using bss(2) tx w lp_weight_rep by (fastforce simp: lp_seq_def lp_total_snoc)
  obtain s' where "lpPrepend al s x = Some (Some s')" "lp_rep s' (?b # bss)"
    using lpPrepend_rep [OF bss(1), of al x] fit a(1) by (auto simp: total_al_def)
  then show "\<exists>s'. lpPrepend al s x = Some (Some s') \<and> lp_seq s' (x # xs) \<and> lp_weight s' \<le> lp_weight s + length x + 14"
    using bss(2) tx w lp_weight_rep by (fastforce simp: lp_seq_def)
next
  fix s xs and i :: int
  assume "lp_seq s xs"
  then obtain bss where bss: "lp_rep s bss" "xs = map lp_text bss" by (auto simp: lp_seq_def)
  then show "lp_nth s i = Some (let k = (if i < 0 then int (length xs) + i else i) in
      if 0 \<le> k \<and> k < int (length xs) then Some (xs ! nat k) else None)"
    using lpSeek_rep [OF bss(1), of i] lp_read_rep [OF bss(1)]
    by (auto simp: lp_nth_def lp_index_def Let_def nat_less_iff)
qed

subsection \<open>Properties\<close>

text \<open>C5: from a fresh listpack, any sequence of \<open>lpAppend\<close> and \<open>lpPrepend\<close> calls whose strings fit
  in 4 GiB succeeds, and \<open>lpSeek\<close> followed by \<open>lpGet\<close> then reads back, at every index, exactly the string
  that the list of the pushes has there, whichever of the integer and string encodings was chosen for it.\<close>

theorem lp_pushes_read_back:
  assumes "total_al al" and "7 + (\<Sum>c \<leftarrow> cs. length (item c) + 14) < 2 ^ 32"
  shows "\<exists>lp0 lp. lpNew al 0 = Some lp0 \<and> run_pushes (lpAppend al) (lpPrepend al) lp0 cs = Some (Some lp) \<and>
    (\<forall>k < length (spec_pushes [] cs). lp_nth lp (int k) = Some (Some (spec_pushes [] cs ! k))) \<and>
    lp_nth lp (int (length (spec_pushes [] cs))) = Some None"
  using lp.get_after_pushes [OF assms] .

theorem lp_pushes_read_back_witness:
  "\<exists>lp0 lp. lpNew calm_al 0 = Some lp0 \<and>
    run_pushes (lpAppend calm_al) (lpPrepend calm_al) lp0 [Back [49, 50], Front [97], Back []] = Some (Some lp) \<and>
    lp_nth lp 0 = Some (Some [97]) \<and> lp_nth lp 1 = Some (Some [49, 50]) \<and> lp_nth lp 2 = Some (Some [])"
proof -
  let ?cs = "[Back [49, 50], Front [97], Back []]"
  have "spec_pushes [] ?cs = [[97], [49, 50], []]" by simp
  moreover have "7 + (\<Sum>c \<leftarrow> ?cs. length (item c) + 14) < (2 ^ 32 :: nat)" by simp
  ultimately show ?thesis
    using lp_pushes_read_back [OF total_calm_al, of ?cs] by (simp only:) (auto simp: All_less_Suc)
qed


text \<open>The examples use a listpack with the entries 5 and \<open>a\<close>.\<close>

definition lp_ex_entries :: "byte list list" where "lp_ex_entries = [[5], [0x81, 97]]"

definition lp_ex :: mem where "lp_ex = lp_image 2 lp_ex_entries"

lemma lp_ex_rep: "lp_rep lp_ex lp_ex_entries"
proof -
  have "lp_entries lp_ex_entries"
    using lp_entry.int7 [of 5 5] lp_entry.str6 [of "0x81" "[97]"] by (auto simp: lp_ex_entries_def)
  moreover have "lp_num_ok 2 lp_ex_entries" and "lp_total lp_ex_entries < 2 ^ 32"
    by (simp_all add: lp_ex_entries_def lp_num_ok_def lp_total_def length_lp_entry_bytes
        LP_HDR_NUMELE_UNKNOWN_def LP_HDR_SIZE_def lpEncodeBacklen_size_def)
  moreover have "lp_ex = lp_image 2 lp_ex_entries @ []" by (simp add: lp_ex_def)
  ultimately show ?thesis unfolding lp_rep_def by blast
qed

text \<open>C9: on every well-formed listpack, element count known or not, \<open>lpSeek\<close> finds the entry of a signed
  index and NULL out of range, \<open>lpFirst\<close>, \<open>lpLast\<close>, \<open>lpNext\<close> and \<open>lpPrev\<close> step through the entries in order,
  and none of them reads outside the block or trips an assertion.\<close>

theorem lp_navigation:
  assumes "lp_rep lp bss"
  shows "lpSeek lp index = Some (lp_index bss index) \<and>
    lpFirst lp = Some (lp_index bss 0) \<and> lpLast lp = Some (lp_index bss (- 1)) \<and>
    (\<forall>i < length bss. lpNext lp (lp_off bss i) = Some (lp_index bss (int i + 1)) \<and>
       lpPrev lp (lp_off bss i) = Some (if i = 0 then None else lp_index bss (int i - 1)))"
proof -
  have "lpPrev lp (lp_off bss i) = Some (if i = 0 then None else lp_index bss (int i - 1))" if "i < length bss" for i
    using lpPrev_rep [OF assms, of i] that by (auto simp: lp_index_def Let_def nat_diff_distrib)
  moreover have "lpLast lp = Some (lp_index bss (- 1))"
    using lpLast_rep [OF assms] by (auto simp: lp_index_def Let_def nat_diff_distrib Suc_le_eq)
  ultimately show ?thesis
    using lpSeek_rep [OF assms] lpFirst_rep [OF assms] lpNext_rep [OF assms]
    by (auto simp: lp_index_def lp_pos_def Let_def nat_add_distrib)
qed

theorem lp_navigation_witness:
  "lpSeek lp_ex (- 2) = Some (Some 6) \<and> lpNext lp_ex 6 = Some (Some 8) \<and> lpPrev lp_ex 8 = Some (Some 6) \<and> lpSeek lp_ex 2 = Some None"
  using lp_navigation [OF lp_ex_rep, of "- 2"] lp_navigation [OF lp_ex_rep, of 2]
  by (simp add: lp_index_def lp_ex_entries_def lp_off_def lp_entry_bytes_def LP_HDR_SIZE_def lpEncodeBacklen_size_def
      All_less_Suc lpEncodeBacklen_def)

text \<open>C7: \<open>lpInsert\<close> at an entry of a well-formed listpack inserts before it, after it or in its place, keeps
  every other entry, returns the offset of the new entry, and returns NULL exactly when the result would
  not fit in 4 GiB.\<close>

theorem lpInsert_splices:
  assumes "lp_rep lp bss" and "i < length bss" and "ele \<noteq> EleNone" and "lp_arg_ok ele" and "total_al al"
  shows "lp_inserted (lpInsert al lp ele (lp_off bss i) LP_BEFORE)
      (take i bss @ lp_arg_bytes ele # drop i bss) (Some (lp_off bss i)) \<and>
    lp_inserted (lpInsert al lp ele (lp_off bss i) LP_AFTER)
      (take (Suc i) bss @ lp_arg_bytes ele # drop (Suc i) bss) (Some (lp_off bss (Suc i))) \<and>
    lp_inserted (lpInsert al lp ele (lp_off bss i) LP_REPLACE)
      (bss[i := lp_arg_bytes ele]) (Some (lp_off bss i))"
  using lpInsert_before [OF assms(1)] lpInsert_after [OF assms(1)] lpInsert_replace [OF assms(1)] assms
  by (simp add: total_al_def)

theorem lpInsert_splices_witness:
  "\<exists>lp'. lpInsert calm_al lp_ex (EleStr [98]) 8 LP_REPLACE = Some (Some (lp', Some 8)) \<and> lp_rep lp' [[5], [0x81, 98]]"
proof -
  have "lp_arg_bytes (EleStr [98]) = [0x81, 98]"
    by (simp add: lp_arg_bytes_def lp_str_bytes_def lpStringToInt64_def)
  then have "lp_inserted (lpInsert calm_al lp_ex (EleStr [98]) (lp_off lp_ex_entries 1) LP_REPLACE)
      [[5], [0x81, 98]] (Some (lp_off lp_ex_entries 1))"
    using lpInsert_splices [OF lp_ex_rep, of 1 "EleStr [98]" calm_al]
    by (simp add: lp_ex_entries_def lp_arg_ok_def)
  then show ?thesis
    by (simp add: lp_inserted_def lp_total_def lp_ex_entries_def lp_off_def lp_entry_bytes_def LP_HDR_SIZE_def
        lpEncodeBacklen_size_def lpEncodeBacklen_def)
qed

text \<open>C23: \<open>lpDelete\<close> removes exactly the entry and returns the offset of the one after it, NULL at the end.\<close>

theorem lpDelete_removes:
  assumes "lp_rep lp bss" and "i < length bss" and "total_al al"
  shows "\<exists>lp'. lpDelete al lp (lp_off bss i) = Some (Some (lp', lp_pos (take i bss @ drop (Suc i) bss) i)) \<and>
    lp_rep lp' (take i bss @ drop (Suc i) bss)"
  by (rule lpDelete_rep [OF assms(1,2), of al]) (use assms(3) in \<open>auto simp: total_al_def\<close>)

theorem lpDelete_removes_witness:
  "\<exists>lp'. lpDelete calm_al lp_ex 6 = Some (Some (lp', Some 6)) \<and> lp_rep lp' [[0x81, 97]]"
  using lpDelete_removes [OF lp_ex_rep, of 0 calm_al]
  by (simp add: lp_ex_entries_def lp_pos_def lp_off_def LP_HDR_SIZE_def)

text \<open>C25: \<open>lpLength\<close> returns the number of entries, also when the header says it is unknown and the entries
  must be walked, and changes nothing but the cached count.\<close>

theorem lpLength_counts:
  assumes "lp_rep lp bss"
  shows "\<exists>lp'. lpLength lp = Some (lp', length bss) \<and> lp_rep lp' bss \<and> length lp' = length lp"
  by (rule lpLength_rep [OF assms])

theorem lpLength_counts_witness: "\<exists>lp'. lpLength lp_ex = Some (lp', 2) \<and> lp_rep lp' lp_ex_entries"
  using lpLength_counts [OF lp_ex_rep] by (auto simp: lp_ex_entries_def)

text \<open>C27: every 64-bit integer written by \<open>lpEncodeIntegerGetType\<close> is read back by \<open>lpGetWithSize\<close> as
  itself, through the narrowest of the six encodings, and its backward length, written by
  \<open>lpEncodeBacklen\<close> after it, is read back from its last byte by \<open>lpDecodeBacklen\<close>.\<close>

theorem lp_encoding_roundtrip:
  assumes "in_i64 v"
  shows "let e = lpEncodeIntegerGetType v; m = pre @ e @ lpEncodeBacklen (length e) @ post;
      n = length e + lpEncodeBacklen_size (length e) in
    lpGetWithSize m (length pre) None = Some (PNull, v, Some n) \<and>
    lpDecodeBacklen m (int (length pre + n) - 1) = Some (length e)"
proof -
  let ?e = "lpEncodeIntegerGetType v"
  let ?m = "pre @ ?e @ lpEncodeBacklen (length ?e) @ post"
  have "length ?e \<le> 9" by (simp add: lpEncodeIntegerGetType_def Let_def)
  moreover have "lp_at ?m (length pre + length ?e) (lpEncodeBacklen (length ?e))"
    using lp_atI [of _ "pre @ ?e" "lpEncodeBacklen (length ?e)" post] by simp
  ultimately show ?thesis
    using lpGetWithSize_entry [OF lpEncodeInteger_entry [OF assms] lp_atI [of "length pre" pre]]
      lpDecodeBacklen_correct [of ?m "length pre + length ?e" "length ?e"]
    by (simp add: Let_def lp_get_result_def add.assoc)
qed

theorem lp_encoding_roundtrip_witness:
  "\<exists>n. lpGetWithSize ([7] @ lpEncodeIntegerGetType (- 70000) @ lpEncodeBacklen 4) 1 None = Some (PNull, - 70000, Some n)"
proof -
  have "length (lpEncodeIntegerGetType (- 70000)) = 4" by (simp add: lpEncodeIntegerGetType_def Let_def)
  then show ?thesis
    using lp_encoding_roundtrip [of "- 70000" "[7]" "[]"] by (simp add: in_i64_iff Let_def)
qed

end
