(* ===== verification/Redis_Listpack_Ops.thy ===== *)
theory Redis_Listpack_Ops
  imports Redis_Listpack
begin

text \<open>
  The remaining operations of \<^verbatim>\<open>src/listpack.c\<close>: search and comparison, deletion of ranges and of
  batches, merging, duplication and the integrity check.
\<close>

subsection \<open>Search and comparison\<close>

text \<open>
  The loop of \<open>lpFind\<close>. \<open>venc\<close> holds \<^verbatim>\<open>vencoding\<close> and \<^verbatim>\<open>vll\<close>: \<open>None\<close> before the first attempt to
  read the string as an integer, \<open>Some None\<close> for \<^verbatim>\<open>UCHAR_MAX\<close>.
\<close>

definition lpFind_venc :: "byte list \<Rightarrow> int option option \<Rightarrow> int option" where
  "lpFind_venc s venc =
    (case venc of
       Some r \<Rightarrow> r
     | None \<Rightarrow> if length s \<ge> 32 \<or> length s = 0 then None else lpStringToInt64 s)"

definition lpFind_check :: "mem \<Rightarrow> nat \<Rightarrow> nat \<Rightarrow> unit option" where
  "lpFind_check lp lp_bytes p =
    (if p + 8 \<ge> lp_bytes then lpAssertValidEntry lp lp_bytes (int p)
     else if p \<ge> LP_HDR_SIZE \<and> p < lp_bytes then Some () else None)"

text \<open>The comparison with the entry at \<open>p\<close>: the outcome, the new \<open>venc\<close> and the new \<^verbatim>\<open>entry_size\<close>.\<close>

definition lpFind_compare ::
  "mem \<Rightarrow> nat \<Rightarrow> byte list \<Rightarrow> nat \<Rightarrow> int option option \<Rightarrow> nat \<Rightarrow> (bool \<times> int option option \<times> nat) option" where
  "lpFind_compare lp lp_bytes s p venc entry_size = do {
     (value, ll, es) \<leftarrow> lpGetWithSize lp p None;
     let entry_size = (case es of Some n \<Rightarrow> n | None \<Rightarrow> entry_size);
     case value of
       PLp q \<Rightarrow>
         if \<not> (p \<ge> LP_HDR_SIZE \<and> p + entry_size < lp_bytes) then None
         else if int (length s) = ll then do {
           bs \<leftarrow> rdn lp q (length s);
           Some (bs = s, venc, entry_size)
         } else Some (False, venc, entry_size)
     | _ \<Rightarrow>
         let v = lpFind_venc s venc in Some (v = Some ll, Some v, entry_size)
   }"

partial_function (option) lpFind_loop ::
  "mem \<Rightarrow> nat \<Rightarrow> byte list \<Rightarrow> nat \<Rightarrow> nat \<Rightarrow> int \<Rightarrow> nat \<Rightarrow> int option option \<Rightarrow> nat option option" where
  "lpFind_loop lp lp_bytes s skip p skipcnt entry_size venc = do {
     (found, q, skipcnt, entry_size, venc) \<leftarrow>
       (if skipcnt = 0 then do {
          (found, venc, entry_size) \<leftarrow> lpFind_compare lp lp_bytes s p venc entry_size;
          Some (found, p + entry_size, int32_of_u32 skip, entry_size, venc)
        } else if skipcnt = - (2 ^ 31) then None
        else do {
          q \<leftarrow> lpSkip lp p;
          Some (False, q, skipcnt - 1, entry_size, venc)
        });
     if found then Some (Some p)
     else do {
       _ \<leftarrow> lpFind_check lp lp_bytes q;
       b \<leftarrow> rd lp q;
       if b = LP_EOF then Some None
       else lpFind_loop lp lp_bytes s skip q skipcnt entry_size venc
     }
   }"

definition lpFind :: "mem \<Rightarrow> nat \<Rightarrow> byte list \<Rightarrow> nat \<Rightarrow> nat option option" where
  "lpFind lp p s skip = do {
     lp_bytes \<leftarrow> lpBytes lp;
     lpFind_loop lp lp_bytes s skip p 0 123456789 None
   }"

definition lpCompare :: "mem \<Rightarrow> nat \<Rightarrow> byte list \<Rightarrow> bool option" where
  "lpCompare lp p s = do {
     b \<leftarrow> rd lp p;
     if b = LP_EOF then Some False
     else do {
       (value, sz) \<leftarrow> lpGet lp p None;
       case value of
         PLp q \<Rightarrow> if int (length s) = sz then map_option (\<lambda>bs. bs = s) (rdn lp q (length s)) else Some False
       | _ \<Rightarrow> Some (case lpStringToInt64 s of Some sval \<Rightarrow> sz = sval | None \<Rightarrow> False)
     }
   }"

subsection \<open>Deletion of ranges and batches\<close>

text \<open>The search for the end of the range: the tail and the number of deleted entries.\<close>

fun lpDeleteRange_tail :: "mem \<Rightarrow> nat \<Rightarrow> nat \<Rightarrow> nat \<Rightarrow> nat \<Rightarrow> (nat \<times> nat) option" where
  "lpDeleteRange_tail lp bytes tail deleted 0 = Some (tail, deleted)"
| "lpDeleteRange_tail lp bytes tail deleted (Suc num) = do {
     tail \<leftarrow> lpSkip lp tail;
     b \<leftarrow> rd lp tail;
     if b = LP_EOF then Some (tail, Suc deleted)
     else do {
       _ \<leftarrow> lpAssertValidEntry lp bytes (int tail);
       lpDeleteRange_tail lp bytes tail (Suc deleted) num
     }
   }"

text \<open>The end of both deletions: the header and the shrinking.\<close>

definition lpDelete_finish :: "allocator \<Rightarrow> mem \<Rightarrow> nat \<Rightarrow> nat \<Rightarrow> mem option" where
  "lpDelete_finish al lp total_bytes deleted = do {
     lp \<leftarrow> lpSetTotalBytes lp total_bytes;
     numele \<leftarrow> lpGetNumElements lp;
     lp \<leftarrow> (if numele \<noteq> LP_HDR_NUMELE_UNKNOWN
             then lpSetNumElements lp (nat ((int numele - int deleted) mod 2 ^ 64)) else Some lp);
     lpShrinkToFit al lp
   }"

text \<open>The result holds the new value of \<^verbatim>\<open>*p\<close>.\<close>

definition lpDeleteRangeWithEntry :: "allocator \<Rightarrow> mem \<Rightarrow> nat \<Rightarrow> nat \<Rightarrow> (mem \<times> nat option) option" where
  "lpDeleteRangeWithEntry al lp p num = do {
     bytes \<leftarrow> lpBytes lp;
     if num = 0 then Some (lp, Some p)
     else do {
       (tail, deleted) \<leftarrow> lpDeleteRange_tail lp bytes p 0 num;
       lp \<leftarrow> (if tail \<le> bytes then memmove lp p tail (bytes - tail) else None);
       lp \<leftarrow> lpDelete_finish al lp (bytes - (tail - p)) deleted;
       b \<leftarrow> rd lp p;
       Some (lp, if b = LP_EOF then None else Some p)
     }
   }"

definition lpDeleteRange :: "allocator \<Rightarrow> mem \<Rightarrow> int \<Rightarrow> nat \<Rightarrow> mem option" where
  "lpDeleteRange al lp index num = do {
     numele \<leftarrow> lpGetNumElements lp;
     if num = 0 then Some lp
     else do {
       p \<leftarrow> lpSeek lp index;
       case p of
         None \<Rightarrow> Some lp
       | Some p \<Rightarrow>
           (let index = (if numele \<noteq> LP_HDR_NUMELE_UNKNOWN \<and> index < 0 then int numele + index else index) in
            if numele \<noteq> LP_HDR_NUMELE_UNKNOWN \<and> nat ((int numele - index) mod 2 ^ 64) \<le> num then do {
              lp \<leftarrow> wr lp p [LP_EOF];
              lp \<leftarrow> lpSetTotalBytes lp (p + 1);
              lp \<leftarrow> lpSetNumElements lp (nat (index mod 2 ^ 64));
              lpShrinkToFit al lp
            } else map_option fst (lpDeleteRangeWithEntry al lp p num))
     }
   }"

text \<open>The loop over the array of pointers: the block and \<^verbatim>\<open>dst\<close>.\<close>

fun lpBatchDelete_loop :: "mem \<Rightarrow> nat \<Rightarrow> nat \<Rightarrow> nat list \<Rightarrow> (mem \<times> nat) option" where
  "lpBatchDelete_loop lp lp_end dst [] = Some (lp, dst)"
| "lpBatchDelete_loop lp lp_end dst (skip # ps) = do {
     b \<leftarrow> rd lp skip;
     if b = LP_EOF then None
     else do {
       keep_start \<leftarrow> lpSkip lp skip;
       if ps \<noteq> [] \<and> keep_start = hd ps then lpBatchDelete_loop lp lp_end dst ps
       else do {
         let keep_end = (if ps \<noteq> [] then hd ps else lp_end);
         if keep_end > keep_start then do {
           let bytes_to_keep = keep_end - keep_start;
           lp \<leftarrow> memmove lp dst keep_start bytes_to_keep;
           lpBatchDelete_loop lp lp_end (dst + bytes_to_keep) ps
         } else None
       }
     }
   }"

definition lpBatchDelete :: "allocator \<Rightarrow> mem \<Rightarrow> nat list \<Rightarrow> mem option" where
  "lpBatchDelete al lp ps =
    (if ps = [] then Some lp
     else do {
       total_bytes \<leftarrow> lpGetTotalBytes lp;
       let lp_end = total_bytes;
       e \<leftarrow> (if lp_end = 0 then None else rd lp (lp_end - 1));
       if e \<noteq> LP_EOF then None
       else do {
         (lp, dst) \<leftarrow> lpBatchDelete_loop lp lp_end (hd ps) ps;
         let deleted_bytes = lp_end - dst;
         let total_bytes = total_bytes - deleted_bytes;
         e \<leftarrow> (if total_bytes = 0 then None else rd lp (total_bytes - 1));
         if e \<noteq> LP_EOF then None else lpDelete_finish al lp total_bytes (length ps)
       }
     })"

subsection \<open>Merging and duplication\<close>

text \<open>
  The arguments are the blocks behind \<^verbatim>\<open>*first\<close> and \<^verbatim>\<open>*second\<close> (\<open>None\<close> for a \<^verbatim>\<open>NULL\<close>) and
  whether both are the same pointer. The result is \<^verbatim>\<open>NULL\<close>, or the merged block and \<^verbatim>\<open>append\<close>:
  whether it is returned through \<^verbatim>\<open>first\<close>.
\<close>

definition lpMerge_copy :: "allocator \<Rightarrow> bool \<Rightarrow> mem \<Rightarrow> nat \<Rightarrow> mem \<Rightarrow> nat \<Rightarrow> nat \<Rightarrow> mem option" where
  "lpMerge_copy al app target target_bytes source source_bytes lpbytes = do {
     target \<leftarrow> zrealloc_usable al target lpbytes;
     if app then do {
       bs \<leftarrow> rdn source LP_HDR_SIZE (source_bytes - LP_HDR_SIZE);
       wr target (target_bytes - 1) bs
     } else do {
       target \<leftarrow> memmove target (source_bytes - 1) LP_HDR_SIZE (target_bytes - LP_HDR_SIZE);
       bs \<leftarrow> rdn source 0 (source_bytes - 1);
       wr target 0 bs
     }
   }"

definition lpMerge :: "allocator \<Rightarrow> mem option \<Rightarrow> mem option \<Rightarrow> bool \<Rightarrow> (mem \<times> bool) option option" where
  "lpMerge al first second same =
    (case (first, second) of
       (Some first, Some second) \<Rightarrow>
         if same then Some None
         else do {
           first_bytes \<leftarrow> lpBytes first;
           (first, first_len) \<leftarrow> lpLength first;
           second_bytes \<leftarrow> lpBytes second;
           (second, second_len) \<leftarrow> lpLength second;
           let append = (first_bytes \<ge> second_bytes);
           let lpbytes = nat ((int first_bytes + int second_bytes - int LP_HDR_SIZE - 1) mod 2 ^ 64);
           if lpbytes < 2 ^ 32 - 1 then do {
             let lplength = first_len + second_len;
             let lplength = (if lplength < 2 ^ 16 - 1 then lplength else 2 ^ 16 - 1);
             target \<leftarrow> (if append then lpMerge_copy al append first first_bytes second second_bytes lpbytes
                         else lpMerge_copy al append second second_bytes first first_bytes lpbytes);
             target \<leftarrow> lpSetNumElements target lplength;
             target \<leftarrow> lpSetTotalBytes target lpbytes;
             Some (Some (target, append))
           } else None
         }
     | _ \<Rightarrow> Some None)"

definition lpDup :: "allocator \<Rightarrow> mem \<Rightarrow> mem option" where
  "lpDup al lp = do {
     lpbytes \<leftarrow> lpBytes lp;
     newlp \<leftarrow> zmalloc_usable al lpbytes;
     bs \<leftarrow> rdn lp 0 lpbytes;
     wr newlp 0 bs
   }"

definition lpEstimateBytesRepeatedInteger :: "int \<Rightarrow> nat \<Rightarrow> nat" where
  "lpEstimateBytesRepeatedInteger lval rep =
    (let enclen = length (lpEncodeIntegerGetType lval);
         backlen = lpEncodeBacklen_size enclen
     in (LP_HDR_SIZE + (enclen + backlen) * rep + 1) mod 2 ^ 64)"

subsection \<open>The integrity check\<close>

definition lpValidateFirst :: "mem \<Rightarrow> nat option option" where
  "lpValidateFirst lp = do {
     b \<leftarrow> rd lp LP_HDR_SIZE;
     Some (if b = LP_EOF then None else Some LP_HDR_SIZE)
   }"

text \<open>
  The callback gets the entry, the header count and the user data, which it may change. The loop
  returns \<open>None\<close> for \<^verbatim>\<open>return 0\<close>, or the final \<open>p\<close>, the count and the user data.
\<close>

type_synonym 'u lp_cb = "nat \<Rightarrow> nat \<Rightarrow> 'u \<Rightarrow> bool \<times> 'u"

partial_function (option) lpValidate_loop ::
  "mem \<Rightarrow> nat \<Rightarrow> nat \<Rightarrow> 'u lp_cb option \<Rightarrow> int option \<Rightarrow> nat \<Rightarrow> 'u \<Rightarrow> ((int option \<times> nat) option \<times> 'u) option" where
  "lpValidate_loop lp bytes numele entry_cb p count u =
    (case p of
       None \<Rightarrow> Some (Some (p, count), u)
     | Some prev \<Rightarrow> do {
         b \<leftarrow> rd lp (nat prev);
         if b = LP_EOF then Some (Some (p, count), u)
         else do {
           (ok, p) \<leftarrow> lpValidateNext lp p bytes;
           if \<not> ok then Some (None, u)
           else do {
             (ok, u) \<leftarrow> Some (case entry_cb of None \<Rightarrow> (True, u) | Some cb \<Rightarrow> cb (nat prev) numele u);
             if \<not> ok then Some (None, u)
             else lpValidate_loop lp bytes numele entry_cb p ((count + 1) mod 2 ^ 32) u
           }
         }
       })"

definition lpValidateIntegrity ::
  "mem \<Rightarrow> nat \<Rightarrow> bool \<Rightarrow> 'u lp_cb option \<Rightarrow> 'u \<Rightarrow> (bool \<times> 'u) option" where
  "lpValidateIntegrity lp sz deep entry_cb u =
    (if sz < LP_HDR_SIZE + 1 then Some (False, u)
     else do {
       bytes \<leftarrow> lpGetTotalBytes lp;
       if bytes \<noteq> sz then Some (False, u)
       else do {
         b \<leftarrow> rd lp (sz - 1);
         if b \<noteq> LP_EOF then Some (False, u)
         else if \<not> deep then Some (True, u)
         else do {
           numele \<leftarrow> lpGetNumElements lp;
           (r, u) \<leftarrow> lpValidate_loop lp bytes numele entry_cb (Some (int LP_HDR_SIZE)) 0 u;
           Some (case r of
              None \<Rightarrow> False
            | Some (p, count) \<Rightarrow>
                p = Some (int sz - 1) \<and> \<not> (numele \<noteq> LP_HDR_NUMELE_UNKNOWN \<and> numele \<noteq> count), u)
         }
       }
     })"

subsection \<open>Search and comparison on well-formed listpacks\<close>

lemma lp_rep_cases:
  assumes "lp_rep lp bss" and "i < length bss"
  obtains (int) k where "in_i64 k" "lp_text (bss ! i) = sdec k"
      "lpGetWithSize lp (lp_off bss i) None = Some (PNull, k, Some (lp_off bss (Suc i) - lp_off bss i))"
  | (str) q where "rdn lp q (length (lp_text (bss ! i))) = Some (lp_text (bss ! i))"
      "lpGetWithSize lp (lp_off bss i) None =
        Some (PLp q, int (length (lp_text (bss ! i))), Some (lp_off bss (Suc i) - lp_off bss i))"
proof -
  let ?bs = "bss ! i"
  obtain v where v: "lp_entry ?bs v" using assms lp_entriesD by (auto simp: lp_rep_def)
  note val = lp_entry_value [OF v]
  have n: "lp_off bss (Suc i) - lp_off bss i = length ?bs + lpEncodeBacklen_size (length ?bs)"
    using lp_off_Suc [OF assms(2)] by simp
  note get = lp_rep_value [OF assms, unfolded lp_get_result_def val, folded n]
  show thesis
  proof (cases v)
    case (Inl k)
    then show thesis using get val v lp_entry_i64 [of ?bs k] by (intro int [of k]) (simp_all add: lp_text_def)
  next
    case (Inr s)
    have "rdn lp (lp_off bss i + (length ?bs - length s)) (length s) = Some s"
    proof (rule lp_atE [OF lp_rep_at_body [OF assms]])
      fix pre post assume lp: "lp = pre @ ?bs @ post" "length pre = lp_off bss i"
      have "?bs = take (length ?bs - length s) ?bs @ s"
        using lp_entry_suffix [OF v [unfolded Inr]] by (metis append_take_drop_id)
      then have "lp = (pre @ take (length ?bs - length s) ?bs) @ s @ post" using lp(1) by simp
      then show ?thesis using lp(2) by (metis rdn_at diff_le_self length_append length_take min.absorb2)
    qed
    then show thesis using get Inr val by (intro str) (simp_all add: lp_text_def)
  qed
qed

lemma lp_int_match: "in_i64 k \<Longrightarrow> lpStringToInt64 s = Some k \<longleftrightarrow> sdec k = s"
  using ll_text.parse_iff [of s k] by (auto simp: lpStringToInt64_eq)

lemma lpCompare_rep:
  assumes "lp_rep lp bss" and "i < length bss"
  shows "lpCompare lp (lp_off bss i) s = Some (lp_text (bss ! i) = s)"
proof -
  obtain b where b: "rd lp (lp_off bss i) = Some b" "b \<noteq> LP_EOF" using lp_rep_hd [OF assms] by auto
  show ?thesis using assms
  proof (cases rule: lp_rep_cases)
    case (int k)
    then show ?thesis using b lp_int_match [OF int(1), of s]
      by (auto simp: lpCompare_def lpGet_def split: option.splits)
  next
    case (str q)
    then show ?thesis using b by (auto simp: lpCompare_def lpGet_def)
  qed
qed

text \<open>The cached integer reading of the searched string.\<close>

definition venc_ok :: "byte list \<Rightarrow> int option option \<Rightarrow> bool" where
  "venc_ok s venc \<longleftrightarrow> venc = None \<or> venc = Some (lpStringToInt64 s)"

lemma lpFind_venc_ok: "venc_ok s venc \<Longrightarrow> lpFind_venc s venc = lpStringToInt64 s"
  by (auto simp: venc_ok_def lpFind_venc_def lpStringToInt64_def LONG_STR_SIZE_def)

lemma lpFind_compare_rep:
  assumes "lp_rep lp bss" and "i < length bss" and "venc_ok s venc"
  shows "\<exists>venc'. lpFind_compare lp (lp_total bss) s (lp_off bss i) venc es =
    Some (lp_text (bss ! i) = s, venc', lp_off bss (Suc i) - lp_off bss i) \<and> venc_ok s venc'"
proof -
  have le: "lp_off bss i \<le> lp_off bss (Suc i)" by (rule lp_off_mono) simp
  have "lp_off bss i + (lp_off bss (Suc i) - lp_off bss i) < lp_total bss"
    using lp_off_less [of "Suc i" bss] assms(2) le by simp
  note bounds = this lp_off_ge [of bss i]
  show ?thesis using assms(1,2)
  proof (cases rule: lp_rep_cases)
    case (int k)
    then show ?thesis using lp_int_match [OF int(1), of s] lpFind_venc_ok [OF assms(3)]
      by (simp add: lpFind_compare_def Let_def venc_ok_def)
  next
    case (str q)
    then show ?thesis using bounds assms(3) by (auto simp: lpFind_compare_def Let_def)
  qed
qed

lemma lpFind_check_rep:
  assumes "lp_rep lp bss" and "i \<le> length bss"
  shows "lpFind_check lp (lp_total bss) (lp_off bss i) = Some ()"
  using lpAssertValidEntry_rep [OF assms] lp_off_ge [of bss i] lp_off_less [OF assms(2)]
  by (simp add: lpFind_check_def)

text \<open>The index of the first entry equal to \<open>s\<close> among those \<open>c\<close>, \<open>c + skip + 1\<close>, ... after \<open>k\<close>.\<close>

definition lp_find_index :: "byte list list \<Rightarrow> byte list \<Rightarrow> nat \<Rightarrow> nat \<Rightarrow> nat \<Rightarrow> nat option" where
  "lp_find_index bss s skip k c =
    List.find (\<lambda>j. k + c \<le> j \<and> (j - (k + c)) mod Suc skip = 0 \<and> lp_text (bss ! j) = s) [k..<length bss]"

lemma find_set_cong: "(\<And>x. x \<in> set xs \<Longrightarrow> P x = Q x) \<Longrightarrow> List.find P xs = List.find Q xs"
  by (induction xs) auto

lemma lp_find_index_0:
  assumes "k < length bss"
  shows "lp_find_index bss s skip k 0 =
    (if lp_text (bss ! k) = s then Some k else lp_find_index bss s skip (Suc k) skip)"
proof -
  have "(j - k) mod Suc skip = 0 \<longleftrightarrow> Suc k + skip \<le> j \<and> (j - (Suc k + skip)) mod Suc skip = 0" if "Suc k \<le> j" for j
  proof -
    have "j - k = (j - (Suc k + skip)) + Suc skip" if "Suc k + skip \<le> j" using that by simp
    then have "(j - k) mod Suc skip = (j - (Suc k + skip)) mod Suc skip" if "Suc k + skip \<le> j"
      using that by (metis mod_add_self2)
    moreover have "(j - k) mod Suc skip = j - k" if "\<not> Suc k + skip \<le> j" using that by simp
    ultimately show ?thesis using \<open>Suc k \<le> j\<close> by (cases "Suc k + skip \<le> j") auto
  qed
  then have "List.find (\<lambda>j. k \<le> j \<and> (j - k) mod Suc skip = 0 \<and> lp_text (bss ! j) = s) [Suc k..<length bss] =
      lp_find_index bss s skip (Suc k) skip"
    unfolding lp_find_index_def by (intro find_set_cong) auto
  then show ?thesis using assms by (simp add: lp_find_index_def upt_conv_Cons)
qed

lemma lp_find_index_Suc:
  "k < length bss \<Longrightarrow> lp_find_index bss s skip k (Suc c) = lp_find_index bss s skip (Suc k) c"
  by (simp add: lp_find_index_def upt_conv_Cons)

lemma lp_find_index_end: "length bss \<le> k \<Longrightarrow> lp_find_index bss s skip k c = None"
  by (simp add: lp_find_index_def)

lemma lpFind_loop_rep:
  assumes "lp_rep lp bss" and "skip < 2 ^ 31"
  shows "k < length bss \<Longrightarrow> c \<le> skip \<Longrightarrow> venc_ok s venc \<Longrightarrow>
    lpFind_loop lp (lp_total bss) s skip (lp_off bss k) (int c) es venc =
      Some (map_option (lp_off bss) (lp_find_index bss s skip k c))"
proof (induction "length bss - k" arbitrary: k c venc es rule: less_induct)
  case less
  have sk: "int32_of_u32 skip = int skip"
    using assms(2) by (simp add: int32_of_u32_def signed_take_bit_int_eq_self)
  have off: "lp_off bss k + (lp_off bss (Suc k) - lp_off bss k) = lp_off bss (Suc k)"
    using lp_off_mono [of k "Suc k" bss] by simp
  obtain b where b: "rd lp (lp_off bss (Suc k)) = Some b" "b = LP_EOF \<longleftrightarrow> Suc k = length bss"
    using lp_rep_rd_EOF_iff [OF assms(1), of "Suc k"] less.prems(1) by auto
  have chk: "lpFind_check lp (lp_total bss) (lp_off bss (Suc k)) = Some ()"
    using lpFind_check_rep [OF assms(1)] less.prems(1) by simp
  have IH: "lpFind_loop lp (lp_total bss) s skip (lp_off bss (Suc k)) (int c') es' v' =
      Some (map_option (lp_off bss) (lp_find_index bss s skip (Suc k) c'))"
    if "b \<noteq> LP_EOF" "c' \<le> skip" "venc_ok s v'" for c' es' v'
    using less.hyps [of "Suc k"] that less.prems(1) b(2) by simp
  have stop: "lp_find_index bss s skip (Suc k) c' = None" if "b = LP_EOF" for c'
    using that b(2) by (simp add: lp_find_index_end)
  show ?case
  proof (cases c)
    case 0
    obtain v' where "lpFind_compare lp (lp_total bss) s (lp_off bss k) venc es =
        Some (lp_text (bss ! k) = s, v', lp_off bss (Suc k) - lp_off bss k)" "venc_ok s v'"
      using lpFind_compare_rep [OF assms(1) less.prems(1,3)] by blast
    then show ?thesis
      using 0 IH [of skip v'] stop [of skip] chk b(1) lp_find_index_0 [OF less.prems(1), of s skip]
      by (subst lpFind_loop.simps) (cases "b = LP_EOF", auto simp: sk off)
  next
    case (Suc c')
    then show ?thesis
      using IH [of c' venc] stop [of c'] chk b(1) lpSkip_rep [OF assms(1) less.prems(1)] less.prems
        lp_find_index_Suc [OF less.prems(1), of s skip c']
      by (subst lpFind_loop.simps) (cases "b = LP_EOF", auto)
  qed
qed

lemma lpFind_rep:
  assumes "lp_rep lp bss" and "i < length bss" and "skip < 2 ^ 31"
  shows "lpFind lp (lp_off bss i) s skip = Some (map_option (lp_off bss) (lp_find_index bss s skip i 0))"
  using lpFind_loop_rep [OF assms(1,3,2), of 0 s None] lp_rep_bytes [OF assms(1)]
  by (simp add: lpFind_def lpBytes_def venc_ok_def)

subsection \<open>Range and batch deletion\<close>

text \<open>The last step of the deletions: header, count and shrinking around a finished body.\<close>

lemma lpShrinkToFit_rep:
  assumes "lp_rep lp bss" and "al_ok al (lp_total bss)"
  shows "\<exists>lp'. lpShrinkToFit al lp = Some lp' \<and> lp_rep lp' bss"
proof -
  from assms(1) obtain num rest where lp: "lp_num_ok num bss" "lp = lp_image num bss @ rest"
    and ok: "lp_entries bss" "lp_total bss < 2 ^ 32" by (auto simp: lp_rep_def)
  have l: "length (lp_image num bss) = lp_total bss"
    by (simp add: lp_image_def lp_total_def LP_HDR_SIZE_def)
  obtain r where "zrealloc_usable al lp (lp_total bss) = Some (take (lp_total bss) lp @ r)"
    using zrealloc_usable_shrink [OF assms(2) lp_rep_total [OF assms(1)]] by blast
  moreover have "take (lp_total bss) lp = lp_image num bss" using lp(2) l by simp
  moreover have "lp_rep (lp_image num bss @ r) bss" using lp(1) ok by (auto simp: lp_rep_def)
  ultimately show ?thesis
    using assms(1) lp_rep_bytes [OF assms(1)] by (simp add: lpShrinkToFit_def)
qed

lemma lp_num_ok_less: "lp_num_ok num bss \<Longrightarrow> num < 65536"
  by (auto simp: lp_num_ok_def LP_HDR_NUMELE_UNKNOWN_def)

definition lp_cut_num :: "nat \<Rightarrow> nat \<Rightarrow> nat" where
  "lp_cut_num num k = (if num = LP_HDR_NUMELE_UNKNOWN then num else num - k)"

lemma lp_num_ok_cut:
  "lp_num_ok num bss \<Longrightarrow> length bss' + k = length bss \<Longrightarrow> lp_num_ok (lp_cut_num num k) bss'"
  by (auto simp: lp_num_ok_def lp_cut_num_def)

text \<open>The block after the bytes were moved, with the header still the old one.\<close>

lemma lpDelete_finish_rep:
  assumes "lp_num_ok num bss" and "lp_entries bss'" and "lp_total bss' < 2 ^ 32" and "length bss' + k = length bss"
    and "al_ok al (lp_total bss')"
  obtains lp' where
    "lpDelete_finish al (store_le 4 t @ store_le 2 num @ lp_body bss' @ [LP_EOF] @ rest) (lp_total bss') k = Some lp'"
    and "lp_rep lp' bss'"
proof -
  let ?m = "store_le 4 (lp_total bss') @ store_le 2 (lp_cut_num num k) @ lp_body bss' @ [LP_EOF] @ rest"
  have ok: "lp_num_ok (lp_cut_num num k) bss'" using lp_num_ok_cut assms(1,4) by blast
  have "lp_rep ?m bss'" using lp_rep_at_header [OF ok] assms(2,3) ok by blast
  then obtain lp' where lp': "lpShrinkToFit al ?m = Some lp'" "lp_rep lp' bss'"
    using lpShrinkToFit_rep assms(5) by blast
  have lt: "num < 65536" using lp_num_ok_less assms(1) .
  have "nat ((int num - int k) mod 2 ^ 64) = lp_cut_num num k" if "num \<noteq> LP_HDR_NUMELE_UNKNOWN"
  proof -
    have "k \<le> num" using that assms(1,4) by (auto simp: lp_num_ok_def)
    then have "int num - int k = int (num - k)" by simp
    then show ?thesis using that lt by (simp add: lp_cut_num_def zmod_int [symmetric] del: of_nat_diff)
  qed
  with lp' lt show thesis
    by (intro that [of lp']) (auto simp: lpDelete_finish_def lpSetTotalBytes_at lpGetNumElements_at lpSetNumElements_at lp_cut_num_def)
qed

lemma lpDeleteRange_tail_rep:
  assumes "lp_rep lp bss"
  shows "i < length bss \<Longrightarrow> 0 < num \<Longrightarrow>
    lpDeleteRange_tail lp (lp_total bss) (lp_off bss i) d num =
      (let n = min num (length bss - i) in Some (lp_off bss (i + n), d + n))"
proof (induction num arbitrary: i d)
  case (Suc num)
  obtain b where b: "rd lp (lp_off bss (Suc i)) = Some b" "b = LP_EOF \<longleftrightarrow> Suc i = length bss"
    using lp_rep_rd_EOF_iff [OF assms(1), of "Suc i"] Suc.prems(1) by auto
  note skip = lpSkip_rep [OF assms Suc.prems(1)]
  show ?case
  proof (cases "Suc i = length bss")
    case True
    then show ?thesis using skip b by (auto simp: Let_def)
  next
    case False
    then have i: "Suc i < length bss" using Suc.prems(1) by simp
    have va: "lpAssertValidEntry lp (lp_total bss) (int (lp_off bss (Suc i))) = Some ()"
      using lpAssertValidEntry_rep [OF assms] i by simp
    have m: "min (Suc num) (length bss - i) = Suc (min num (length bss - Suc i))" using i by simp
    show ?thesis
    proof (cases num)
      case 0
      then show ?thesis using skip b False va Suc.prems(1) m by (simp add: Let_def)
    next
      case (Suc n)
      then show ?thesis using skip b False va Suc.IH [OF i, of "Suc d"] m by (simp add: Let_def)
    qed
  qed
qed simp

lemma lp_image_mid:
  "lp_image num (A @ M @ D) @ rest =
    (store_le 4 (lp_total (A @ M @ D)) @ store_le 2 num @ lp_body A) @ lp_body M @ (lp_body D @ [LP_EOF]) @ rest"
  by (simp add: lp_image_def)

lemma memmove_left:
  assumes "d = length pre" and "s = length pre + length mid" and "n = length ys"
  shows "\<exists>rest'. memmove (pre @ mid @ ys @ rest) d s n = Some (pre @ ys @ rest')"
proof -
  have "rdn (pre @ mid @ ys @ rest) s n = Some ys"
    using rdn_at [of s "pre @ mid" n ys rest] assms by simp
  then show ?thesis
    using assms by (intro exI [of _ "drop n (mid @ ys @ rest)"]) (simp add: memmove_def wr_def)
qed

lemma lpDeleteRangeWithEntry_cut:
  assumes "lp_rep lp (A @ M @ D)" and "al_ok al (lp_total (A @ D))" and "M \<noteq> []" and "0 < num"
    and "min num (length (M @ D)) = length M"
  obtains lp' where "lpDeleteRangeWithEntry al lp (lp_off (A @ M @ D) (length A)) num =
      Some (lp', lp_pos (A @ D) (length A))" and "lp_rep lp' (A @ D)"
proof -
  let ?bss = "A @ M @ D"
  from assms(1) obtain k rest where lp: "lp_num_ok k ?bss" "lp = lp_image k ?bss @ rest"
    and ok: "lp_entries ?bss" "lp_total ?bss < 2 ^ 32" by (auto simp: lp_rep_def)
  let ?pre = "store_le 4 (lp_total ?bss) @ store_le 2 k @ lp_body A"
  have p: "lp_off ?bss (length A) = length ?pre" by (simp add: lp_off_def LP_HDR_SIZE_def)
  have "lp_off ?bss (length (A @ M)) = LP_HDR_SIZE + length (lp_body (A @ M))"
    using lp_off_append [of "A @ M" D] by simp
  then have t: "lp_off ?bss (length A + length M) = length ?pre + length (lp_body M)"
    by (simp add: LP_HDR_SIZE_def)
  have n: "lp_total ?bss - lp_off ?bss (length A + length M) = length (lp_body D @ [LP_EOF])"
    unfolding t by (simp add: lp_total_def LP_HDR_SIZE_def)
  have le: "lp_off ?bss (length A + length M) \<le> lp_total ?bss"
    using lp_off_less [of "length A + length M" ?bss] by simp
  obtain rest' where mv: "memmove lp (lp_off ?bss (length A)) (lp_off ?bss (length A + length M))
      (lp_total ?bss - lp_off ?bss (length A + length M)) = Some (?pre @ (lp_body D @ [LP_EOF]) @ rest')"
    using memmove_left [OF p t n, of rest] unfolding lp(2) lp_image_mid by blast
  have tl: "lpDeleteRange_tail lp (lp_total ?bss) (lp_off ?bss (length A)) 0 num =
      Some (lp_off ?bss (length A + length M), length M)"
    using lpDeleteRange_tail_rep [OF assms(1), of "length A" num 0] assms(3-5) by (simp add: Let_def)
  have tot: "lp_total ?bss - (lp_off ?bss (length A + length M) - lp_off ?bss (length A)) = lp_total (A @ D)"
    unfolding t p by (simp add: lp_total_def)
  obtain lp' where fin: "lpDelete_finish al (?pre @ (lp_body D @ [LP_EOF]) @ rest') (lp_total (A @ D)) (length M) = Some lp'"
    and rep': "lp_rep lp' (A @ D)"
  proof (rule lpDelete_finish_rep [OF lp(1), of "A @ D" "length M" al "lp_total ?bss" rest'])
    show "lp_entries (A @ D)" "length (A @ D) + length M = length ?bss" using ok by simp_all
    show "lp_total (A @ D) < 2 ^ 32" using ok(2) by (simp add: lp_total_def)
    show "al_ok al (lp_total (A @ D))" by (rule assms(2))
  qed (simp only: append_assoc lp_body_simps that)
  have off: "lp_off (A @ D) (length A) = lp_off ?bss (length A)" by (simp add: lp_off_def)
  obtain b where b: "rd lp' (lp_off ?bss (length A)) = Some b" "b = LP_EOF \<longleftrightarrow> D = []"
    using lp_rep_rd_EOF_iff [OF rep', of "length A"] off by auto
  have "lpDeleteRangeWithEntry al lp (lp_off ?bss (length A)) num =
      Some (lp', if D = [] then None else Some (lp_off ?bss (length A)))"
    unfolding lpDeleteRangeWithEntry_def lpBytes_def lp_rep_bytes [OF assms(1)] Option.bind.simps tl
    using assms(4) le b by (simp add: mv tot fin [simplified])
  then show thesis using rep' by (intro that) (auto simp: lp_pos_def off)
qed

text \<open>Moving the end marker to the front of the entries \<open>D\<close>.\<close>

lemma lp_truncate:
  assumes "lp_rep lp (A @ D)" and "D \<noteq> []" and "lp_num_ok k A" and "al_ok al (lp_total A)"
  shows "\<exists>lp1 lp2 lp3 lp4. wr lp (lp_off (A @ D) (length A)) [LP_EOF] = Some lp1 \<and>
    lpSetTotalBytes lp1 (lp_off (A @ D) (length A) + 1) = Some lp2 \<and> lpSetNumElements lp2 k = Some lp3 \<and>
    lpShrinkToFit al lp3 = Some lp4 \<and> lp_rep lp4 A"
proof -
  from assms(1) obtain num rest where lp: "lp = lp_image num (A @ D) @ rest"
    and ok: "lp_entries (A @ D)" "lp_total (A @ D) < 2 ^ 32" by (auto simp: lp_rep_def)
  let ?pre = "store_le 4 (lp_total (A @ D)) @ store_le 2 num @ lp_body A"
  obtain x xs where D: "lp_body D = x # xs"
    using assms(2) ok(1) lp_entry_length by (cases D; cases "lp_body D") (auto simp: lp_entry_bytes_def)
  have p: "lp_off (A @ D) (length A) = length ?pre" by (simp add: lp_off_def LP_HDR_SIZE_def)
  have 1: "wr lp (lp_off (A @ D) (length A)) [LP_EOF] = Some (?pre @ [LP_EOF] @ xs @ [LP_EOF] @ rest)"
    using wr_at [OF p, of "[LP_EOF]" "[x]" "xs @ [LP_EOF] @ rest"] by (simp add: lp lp_image_def D)
  have tot: "lp_off (A @ D) (length A) + 1 = lp_total A" by (simp add: lp_off_def lp_total_def)
  let ?m = "store_le 4 (lp_total A) @ store_le 2 k @ lp_body A @ [LP_EOF] @ xs @ [LP_EOF] @ rest"
  have "lp_total A < 2 ^ 32" using ok(2) by (simp add: lp_total_def)
  then have rep: "lp_rep ?m A" using lp_rep_at_header [OF assms(3)] ok(1) assms(3) by simp
  obtain lp4 where lp4: "lpShrinkToFit al ?m = Some lp4" "lp_rep lp4 A"
    using lpShrinkToFit_rep [OF rep assms(4)] by blast
  show ?thesis unfolding 1 tot using lp4 by (simp add: lpSetTotalBytes_at lpSetNumElements_at)
qed

text \<open>The entries left by the deletion of \<open>num\<close> entries from a signed index on.\<close>

definition lp_without :: "byte list list \<Rightarrow> int \<Rightarrow> nat \<Rightarrow> byte list list" where
  "lp_without bss index num =
    (let i = (if index < 0 then int (length bss) + index else index) in
     if 0 \<le> i \<and> i < int (length bss) then take (nat i) bss @ drop (nat i + num) bss else bss)"

lemma lpDeleteRangeWithEntry_rep:
  assumes "lp_rep lp bss" and "i < length bss" and "0 < num" and "al_ok al (lp_total (take i bss @ drop (i + num) bss))"
  obtains lp' where "lpDeleteRangeWithEntry al lp (lp_off bss i) num =
      Some (lp', lp_pos (take i bss @ drop (i + num) bss) i)" and "lp_rep lp' (take i bss @ drop (i + num) bss)"
proof -
  let ?A = "take i bss" and ?M = "take num (drop i bss)" and ?D = "drop (i + num) bss"
  have bss: "?A @ ?M @ ?D = bss" by (metis append_take_drop_id drop_drop add.commute)
  have A: "length ?A = i" and M: "?M \<noteq> []" using assms(2,3) by auto
  have "length ?M + length ?D = length (drop i bss)" by simp
  then have mn: "min num (length (?M @ ?D)) = length ?M" by simp
  show thesis
    by (rule lpDeleteRangeWithEntry_cut [of lp ?A ?M ?D al num])
      (use assms mn M in \<open>simp_all only: bss A that simp_thms\<close>)
qed

lemma lpDeleteRange_rep:
  assumes "lp_rep lp bss" and "al_ok al (lp_total (lp_without bss index num))"
  shows "\<exists>lp'. lpDeleteRange al lp index num = Some lp' \<and> lp_rep lp' (lp_without bss index num)"
proof -
  let ?i = "if index < 0 then int (length bss) + index else index"
  obtain k where k: "lpGetNumElements lp = Some k" "lp_num_ok k bss" by (rule lp_rep_num [OF assms(1)])
  note seek = lpSeek_rep [OF assms(1), of index]
  consider (skip) "num = 0 \<or> \<not> (0 \<le> ?i \<and> ?i < int (length bss))" | (cut) "0 < num" "0 \<le> ?i" "?i < int (length bss)"
    by auto
  then show ?thesis
  proof cases
    case skip
    then have "lp_without bss index num = bss" by (auto simp: lp_without_def Let_def)
    with skip k seek assms(1) show ?thesis by (auto simp: lpDeleteRange_def lp_index_def Let_def)
  next
    case cut
    define i where "i = nat ?i"
    have i: "?i = int i" "i < length bss" using cut by (simp_all add: i_def)
    have w: "lp_without bss index num = take i bss @ drop (i + num) bss" using cut i by (simp add: lp_without_def Let_def)
    have sk: "lpSeek lp index = Some (Some (lp_off bss i))" using seek cut i by (simp add: lp_index_def Let_def)
    show ?thesis
    proof (cases "k \<noteq> LP_HDR_NUMELE_UNKNOWN \<and> length bss - i \<le> num")
      case True
      then have kn: "k = length bss" and d: "drop (i + num) bss = []" using k(2) by (auto simp: lp_num_ok_def)
      have ki: "lp_num_ok i (take i bss)" using i(2) kn True k(2) by (auto simp: lp_num_ok_def)
      have "lp_rep lp (take i bss @ drop i bss)" "drop i bss \<noteq> []" "al_ok al (lp_total (take i bss))"
        using assms i(2) w d by simp_all
      from lp_truncate [OF this(1,2) ki this(3)] obtain lp1 lp2 lp3 lp4
        where t: "wr lp (lp_off bss i) [LP_EOF] = Some lp1" "lpSetTotalBytes lp1 (lp_off bss i + 1) = Some lp2"
          "lpSetNumElements lp2 i = Some lp3" "lpShrinkToFit al lp3 = Some lp4" "lp_rep lp4 (take i bss)"
        using i(2) by auto
      have "nat ((int k - int i) mod 2 ^ 64) = k - i" "nat (int i mod 2 ^ 64) = i"
        using kn i(2) lp_num_ok_less [OF k(2)] by (simp_all add: of_nat_diff [symmetric] zmod_int [symmetric] del: of_nat_diff)
      then show ?thesis using k(1) sk t True kn i(1) cut(1) w d by (simp add: lpDeleteRange_def Let_def)
    next
      case False
      have "nat ((int k - int i) mod 2 ^ 64) = k - i" if "k \<noteq> LP_HDR_NUMELE_UNKNOWN"
        using that k(2) i(2) lp_num_ok_less [OF k(2)]
        by (auto simp: lp_num_ok_def of_nat_diff [symmetric] zmod_int [symmetric] simp del: of_nat_diff)
      moreover have "k = length bss" if "k \<noteq> LP_HDR_NUMELE_UNKNOWN" using that k(2) by (auto simp: lp_num_ok_def)
      moreover obtain lp' where "lpDeleteRangeWithEntry al lp (lp_off bss i) num =
          Some (lp', lp_pos (take i bss @ drop (i + num) bss) i)" "lp_rep lp' (take i bss @ drop (i + num) bss)"
        using lpDeleteRangeWithEntry_rep [OF assms(1) i(2) cut(1), of al] assms(2) w by auto
      ultimately show ?thesis using k(1) sk False i(1) cut(1) w by (auto simp: lpDeleteRange_def Let_def)
    qed
  qed
qed

lemma memmove_left_keep:
  assumes "d = length pre" and "s = length pre + length mid" and "n = length ys"
  obtains junk where "memmove (pre @ mid @ ys @ rest) d s n = Some (pre @ ys @ junk @ rest)" and "length junk = length mid"
proof -
  have "rdn (pre @ mid @ ys @ rest) s n = Some ys"
    using rdn_at [of s "pre @ mid" n ys rest] assms by simp
  then show thesis
    using assms by (intro that [of "drop n (mid @ ys)"]) (simp_all add: memmove_def wr_def)
qed

text \<open>The entries that stay, from the first deleted one on.\<close>

fun lp_kept :: "byte list list \<Rightarrow> nat list \<Rightarrow> byte list list" where
  "lp_kept bss [] = []"
| "lp_kept bss [j] = drop (Suc j) bss"
| "lp_kept bss (j # k # is) = take (k - Suc j) (drop (Suc j) bss) @ lp_kept bss (k # is)"

lemma lp_off_diff: "j \<le> k \<Longrightarrow> lp_off bss k = lp_off bss j + length (lp_body (take (k - j) (drop j bss)))"
proof -
  assume "j \<le> k"
  then have "take k bss = take j bss @ take (k - j) (drop j bss)" by (metis le_add_diff_inverse take_add)
  then show ?thesis by (simp add: lp_off_def)
qed

lemma lp_total_from: "lp_total bss = lp_off bss j + length (lp_body (drop j bss)) + 1"
proof -
  have "lp_body bss = lp_body (take j bss) @ lp_body (drop j bss)" by (metis append_take_drop_id lp_body_simps(3))
  then show ?thesis by (simp add: lp_off_def lp_total_def)
qed

lemma lp_entry_in_block:
  assumes "lp_entries bss" and "j < length bss" and "lp = pre @ lp_entry_bytes (bss ! j) @ post" and "length pre = lp_off bss j"
  shows "\<exists>b. rd lp (lp_off bss j) = Some b \<and> b \<noteq> LP_EOF" and "lpSkip lp (lp_off bss j) = Some (lp_off bss (Suc j))"
proof -
  obtain v where v: "lp_entry (bss ! j) v" using lp_entriesD assms(1,2) by blast
  have at: "lp_at lp (lp_off bss j) (bss ! j)"
    using lp_atI [of "lp_off bss j" pre "bss ! j" "lpEncodeBacklen (length (bss ! j)) @ post"] assms(3,4)
    by (simp add: lp_entry_bytes_def)
  then show "\<exists>b. rd lp (lp_off bss j) = Some b \<and> b \<noteq> LP_EOF"
    using lp_at_reads(1) [OF at] lp_entry_length [OF v] lp_entry_not_EOF [OF v] by simp
  show "lpSkip lp (lp_off bss j) = Some (lp_off bss (Suc j))"
    using lp_entry_size [OF v at] lp_off_Suc [OF assms(2)] by (simp add: lpSkip_def)
qed

lemma lpBatchDelete_loop_rep:
  assumes "lp_entries bss"
  shows "sorted_wrt (<) (j # is) \<Longrightarrow> (\<forall>i \<in> set (j # is). i < length bss) \<Longrightarrow>
    length pre + length junk = lp_off bss j \<Longrightarrow>
    lp = pre @ junk @ lp_body (drop j bss) @ LP_EOF # rest \<Longrightarrow>
    \<exists>rest'. lpBatchDelete_loop lp (lp_total bss) (length pre) (map (lp_off bss) (j # is)) =
      Some (pre @ lp_body (lp_kept bss (j # is)) @ LP_EOF # rest', length pre + length (lp_body (lp_kept bss (j # is))) + 1)"
proof (induction "is" arbitrary: j lp pre junk rest)
  case Nil
  let ?e = "lp_entry_bytes (bss ! j)" and ?D = "drop (Suc j) bss"
  have j: "j < length bss" using Nil.prems(2) by simp
  have lp: "lp = pre @ (junk @ ?e) @ (lp_body ?D @ [LP_EOF]) @ rest"
    using Nil.prems(4) Cons_nth_drop_Suc [OF j, symmetric] by simp
  have here: "\<exists>b. rd lp (lp_off bss j) = Some b \<and> b \<noteq> LP_EOF" "lpSkip lp (lp_off bss j) = Some (lp_off bss (Suc j))"
    using lp_entry_in_block [OF assms j, of lp "pre @ junk"] lp Nil.prems(3) by simp_all
  have s: "lp_off bss (Suc j) = length pre + length (junk @ ?e)"
    using lp_off_Suc [OF j] Nil.prems(3) by (simp add: length_lp_entry_bytes)
  have n: "lp_total bss - lp_off bss (Suc j) = length (lp_body ?D @ [LP_EOF])"
    using lp_total_from [of bss "Suc j"] by simp
  obtain x where "memmove lp (length pre) (lp_off bss (Suc j)) (lp_total bss - lp_off bss (Suc j)) =
      Some (pre @ (lp_body ?D @ [LP_EOF]) @ x @ rest)"
    unfolding lp by (rule memmove_left_keep [OF refl s n])
  then show ?case using here lp_off_less [of "Suc j" bss] j n by auto
next
  case (Cons k "is")
  let ?e = "lp_entry_bytes (bss ! j)" and ?Y = "take (k - Suc j) (drop (Suc j) bss)"
  have j: "j < k" "k < length bss" "j < length bss" and so: "sorted_wrt (<) (k # is)" "\<forall>i \<in> set (k # is). i < length bss"
    using Cons.prems(1,2) by auto
  have "drop (Suc j) bss = ?Y @ drop k bss" using j(1) by (metis append_take_drop_id drop_drop le_add_diff_inverse2 Suc_leI)
  then have "lp_body (drop j bss) = ?e @ lp_body ?Y @ lp_body (drop k bss)"
    using Cons_nth_drop_Suc [OF j(3), symmetric] by (metis lp_body_simps(2,3))
  then have lp: "lp = pre @ (junk @ ?e) @ lp_body ?Y @ lp_body (drop k bss) @ LP_EOF # rest"
    using Cons.prems(4) by simp
  have here: "\<exists>b. rd lp (lp_off bss j) = Some b \<and> b \<noteq> LP_EOF" "lpSkip lp (lp_off bss j) = Some (lp_off bss (Suc j))"
    using lp_entry_in_block [OF assms j(3), of lp "pre @ junk"] lp Cons.prems(3) by simp_all
  have s: "lp_off bss (Suc j) = length pre + length (junk @ ?e)"
    using lp_off_Suc [OF j(3)] Cons.prems(3) by (simp add: length_lp_entry_bytes)
  have n: "lp_off bss k = lp_off bss (Suc j) + length (lp_body ?Y)" using lp_off_diff [of "Suc j" k bss] j(1) by simp
  show ?case
  proof (cases "Suc j = k")
    case True
    then have "length pre + length (junk @ ?e) = lp_off bss k" "lp = pre @ (junk @ ?e) @ lp_body (drop k bss) @ LP_EOF # rest"
      using s lp by simp_all
    from Cons.IH [OF so this] True here show ?thesis by auto
  next
    case False
    then have lt: "lp_off bss (Suc j) < lp_off bss k" using lp_off_strict [of "Suc j" k bss] j by simp
    have d: "lp_off bss k - lp_off bss (Suc j) = length (lp_body ?Y)" using n by simp
    obtain x where mv: "memmove lp (length pre) (lp_off bss (Suc j)) (lp_off bss k - lp_off bss (Suc j)) =
        Some (pre @ lp_body ?Y @ x @ lp_body (drop k bss) @ LP_EOF # rest)" and x: "length x = length (junk @ ?e)"
      unfolding lp by (rule memmove_left_keep [OF refl s d])
    have "length (pre @ lp_body ?Y) + length x = lp_off bss k" using x s n by simp
    moreover note d
    ultimately show ?thesis
      using Cons.IH [OF so, of "pre @ lp_body ?Y" x "(pre @ lp_body ?Y) @ x @ lp_body (drop k bss) @ LP_EOF # rest" rest]
        here mv lt by (auto simp: add.assoc)
  qed
qed

text \<open>The entries that stay, by index.\<close>

definition lp_others :: "byte list list \<Rightarrow> nat set \<Rightarrow> byte list list" where
  "lp_others bss I = map ((!) bss) (filter (\<lambda>i. i \<notin> I) [0..<length bss])"

lemma map_nth_upt: "b \<le> length xs \<Longrightarrow> map ((!) xs) [a..<b] = take (b - a) (drop a xs)"
  by (rule nth_equalityI) auto

lemma lp_kept_others:
  "sorted_wrt (<) (j # is) \<Longrightarrow> (\<forall>i \<in> set (j # is). i < length bss) \<Longrightarrow>
    lp_kept bss (j # is) = map ((!) bss) (filter (\<lambda>i. i \<notin> set (j # is)) [j..<length bss])"
proof (induction "is" arbitrary: j)
  case Nil
  then have j: "j < length bss" by simp
  have "filter (\<lambda>i. i \<noteq> j) [Suc j..<length bss] = [Suc j..<length bss]" by (rule filter_True) auto
  with j show ?case by (simp add: upt_conv_Cons map_nth_upt)
next
  case (Cons k "is")
  have j: "j < k" "k < length bss" and so: "sorted_wrt (<) (k # is)" "\<forall>i \<in> set (k # is). i < length bss"
    and lt: "\<forall>i \<in> set is. k < i" using Cons.prems by auto
  have "[Suc j..<length bss] = [Suc j..<k] @ [k..<length bss]"
    using upt_add_eq_append [of "Suc j" k "length bss - k"] j by simp
  then have "[j..<length bss] = j # [Suc j..<k] @ [k..<length bss]" using j by (simp add: upt_conv_Cons)
  moreover have "filter (\<lambda>i. i \<notin> set (j # k # is)) [Suc j..<k] = [Suc j..<k]"
    by (rule filter_True) (use lt in auto)
  moreover have "filter (\<lambda>i. i \<notin> set (j # k # is)) [k..<length bss] = filter (\<lambda>i. i \<notin> set (k # is)) [k..<length bss]"
    by (rule filter_cong) (use j in auto)
  ultimately show ?case using Cons.IH [OF so] j by (simp add: map_nth_upt)
qed

lemma lp_others_kept:
  assumes "sorted_wrt (<) (j # is)" and "\<forall>i \<in> set (j # is). i < length bss"
  shows "lp_others bss (set (j # is)) = take j bss @ lp_kept bss (j # is)"
proof -
  have "[0..<length bss] = [0..<j] @ [j..<length bss]" 
    using upt_add_eq_append [of 0 j "length bss - j"] assms(2) by simp
  moreover have "filter (\<lambda>i. i \<notin> set (j # is)) [0..<j] = [0..<j]"
    by (rule filter_True) (use assms in auto)
  ultimately show ?thesis
    using lp_kept_others [OF assms] assms(2) by (simp add: lp_others_def map_nth_upt)
qed

lemma lp_others_total:
  assumes "sorted_wrt (<) (j # is)" and "\<forall>i \<in> set (j # is). i < length bss"
  shows "lp_total (lp_others bss (set (j # is))) \<le> lp_total bss"
    and "length (lp_others bss (set (j # is))) + length (j # is) = length bss"
    and "lp_entries bss \<Longrightarrow> lp_entries (lp_others bss (set (j # is)))"
proof -
  let ?I = "set (j # is)"
  have "distinct (j # is)" using assms(1) by (auto simp: strict_sorted_iff)
  then have c: "card ?I = length (j # is)" by (rule distinct_card)
  have "set (filter (\<lambda>i. i \<notin> ?I) [0..<length bss]) = {0..<length bss} - ?I" by auto
  then have "length (filter (\<lambda>i. i \<notin> ?I) [0..<length bss]) = card ({0..<length bss} - ?I)"
    by (metis distinct_card distinct_filter distinct_upt)
  also have "\<dots> = length bss - card ?I" using assms(2) by (subst card_Diff_subset) auto
  finally have l: "length (filter (\<lambda>i. i \<notin> ?I) [0..<length bss]) = length bss - card ?I" .
  have "card ?I \<le> card {0..<length bss}" by (rule card_mono) (use assms(2) in auto)
  then show "length (lp_others bss ?I) + length (j # is) = length bss" using l c by (simp add: lp_others_def)
  show "lp_entries bss \<Longrightarrow> lp_entries (lp_others bss ?I)" by (auto simp: lp_entries_def lp_others_def)
  have le: "length (lp_body (map ((!) xs) (filter P [0..<length xs]))) \<le> length (lp_body xs)" for xs P
  proof (induction xs rule: rev_induct)
    case (snoc x xs)
    have "map ((!) (xs @ [x])) (filter P [0..<length xs]) = map ((!) xs) (filter P [0..<length xs])"
      by (auto simp: nth_append)
    then show ?case using snoc by (simp del: map_eq_conv)
  qed simp
  show "lp_total (lp_others bss ?I) \<le> lp_total bss"
    using le [of bss "\<lambda>i. i \<notin> ?I"] by (simp add: lp_others_def lp_total_def)
qed

lemma lpBatchDelete_rep:
  assumes "lp_rep lp bss" and "sorted_wrt (<) is" and "\<forall>i \<in> set is. i < length bss"
    and "al_ok al (lp_total (lp_others bss (set is)))"
  shows "\<exists>lp'. lpBatchDelete al lp (map (lp_off bss) is) = Some lp' \<and> lp_rep lp' (lp_others bss (set is))"
proof (cases "is")
  case Nil
  have "map ((!) bss) [0..<length bss] = bss" by (rule map_nth)
  then show ?thesis using Nil assms(1) by (simp add: lpBatchDelete_def lp_others_def)
next
  case (Cons j js)
  let ?K = "lp_kept bss (j # js)"
  define B where "B = lp_others bss (set (j # js))"
  note a = assms(2,3) [unfolded Cons]
  have B: "B = take j bss @ ?K" using lp_others_kept [OF a] by (simp only: B_def)
  note tot = lp_others_total [OF a, folded B_def]
  from assms(1) obtain num rest where lp: "lp_num_ok num bss" "lp = lp_image num bss @ rest"
    and ok: "lp_entries bss" "lp_total bss < 2 ^ 32" by (auto simp: lp_rep_def)
  let ?pre = "store_le 4 (lp_total bss) @ store_le 2 num @ lp_body (take j bss)"
  have off: "length ?pre = lp_off bss j" by (simp add: lp_off_def LP_HDR_SIZE_def)
  have "lp_body bss = lp_body (take j bss) @ lp_body (drop j bss)" by (metis append_take_drop_id lp_body_simps(3))
  then have lp': "lp = ?pre @ [] @ lp_body (drop j bss) @ LP_EOF # rest" by (simp add: lp(2) lp_image_def)
  obtain rest' where loop: "lpBatchDelete_loop lp (lp_total bss) (lp_off bss j) (map (lp_off bss) (j # js)) =
      Some (?pre @ lp_body ?K @ LP_EOF # rest', lp_off bss j + length (lp_body ?K) + 1)"
    using lpBatchDelete_loop_rep [OF ok(1) a _ lp'] off by auto
  define m where "m = store_le 4 (lp_total bss) @ store_le 2 num @ lp_body B @ [LP_EOF] @ rest'"
  have "lp_off bss j + length (lp_body ?K) + 1 = lp_total B" "?pre @ lp_body ?K @ LP_EOF # rest' = m"
    unfolding B m_def by (simp_all add: lp_total_def lp_off_def)
  note loop = loop [unfolded this]
  have e1: "rd lp (lp_total bss - 1) = Some LP_EOF" "lp_total bss \<noteq> 0"
    using lp_rep_EOF [OF assms(1)] by (simp_all flip: lp_off_length)
  have e2: "rd m (lp_total B - 1) = Some LP_EOF" "lp_total B \<noteq> 0"
    by (simp_all add: m_def lp_total_def LP_HDR_SIZE_def rd_def nth_append)
  obtain lp'' where "lpDelete_finish al m (lp_total B) (length (j # js)) = Some lp''" "lp_rep lp'' B"
    unfolding m_def
    by (rule lpDelete_finish_rep [OF lp(1) tot(3) _ tot(2), of al "lp_total bss" rest'])
      (use ok tot(1) assms(4) Cons B_def in auto)
  moreover have "lp_total bss - (lp_total bss - lp_total B) = lp_total B" using tot(1) by simp
  ultimately show ?thesis
    unfolding Cons lpBatchDelete_def lp_rep_bytes [OF assms(1)] Let_def B_def [symmetric]
    using e1 e2 loop by simp
qed

lemma lpDup_rep:
  assumes "lp_rep lp bss" and "al_ok al (lp_total bss)"
  shows "\<exists>lp'. lpDup al lp = Some lp' \<and> lp_rep lp' bss"
proof -
  from assms(1) obtain num rest where lp: "lp_num_ok num bss" "lp = lp_image num bss @ rest"
    and ok: "lp_entries bss" "lp_total bss < 2 ^ 32" by (auto simp: lp_rep_def)
  have l: "length (lp_image num bss) = lp_total bss" by (simp add: lp_image_def lp_total_def LP_HDR_SIZE_def)
  obtain m where m: "zmalloc_usable al (lp_total bss) = Some m" "lp_total bss \<le> length m"
    using assms(2) by (auto simp: zmalloc_usable_def resize_block_def)
  have "wr m 0 (lp_image num bss) = Some (lp_image num bss @ drop (lp_total bss) m)"
    using m(2) l by (simp add: wr_def)
  moreover have "rdn lp 0 (lp_total bss) = Some (lp_image num bss)" using lp(2) l by (simp add: rdn_def)
  moreover have "lp_rep (lp_image num bss @ drop (lp_total bss) m) bss" using lp(1) ok by (auto simp: lp_rep_def)
  ultimately show ?thesis using m(1) lp_rep_bytes [OF assms(1)] by (simp add: lpDup_def lpBytes_def)
qed

lemma lpEstimateBytesRepeatedInteger_total:
  assumes "lp_total (replicate n (lpEncodeIntegerGetType v)) < 2 ^ 64"
  shows "lpEstimateBytesRepeatedInteger v n = lp_total (replicate n (lpEncodeIntegerGetType v))"
proof -
  have "length (lp_body (replicate n bs)) = (length bs + lpEncodeBacklen_size (length bs)) * n" for bs
    by (induction n) (simp_all add: length_lp_entry_bytes)
  then have "lp_total (replicate n (lpEncodeIntegerGetType v)) = LP_HDR_SIZE +
      (length (lpEncodeIntegerGetType v) + lpEncodeBacklen_size (length (lpEncodeIntegerGetType v))) * n + 1"
    by (simp add: lp_total_def)
  with assms show ?thesis unfolding lpEstimateBytesRepeatedInteger_def Let_def by simp
qed

subsection \<open>Merging\<close>

lemma zrealloc_usable_prefix:
  assumes "al_ok al n" and "k \<le> n" and "k \<le> length m"
  obtains r where "zrealloc_usable al m n = Some (take k m @ r)" and "n \<le> k + length r"
proof -
  let ?u = "map (al_junk al) [min n (length m)..<n + al_slack al n]"
  have "take n m = take k m @ drop k (take n m)" using assms(2) by (metis append_take_drop_id take_take min.absorb1)
  then have "zrealloc_usable al m n = Some (take k m @ (drop k (take n m) @ ?u))"
    using assms(1) by (simp add: zrealloc_usable_def resize_block_def)
  moreover have "n \<le> k + length (drop k (take n m) @ ?u)" using assms by simp
  ultimately show thesis by (rule that)
qed

lemma lp_total_append: "lp_total (A @ B) + LP_HDR_SIZE + 1 = lp_total A + lp_total B"
  by (simp add: lp_total_def)

lemma lpMerge_append:
  assumes "lp_rep a A" and "lp_rep b B" and "al_ok al (lp_total (A @ B))"
  shows "\<exists>t num r. lpMerge_copy al True a (lp_total A) b (lp_total B) (lp_total (A @ B)) =
    Some (store_le 4 t @ store_le 2 num @ lp_body (A @ B) @ [LP_EOF] @ r)"
proof -
  from assms(1) obtain na ra where a: "a = lp_image na A @ ra" by (auto simp: lp_rep_def)
  from assms(2) obtain nb rb where b: "b = lp_image nb B @ rb" by (auto simp: lp_rep_def)
  let ?pre = "store_le 4 (lp_total A) @ store_le 2 na @ lp_body A"
  have l: "length ?pre = lp_total A - 1" "lp_total A - 1 \<le> lp_total (A @ B)" "lp_total A - 1 \<le> length a"
    using lp_rep_total [OF assms(1)] by (simp_all add: lp_total_def LP_HDR_SIZE_def)
  obtain r where r: "zrealloc_usable al a (lp_total (A @ B)) = Some (take (lp_total A - 1) a @ r)"
      "lp_total (A @ B) \<le> lp_total A - 1 + length r"
    by (rule zrealloc_usable_prefix [OF assms(3) l(2,3)])
  have "take (lp_total A - 1) a = ?pre" using l(1) by (simp add: a lp_image_def)
  then have z: "zrealloc_usable al a (lp_total (A @ B)) = Some (?pre @ r)" using r(1) by simp
  let ?ys = "lp_body B @ [LP_EOF]"
  have "rdn b LP_HDR_SIZE (lp_total B - LP_HDR_SIZE) = Some ?ys"
    using rdn_at [of LP_HDR_SIZE "store_le 4 (lp_total B) @ store_le 2 nb" "lp_total B - LP_HDR_SIZE" ?ys rb]
    by (simp add: b lp_image_def lp_total_def LP_HDR_SIZE_def)
  moreover have "length ?ys \<le> length r" using r(2) by (simp add: lp_total_def)
  then have "wr (?pre @ r) (lp_total A - 1) ?ys = Some (?pre @ ?ys @ drop (length ?ys) r)"
    using wr_at [OF l(1) [symmetric], of ?ys "take (length ?ys) r" "drop (length ?ys) r"] by simp
  ultimately have "lpMerge_copy al True a (lp_total A) b (lp_total B) (lp_total (A @ B)) =
      Some (?pre @ ?ys @ drop (length ?ys) r)"
    using z by (simp add: lpMerge_copy_def)
  then show ?thesis by auto
qed

lemma lpMerge_prepend:
  assumes "lp_rep a A" and "lp_rep b B" and "al_ok al (lp_total (A @ B))"
  shows "\<exists>t num r. lpMerge_copy al False b (lp_total B) a (lp_total A) (lp_total (A @ B)) =
    Some (store_le 4 t @ store_le 2 num @ lp_body (A @ B) @ [LP_EOF] @ r)"
proof -
  from assms(1) obtain na ra where a: "a = lp_image na A @ ra" by (auto simp: lp_rep_def)
  from assms(2) obtain nb rb where b: "b = lp_image nb B @ rb" by (auto simp: lp_rep_def)
  let ?pre = "store_le 4 (lp_total A) @ store_le 2 na @ lp_body A" and ?ys = "lp_body B @ [LP_EOF]"
  let ?h = "store_le 4 (lp_total B) @ store_le 2 nb"
  have l: "length ?pre = lp_total A - 1" "lp_total B \<le> lp_total (A @ B)" "lp_total B \<le> length b"
    using lp_rep_total [OF assms(2)] by (simp_all add: lp_total_def LP_HDR_SIZE_def)
  obtain r where r: "zrealloc_usable al b (lp_total (A @ B)) = Some (take (lp_total B) b @ r)"
      "lp_total (A @ B) \<le> lp_total B + length r"
    by (rule zrealloc_usable_prefix [OF assms(3) l(2,3)])
  have "take (lp_total B) b = ?h @ ?ys" by (simp add: b lp_image_def lp_total_def LP_HDR_SIZE_def)
  then have z: "zrealloc_usable al b (lp_total (A @ B)) = Some (?h @ ?ys @ r)" using r(1) by simp
  have rd: "rdn (?h @ ?ys @ r) LP_HDR_SIZE (lp_total B - LP_HDR_SIZE) = Some ?ys"
    by (rule rdn_at) (simp_all add: lp_total_def LP_HDR_SIZE_def)
  let ?m = "?h @ ?ys @ r"
  have len: "lp_total A - 1 + length ?ys \<le> length ?m" using r(2) by (simp add: lp_total_def LP_HDR_SIZE_def)
  have mv: "memmove ?m (lp_total A - 1) LP_HDR_SIZE (lp_total B - LP_HDR_SIZE) =
      Some (take (lp_total A - 1) ?m @ ?ys @ drop (lp_total A - 1 + length ?ys) ?m)"
    using rd len by (simp add: memmove_def wr_def)
  have "rdn a 0 (lp_total A - 1) = Some ?pre"
    using rdn_at [of 0 "[]" "lp_total A - 1" ?pre "[LP_EOF] @ ra"] l(1) by (simp add: a lp_image_def)
  moreover have "wr (take (lp_total A - 1) ?m @ ?ys @ drop (lp_total A - 1 + length ?ys) ?m) 0 ?pre =
      Some (?pre @ ?ys @ drop (lp_total A - 1 + length ?ys) ?m)"
    using wr_at [of 0 "[]" ?pre "take (lp_total A - 1) ?m"] l(1) len by (simp del: drop_append take_append)
  ultimately have "lpMerge_copy al False b (lp_total B) a (lp_total A) (lp_total (A @ B)) =
      Some (?pre @ ?ys @ drop (lp_total A - 1 + length ?ys) ?m)"
    using z mv by (simp add: lpMerge_copy_def del: drop_append take_append)
  then show ?thesis by (auto simp del: drop_append take_append)
qed

lemma lpMerge_rep:
  assumes "lp_rep a A" and "lp_rep b B" and "al_ok al (lp_total (A @ B))"
  shows "if lp_total (A @ B) < 2 ^ 32 - 1
    then \<exists>lp. lpMerge al (Some a) (Some b) False = Some (Some (lp, lp_total A \<ge> lp_total B)) \<and> lp_rep lp (A @ B)
    else lpMerge al (Some a) (Some b) False = None"
proof -
  obtain a' where a': "lpLength a = Some (a', length A)" "lp_rep a' A" using lpLength_rep [OF assms(1)] by auto
  obtain b' where b': "lpLength b = Some (b', length B)" "lp_rep b' B" using lpLength_rep [OF assms(2)] by auto
  have "lp_total A < 2 ^ 32" "lp_total B < 2 ^ 32" using assms(1,2) by (auto simp: lp_rep_def)
  then have bytes: "nat ((int (lp_total A) + int (lp_total B) - int LP_HDR_SIZE - 1) mod 2 ^ 64) = lp_total (A @ B)"
    using lp_total_append [of A B] by (simp add: nat_eq_iff)
  define k where "k = (if length A + length B < 2 ^ 16 - 1 then length A + length B else 2 ^ 16 - 1)"
  have k: "lp_num_ok k (A @ B)" by (simp add: k_def lp_num_ok_def LP_HDR_NUMELE_UNKNOWN_def)
  have ents: "lp_entries (A @ B)" using assms(1,2) by (simp add: lp_rep_def)
  obtain t num r where c: "(if lp_total A \<ge> lp_total B
       then lpMerge_copy al (lp_total A \<ge> lp_total B) a' (lp_total A) b' (lp_total B) (lp_total (A @ B))
       else lpMerge_copy al (lp_total A \<ge> lp_total B) b' (lp_total B) a' (lp_total A) (lp_total (A @ B))) =
     Some (store_le 4 t @ store_le 2 num @ lp_body (A @ B) @ [LP_EOF] @ r)"
    using lpMerge_append [OF a'(2) b'(2) assms(3)] lpMerge_prepend [OF a'(2) b'(2) assms(3)]
    by (cases "lp_total A \<ge> lp_total B") (simp_all only: if_True if_False simp_thms, blast+)
  have "lpMerge al (Some a) (Some b) False = (if lp_total (A @ B) < 2 ^ 32 - 1
      then Some (Some (store_le 4 (lp_total (A @ B)) @ store_le 2 k @ lp_body (A @ B) @ [LP_EOF] @ r, lp_total A \<ge> lp_total B))
      else None)"
    unfolding lpMerge_def lpBytes_def lp_rep_bytes [OF assms(1)] lp_rep_bytes [OF assms(2)] a' b' Let_def
      prod.case option.case Option.bind.simps bytes c k_def [symmetric] lpSetNumElements_at lpSetTotalBytes_at by simp
  then show ?thesis using lp_rep_at_header [OF k, of r] k ents by simp
qed

subsection \<open>The integrity check on arbitrary bytes\<close>

lemma or_push_mod_128:
  "7 \<le> s \<Longrightarrow> (val OR push_bit s x) mod 128 = val mod 128" for val x :: nat
proof -
  assume "7 \<le> s"
  then have "take_bit 7 (val OR push_bit s x) = take_bit 7 val"
    by (simp add: take_bit_or take_bit_push_bit)
  then show ?thesis by (simp add: take_bit_eq_mod)
qed

lemma lpDecodeBacklen_loop_total:
  "7 \<le> s \<Longrightarrow> s \<le> 28 \<Longrightarrow> val < 2 ^ s \<Longrightarrow> 28 \<le> 7 * p + int s \<Longrightarrow> 0 \<le> p \<Longrightarrow> p < int (length m) \<Longrightarrow>
    \<exists>v. lpDecodeBacklen_loop m p val s = Some v \<and> v < 2 ^ 64 \<and> (v = 2 ^ 64 - 1 \<or> v mod 128 = val mod 128)"
proof (induction m p val s rule: lpDecodeBacklen_loop.induct)
  case (1 m p val s)
  obtain b where b: "rd m (nat p) = Some b" using "1.prems" by (simp add: rd_def nat_less_iff)
  let ?val = "val OR push_bit s (unat (b AND 127))"
  have low: "?val mod 128 = val mod 128" using or_push_mod_128 "1.prems"(1) by blast
  have val: "?val < 2 ^ (s + 7)"
  proof -
    have "?val = val + unat b mod 128 * 2 ^ s" using or_push_bit_nat [OF "1.prems"(3)] by (simp add: byte_masks)
    also have "\<dots> < 2 ^ s + 127 * 2 ^ s" by (intro add_less_le_mono "1.prems"(3) mult_le_mono1) simp
    also have "\<dots> = 2 ^ (s + 7)" by (simp add: power_add)
    finally show ?thesis .
  qed
  have "(2 :: nat) ^ (s + 7) \<le> 2 ^ 35" using "1.prems"(2) by (intro power_increasing) simp_all
  then have small: "?val < 2 ^ 64" using val by simp
  show ?case
  proof (cases "b AND 128 = 0 \<or> s + 7 > 28")
    case True
    then show ?thesis using b low small "1.prems"(5) by (subst lpDecodeBacklen_loop.simps) (auto simp: Let_def)
  next
    case False
    then have "28 \<le> 7 * (p - 1) + int (s + 7)" "0 \<le> p - 1" "p - 1 < int (length m)" "7 \<le> s + 7" "s + 7 \<le> 28"
      using "1.prems" by auto
    then obtain v where "lpDecodeBacklen_loop m (p - 1) ?val (s + 7) = Some v" "v < 2 ^ 64" "v = 2 ^ 64 - 1 \<or> v mod 128 = ?val mod 128"
      using "1.IH" [OF _ b refl] False "1.prems"(5) val by auto
    then show ?thesis using b low False "1.prems"(5) by (subst lpDecodeBacklen_loop.simps) (auto simp: Let_def)
  qed
qed

lemma lpDecodeBacklen_total:
  assumes "4 \<le> p" and "rd m p = Some b"
  shows "\<exists>v. lpDecodeBacklen m (int p) = Some v \<and> v < 2 ^ 64 \<and> (v = 2 ^ 64 - 1 \<or> v mod 128 = unat b mod 128)"
proof -
  have p: "p < length m" using assms(2) by (auto simp: rd_def split: if_splits)
  have low: "unat (b AND 127) mod 128 = unat b mod 128" "unat (b AND 127) < 128" by (simp_all add: byte_masks)
  show ?thesis
  proof (cases "b AND 128 = 0")
    case True
    then show ?thesis using assms low by (simp add: lpDecodeBacklen_def lpDecodeBacklen_loop.simps Let_def)
  next
    case False
    then show ?thesis
      using lpDecodeBacklen_loop_total [of 7 "unat (b AND 127)" "int p - 1" m] assms p low
      by (simp add: lpDecodeBacklen_def lpDecodeBacklen_loop.simps [of m "int p"] Let_def)
  qed
qed

lemma drop_reads:
  assumes "drop p lp = b # r"
  shows "rd lp p = Some b" and "r = c # s \<Longrightarrow> rd lp (Suc p) = Some c"
    and "i \<le> length r \<Longrightarrow> rdn lp (Suc p) i = Some (take i r)"
proof -
  have p: "p < length lp" using assms(1) by (metis drop_eq_Nil linorder_not_less list.distinct(1))
  have r: "drop (Suc p) lp = r" using assms(1) by (metis drop_Suc list.sel(3) tl_drop)
  show "rd lp p = Some b" using assms p by (metis Cons_nth_drop_Suc list.inject rd_def)
  show "r = c # s \<Longrightarrow> rd lp (Suc p) = Some c"
    using r by (metis rd_def drop_eq_Nil linorder_not_less list.distinct(1) Cons_nth_drop_Suc list.inject)
  show "i \<le> length r \<Longrightarrow> rdn lp (Suc p) i = Some (take i r)"
    using r p by (auto simp: rdn_def)
qed

text \<open>
  What the size computed for the bytes \<open>b # r\<close> means: they start with an entry of that size, or with a
  32-bit length field so large that the size wraps.
\<close>

definition lp_sized :: "byte \<Rightarrow> byte list \<Rightarrow> nat \<Rightarrow> bool" where
  "lp_sized b r n \<longleftrightarrow> (n \<le> length (b # r) \<longrightarrow> (\<exists>v. lp_entry (take n (b # r)) v)) \<or>
     b = 0xF0 \<and> 2 ^ 32 \<le> 5 + load_le (take 4 r) \<and> n = (5 + load_le (take 4 r)) mod 2 ^ 32"

lemma lp_sized_ints:
  assumes "rd lp p = Some b" and "b \<in> {0xF1, 0xF2, 0xF3, 0xF4}"
  shows "\<exists>n. lpCurrentEncodedSizeUnsafe lp p = Some n \<and> lp_sized b r n"
proof -
  note defs = lpCurrentEncodedSizeUnsafe_def assms(1) lp_sized_def lp_tags
  have ints: "length (take 2 r) = 2 \<Longrightarrow> b = 0xF1 \<Longrightarrow> lp_entry (b # take 2 r) (Inl (load_signed (take 2 r)))"
    "length (take 3 r) = 3 \<Longrightarrow> b = 0xF2 \<Longrightarrow> lp_entry (b # take 3 r) (Inl (load_signed (take 3 r)))"
    "length (take 4 r) = 4 \<Longrightarrow> b = 0xF3 \<Longrightarrow> lp_entry (b # take 4 r) (Inl (load_signed (take 4 r)))"
    "length (take 8 r) = 8 \<Longrightarrow> b = 0xF4 \<Longrightarrow> lp_entry (b # take 8 r) (Inl (load_signed (take 8 r)))"
    by (simp_all only: lp_entry.intros)
  from assms(2) show ?thesis
  proof (elim insertE)
    assume "b = 0xF1" then show ?thesis using ints(1) lp_class_tag [of b] by (auto simp: defs)
  next
    assume "b = 0xF2" then show ?thesis using ints(2) lp_class_tag [of b] by (auto simp: defs)
  next
    assume "b = 0xF3" then show ?thesis using ints(3) lp_class_tag [of b] by (auto simp: defs)
  next
    assume "b = 0xF4" then show ?thesis using ints(4) lp_class_tag [of b] by (auto simp: defs)
  qed simp
qed

lemma lp_sized_str32:
  assumes "drop p lp = 0xF0 # r" and "4 \<le> length r"
  shows "\<exists>n. lpCurrentEncodedSizeUnsafe lp p = Some n \<and> lp_sized 0xF0 r n"
proof -
  let ?l = "load_le (take 4 r)"
  have u: "lpCurrentEncodedSizeUnsafe lp p = Some ((5 + ?l) mod 2 ^ 32)"
    using drop_reads(1,3) [OF assms(1)] assms(2) lp_class_tag [of "0xF0"] by (simp add: lpCurrentEncodedSizeUnsafe_def lp_tags)
  show ?thesis
  proof (cases "5 + ?l < 2 ^ 32")
    case True
    have "length (take 4 r) = 4" using assms(2) by simp
    then have "lp_entry (0xF0 # take 4 r @ take ?l (drop 4 r)) (Inr (take ?l (drop 4 r)))" if "5 + ?l \<le> Suc (length r)"
      using that True by (intro lp_entry.str32) auto
    moreover have "take (5 + ?l) (0xF0 # r) = 0xF0 # take 4 r @ take ?l (drop 4 r)" by (simp add: take_add)
    ultimately show ?thesis using u True by (auto simp: lp_sized_def)
  next
    case False
    then show ?thesis using u by (simp add: lp_sized_def)
  qed
qed

lemma lp_sized_parse:
  assumes "drop p lp = b # r" and "b \<noteq> LP_EOF" and "lpCurrentEncodedSizeBytes lp p = Some k" and "0 < k" and "k \<le> length r"
  shows "\<exists>n. lpCurrentEncodedSizeUnsafe lp p = Some n \<and> lp_sized b r n"
proof -
  note reads = drop_reads(1,2) [OF assms(1)]
  note defs = lpCurrentEncodedSizeUnsafe_def reads(1) lp_sized_def
  obtain x s where x: "r = x # s" using assms(4,5) by (cases r) auto
  consider (a) "unat b < 128" | (b) "unat b div 64 = 2" | (c) "unat b div 32 = 6" | (d) "unat b div 16 = 14"
    | (e) "b \<in> {0xF1, 0xF2, 0xF3, 0xF4}" | (f) "b = 0xF0" "k = 5"
    using assms(2-4) by (auto simp: lpCurrentEncodedSizeBytes_def reads(1) lp_class lp_tags split: if_splits)
  then show ?thesis
  proof cases
    case a
    then show ?thesis using lp_entry.int7 [of b "unat b"] by (auto simp: defs lp_class(1))
  next
    case b
    then have n: "unat b = 128 + unat b mod 64" using div_mult_mod_eq [of "unat b" 64] by simp
    then show ?thesis
      using lp_class_str6 [OF n] lp_entry.str6 [of b "take (unat b mod 64) r"] by (auto simp: defs)
  next
    case c
    then have n: "unat b = 192 + unat b mod 32" using div_mult_mod_eq [of "unat b" 32] by simp
    show ?thesis using lp_class_int13 [OF n] lp_entry.int13 [OF n, where c = x, OF _ refl] x by (auto simp: defs)
  next
    case d
    then have n: "unat b = 224 + unat b mod 16" using div_mult_mod_eq [of "unat b" 16] by simp
    show ?thesis
      using lp_class_str12(1-8) [OF n] lp_class_str12(9) [OF n, of x] reads(2) [OF x] x
        lp_entry.str12 [OF n, where s = "take (256 * (unat b mod 16) + unat x) s" and c = x]
      by (auto simp: defs)
  next
    case e
    then show ?thesis using lp_sized_ints [OF reads(1)] by blast
  next
    case f
    then show ?thesis using lp_sized_str32 [of p lp r] assms(1,5) by simp
  qed
qed

lemma length_4_conv: "length xs = 4 \<longleftrightarrow> (\<exists>a b c d. xs = [a, b, c, d])"
  by (simp add: numeral_eq_Suc length_Suc_conv) blast

text \<open>A wrapped size never agrees with the backward length.\<close>

lemma lp_wrap_rejected:
  assumes "4 \<le> length r" and "2 ^ 32 \<le> 5 + load_le (take 4 r)" and "n = (5 + load_le (take 4 r)) mod 2 ^ 32"
  shows "n < 5" and "unat ((0xF0 # r) ! n) mod 128 \<noteq> n"
proof -
  obtain a b c d where r: "take 4 r = [a, b, c, d]" using assms(1) length_4_conv [of "take 4 r"] by auto
  have l: "load_le (take 4 r) = unat a + 256 * (unat b + 256 * (unat c + 256 * unat d))"
    by (simp add: r load_le_Cons)
  note le = unat_byte [of a] unat_byte [of b] unat_byte [of c] unat_byte [of d]
  have d: "unat d = 255" using assms(2) l le by simp
  have c: "unat c = 255" using assms(2) l le d by simp
  have b: "unat b = 255" using assms(2) l le d c by simp
  have "251 \<le> unat a" using assms(2) l b c d by simp
  then obtain i where i: "unat a = 251 + i" using le_Suc_ex by blast
  then have "5 + load_le (take 4 r) = 2 ^ 32 + i" using l b c d by simp
  then have "n = i mod 2 ^ 32" using assms(3) by (simp only: mod_add_self1)
  then have n: "n = unat a - 251" using i le(1) by simp
  then show lt: "n < 5" using le(1) by simp
  have "r ! i = [a, b, c, d] ! i" if "i < 4" for i using r that by (metis nth_take)
  then have r4: "r ! 0 = a" "r ! 1 = b" "r ! 2 = c" "r ! 3 = d" by simp_all
  consider "n = 0" | "n = 1" | "n = 2" | "n = 3" | "n = 4" using lt by linarith
  then show "unat ((0xF0 # r) ! n) mod 128 \<noteq> n"
  proof cases
    case 2
    then have "unat a = 252" using n by simp
    with 2 show ?thesis using r4 by simp
  qed (use r4 b c d in simp_all)
qed

text \<open>
  One validated entry: its body, and a length field of the right size. The bytes of the field need
  not be those that \<open>lpEncodeBacklen\<close> writes.
\<close>

definition lp_loose :: "byte list \<times> byte list \<Rightarrow> bool" where
  "lp_loose e \<longleftrightarrow> (\<exists>v. lp_entry (fst e) v) \<and> length (snd e) = lpEncodeBacklen_size (length (fst e))"

lemma rd_drop: "drop p lp = b # r \<Longrightarrow> i < length (b # r) \<Longrightarrow> rd lp (p + i) = Some ((b # r) ! i)"
proof -
  assume a: "drop p lp = b # r" "i < length (b # r)"
  then have "length lp - p = length (b # r)" by (metis length_drop)
  then have "p + i < length lp" using a(2) by linarith
  moreover have "lp ! (p + i) = (b # r) ! i" using a(1) \<open>p + i < length lp\<close> by (metis nth_drop add_leD1 less_imp_le)
  ultimately show ?thesis by (simp add: rd_def)
qed

lemma lp_sized_entry:
  assumes "lp_sized b r n" and fits: "\<not> length r < n + lpEncodeBacklen_size n"
    and v: "v = 2 ^ 64 - 1 \<or> v mod 128 = unat ((b # r) ! (n + lpEncodeBacklen_size n - 1)) mod 128"
    and eq: "(v + lpEncodeBacklen_size n) mod 2 ^ 64 = n + lpEncodeBacklen_size n" and "v < 2 ^ 64"
    and "b = 0xF0 \<Longrightarrow> 4 \<le> length r"
  shows "\<exists>w. lp_entry (take n (b # r)) w"
proof -
  have False if wrap: "b = 0xF0" "2 ^ 32 \<le> 5 + load_le (take 4 r)" "n = (5 + load_le (take 4 r)) mod 2 ^ 32"
  proof -
    have n: "n < 5" "unat ((b # r) ! n) mod 128 \<noteq> n" using lp_wrap_rejected [OF assms(6) wrap(2,3)] wrap(1) by simp_all
    then have s: "lpEncodeBacklen_size n = 1" by simp
    have "v = n" using eq s n(1) assms(5) by (cases "v = 2 ^ 64 - 1") (auto simp: mod_if split: if_splits)
    then show False using v n s by simp
  qed
  then show ?thesis using assms(1) fits by (auto simp: lp_sized_def)
qed

lemma lpValidateNext_cases:
  assumes "drop p lp = b # r" and "b \<noteq> LP_EOF" and "LP_HDR_SIZE \<le> p"
  obtains (bad) "lpValidateNext lp (Some (int p)) (length lp) = Some (False, Some (int p))"
  | (good) n v where "lpValidateNext lp (Some (int p)) (length lp) = Some (True, Some (int (p + (n + lpEncodeBacklen_size n))))"
      "lp_sized b r n" "\<not> length r < n + lpEncodeBacklen_size n" "b = 0xF0 \<Longrightarrow> 4 \<le> length r"
      "v = 2 ^ 64 - 1 \<or> v mod 128 = unat ((b # r) ! (n + lpEncodeBacklen_size n - 1)) mod 128" "v < 2 ^ 64"
      "(v + lpEncodeBacklen_size n) mod 2 ^ 64 = n + lpEncodeBacklen_size n"
proof -
  have "length (drop p lp) = length (b # r)" using assms(1) by simp
  then have len: "length lp = p + length (b # r)" by simp
  have oor: "OUT_OF_RANGE (length lp) (int p + int k) \<longleftrightarrow> length r < k" for k
    using assms(3) len by (auto simp: OUT_OF_RANGE_def)
  have oor0: "\<not> OUT_OF_RANGE (length lp) (int p)" using assms(3) len by (auto simp: OUT_OF_RANGE_def)
  note rd0 = drop_reads(1) [OF assms(1)]
  obtain k where k: "lpCurrentEncodedSizeBytes lp p = Some k"
    by (cases "lpCurrentEncodedSizeBytes lp p") (use rd0 in \<open>auto simp: lpCurrentEncodedSizeBytes_def split: if_splits\<close>)
  note defs = lpValidateNext_def rd0 assms(2) oor0 k oor Let_def
  show thesis
  proof (cases "k = 0 \<or> length r < k")
    case True
    then show thesis by (intro bad) (auto simp: defs)
  next
    case False
    obtain n where n: "lpCurrentEncodedSizeUnsafe lp p = Some n" "lp_sized b r n"
      using lp_sized_parse [OF assms(1,2) k] False by auto
    have k4: "b = 0xF0 \<Longrightarrow> 4 \<le> length r"
      using False k rd0 lp_class_tag [of b] by (auto simp: lpCurrentEncodedSizeBytes_def lp_tags)
    let ?t = "n + lpEncodeBacklen_size n"
    show thesis
    proof (cases "length r < ?t")
      case True
      then show thesis using False n(1) by (intro bad) (auto simp: defs)
    next
      case fits: False
      have t1: "1 \<le> lpEncodeBacklen_size n" using lpEncodeBacklen_size_bounds(1) [of n] by simp
      have last: "rd lp (p + (?t - 1)) = Some ((b # r) ! (?t - 1))" using fits t1 by (intro rd_drop [OF assms(1)]) simp
      have "4 \<le> p + (?t - 1)" using assms(3) by (simp add: LP_HDR_SIZE_def)
      then obtain v where v: "lpDecodeBacklen lp (int (p + (?t - 1))) = Some v"
          "v = 2 ^ 64 - 1 \<or> v mod 128 = unat ((b # r) ! (?t - 1)) mod 128" "v < 2 ^ 64"
        using lpDecodeBacklen_total [OF _ last] by blast
      have pos: "int p + int ?t - 1 = int (p + (?t - 1))" using t1 by simp
      show thesis
        using v n k4 fits False pos bad good [of n v]
        by (cases "(v + lpEncodeBacklen_size n) mod 2 ^ 64 = ?t") (simp_all add: defs)
    qed
  qed
qed

definition lp_loose_body :: "(byte list \<times> byte list) list \<Rightarrow> byte list" where
  "lp_loose_body es = concat (map (\<lambda>e. fst e @ snd e) es)"

definition lp_walked :: "mem \<Rightarrow> nat \<Rightarrow> (byte list \<times> byte list) list \<Rightarrow> bool" where
  "lp_walked lp p es \<longleftrightarrow> (\<forall>e \<in> set es. lp_loose e) \<and> p + length (lp_loose_body es) < length lp \<and>
     take (length (lp_loose_body es)) (drop p lp) = lp_loose_body es"

lemma lp_loose_length: "lp_loose e \<Longrightarrow> 0 < length (fst e)"
  using lp_entry_length by (auto simp: lp_loose_def)

lemma lp_loose_body_length: "(\<forall>e \<in> set es. lp_loose e) \<Longrightarrow> length es \<le> length (lp_loose_body es)"
proof (induction es)
  case (Cons e es)
  then have "0 < length (fst e)" and "length es \<le> length (lp_loose_body es)" using lp_loose_length by auto
  then show ?case unfolding lp_loose_body_def by (simp only: list.map concat.simps length_append list.size)
qed simp

lemma lp_walked_Cons:
  "lp_walked lp p [e] \<Longrightarrow> lp_walked lp (p + length (lp_loose_body [e])) es \<Longrightarrow> lp_walked lp p (e # es)"
  by (auto simp: lp_walked_def lp_loose_body_def take_add ac_simps)

lemma lpValidateNext_sound:
  assumes "drop p lp = b # r" and "b \<noteq> LP_EOF" and "LP_HDR_SIZE \<le> p"
  shows "\<exists>ok q. lpValidateNext lp (Some (int p)) (length lp) = Some (ok, q) \<and>
    (ok \<longrightarrow> (\<exists>e. lp_walked lp p [e] \<and> q = Some (int (p + length (lp_loose_body [e])))))"
  using assms
proof (cases rule: lpValidateNext_cases)
  case (good n v)
  have "length (drop p lp) = length (b # r)" using assms(1) by simp
  then have len: "length lp = p + length (b # r)" by simp
  obtain w where w: "lp_entry (take n (b # r)) w"
    using lp_sized_entry [OF good(2,3,5,7,6,4)] by blast
  let ?e = "(take n (b # r), take (lpEncodeBacklen_size n) (drop n (b # r)))"
  have l: "length (fst ?e) = n" "length (snd ?e) = lpEncodeBacklen_size n" using good(3) by auto
  then have "lp_loose ?e" using w by (auto simp: lp_loose_def)
  moreover have "take (n + lpEncodeBacklen_size n) (drop p lp) = fst ?e @ snd ?e"
    unfolding assms(1) by (simp add: take_add del: take_Suc_Cons drop_Suc_Cons)
  ultimately have "lp_walked lp p [?e]" and "length (lp_loose_body [?e]) = n + lpEncodeBacklen_size n"
    using l good(3) len by (simp_all add: lp_walked_def lp_loose_body_def del: take_Suc_Cons)
  with good(1) show ?thesis by metis
qed auto

text \<open>The whole walk: it never faults, and what it accepts is a sequence of entries up to an end marker.\<close>

definition lp_accepts :: "mem \<Rightarrow> nat \<Rightarrow> nat \<Rightarrow> (int option \<times> nat) option \<Rightarrow> bool" where
  "lp_accepts lp p count r \<longleftrightarrow> (\<forall>q c. r = Some (q, c) \<longrightarrow> (\<exists>es. lp_walked lp p es \<and>
     q = Some (int (p + length (lp_loose_body es))) \<and> c = (count + length es) mod 2 ^ 32 \<and>
     rd lp (p + length (lp_loose_body es)) = Some LP_EOF))"

lemma lp_accepts_Cons:
  assumes "lp_walked lp p [e]" and "lp_accepts lp (p + length (lp_loose_body [e])) ((count + 1) mod 2 ^ 32) r"
  shows "lp_accepts lp p count r"
  unfolding lp_accepts_def
proof (intro allI impI)
  fix q c assume "r = Some (q, c)"
  with assms(2) obtain es where es: "lp_walked lp (p + length (lp_loose_body [e])) es"
      "q = Some (int (p + length (lp_loose_body [e]) + length (lp_loose_body es)))"
      "c = ((count + 1) mod 2 ^ 32 + length es) mod 2 ^ 32"
      "rd lp (p + length (lp_loose_body [e]) + length (lp_loose_body es)) = Some LP_EOF"
    unfolding lp_accepts_def by blast
  have "length (lp_loose_body (e # es)) = length (lp_loose_body [e]) + length (lp_loose_body es)"
    by (simp add: lp_loose_body_def)
  moreover have "c = (count + length (e # es)) mod 2 ^ 32" unfolding es(3) mod_add_left_eq by simp
  ultimately show "\<exists>es. lp_walked lp p es \<and> q = Some (int (p + length (lp_loose_body es))) \<and>
      c = (count + length es) mod 2 ^ 32 \<and> rd lp (p + length (lp_loose_body es)) = Some LP_EOF"
    using lp_walked_Cons [OF assms(1) es(1)] es(2,4) by (intro exI [of _ "e # es"]) (simp add: add.assoc)
qed

lemma lpValidate_loop_sound:
  "LP_HDR_SIZE \<le> p \<Longrightarrow> p < length lp \<Longrightarrow> count < 2 ^ 32 \<Longrightarrow>
    \<exists>r u'. lpValidate_loop lp (length lp) numele cb (Some (int p)) count u = Some (r, u') \<and> lp_accepts lp p count r"
proof (induction "length lp - p" arbitrary: p count u rule: less_induct)
  case less
  obtain b r where br: "drop p lp = b # r" using less.prems(2) by (metis Cons_nth_drop_Suc)
  note rd0 = drop_reads(1) [OF br]
  show ?case
  proof (cases "b = LP_EOF")
    case True
    have "lp_accepts lp p count (Some (Some (int p), count))"
      using True rd0 less.prems(2,3)
      by (auto simp: lp_accepts_def lp_walked_def lp_loose_body_def intro!: exI [of _ "[]"])
    with True rd0 show ?thesis by (subst lpValidate_loop.simps) simp
  next
    case False
    obtain ok q where v: "lpValidateNext lp (Some (int p)) (length lp) = Some (ok, q)"
        "ok \<Longrightarrow> \<exists>e. lp_walked lp p [e] \<and> q = Some (int (p + length (lp_loose_body [e])))"
      using lpValidateNext_sound [OF br False less.prems(1)] by blast
    obtain go u1 where go: "(case cb of None \<Rightarrow> (True, u) | Some cb \<Rightarrow> cb (nat (int p)) numele u) = (go, u1)" by (rule prod.exhaust)
    show ?thesis
    proof (cases "ok \<and> go")
      case stop: False
      have "lp_accepts lp p count None" by (simp add: lp_accepts_def)
      then show ?thesis using stop rd0 False v(1) go by (subst lpValidate_loop.simps) (cases ok, simp_all)
    next
      case True
      then obtain e where e: "lp_walked lp p [e]" "q = Some (int (p + length (lp_loose_body [e])))" using v(2) by blast
      then have "0 < length (lp_loose_body [e])" "p + length (lp_loose_body [e]) < length lp"
        using lp_loose_length [of e] by (auto simp: lp_walked_def lp_loose_body_def)
      then have "length lp - (p + length (lp_loose_body [e])) < length lp - p" "LP_HDR_SIZE \<le> p + length (lp_loose_body [e])"
          "p + length (lp_loose_body [e]) < length lp" using less.prems(1) by linarith+
      from less.hyps [OF this, of "(count + 1) mod 2 ^ 32" u1]
      obtain r' u' where "lpValidate_loop lp (length lp) numele cb q ((count + 1) mod 2 ^ 32) u1 = Some (r', u')"
          "lp_accepts lp (p + length (lp_loose_body [e])) ((count + 1) mod 2 ^ 32) r'"
        unfolding e(2) by auto
      with lp_accepts_Cons [OF e(1)] rd0 False v(1) go True show ?thesis
        by (subst lpValidate_loop.simps) simp
    qed
  qed
qed

lemma lp_header_split:
  assumes "7 \<le> length lp" and "lpGetTotalBytes lp = Some (length lp)"
  obtains num where "lpGetNumElements lp = Some num" and "num < 2 ^ 16"
    and "lp = store_le 4 (length lp) @ store_le 2 num @ drop LP_HDR_SIZE lp"
proof -
  let ?h = "take 4 lp" and ?n = "take 2 (drop 4 lp)"
  have l: "length ?h = 4" "length ?n = 2" using assms(1) by auto
  have "load_le ?h = length lp" using assms by (simp add: lpGetTotalBytes_def rdn_def)
  then have h: "?h = store_le 4 (length lp)" using store_le_load_le [of ?h] l by simp
  have n: "?n = store_le 2 (load_le ?n)" using store_le_load_le [of ?n] l by simp
  have "lp = ?h @ ?n @ drop 2 (drop 4 lp)" by (metis append_take_drop_id)
  then have "lp = store_le 4 (length lp) @ store_le 2 (load_le ?n) @ drop LP_HDR_SIZE lp"
    using h n by (simp add: LP_HDR_SIZE_def)
  moreover have "lpGetNumElements lp = Some (load_le ?n)" using assms(1) by (simp add: lpGetNumElements_def rdn_def)
  moreover have "load_le ?n < 2 ^ 16" using load_le_less [of ?n] l(2) by simp
  ultimately show thesis by (intro that)
qed

text \<open>What the check accepts.\<close>

definition lp_loose_image :: "mem \<Rightarrow> bool" where
  "lp_loose_image lp \<longleftrightarrow> (\<exists>num es. (\<forall>e \<in> set es. lp_loose e) \<and> (num = LP_HDR_NUMELE_UNKNOWN \<or> num = length es) \<and> num < 2 ^ 16 \<and>
     lp = store_le 4 (length lp) @ store_le 2 num @ lp_loose_body es @ [LP_EOF])"

lemma lp_accepts_image:
  assumes "7 \<le> length lp" and "lpGetTotalBytes lp = Some (length lp)" and "lpGetNumElements lp = Some num"
    and "lp_accepts lp LP_HDR_SIZE 0 (Some (Some (int (length lp) - 1), c))" and "num = LP_HDR_NUMELE_UNKNOWN \<or> num = c"
  shows "lp_loose_image lp"
proof -
  obtain num' where n: "lpGetNumElements lp = Some num'" "num' < 2 ^ 16"
      "lp = store_le 4 (length lp) @ store_le 2 num' @ drop LP_HDR_SIZE lp"
    by (rule lp_header_split [OF assms(1,2)])
  have "length lp < 2 ^ 32"
    using assms(2) load_le_less [of "take 4 lp"] by (auto simp: lpGetTotalBytes_def rdn_def split: if_splits)
  from assms(4) obtain es where es: "lp_walked lp LP_HDR_SIZE es" "length lp - 1 = LP_HDR_SIZE + length (lp_loose_body es)"
      "c = length es mod 2 ^ 32" "rd lp (length lp - 1) = Some LP_EOF"
    using assms(1) by (fastforce simp: lp_accepts_def)
  have "length es < 2 ^ 32"
    using lp_loose_body_length [of es] es(1) \<open>length lp < 2 ^ 32\<close> by (auto simp: lp_walked_def)
  then have c: "c = length es" using es(3) by simp
  let ?k = "length (lp_loose_body es)"
  have "drop LP_HDR_SIZE lp = take ?k (drop LP_HDR_SIZE lp) @ drop ?k (drop LP_HDR_SIZE lp)"
    by (rule append_take_drop_id [symmetric])
  moreover have "drop ?k (drop LP_HDR_SIZE lp) = [LP_EOF]"
  proof -
    have "drop (length lp - 1) lp = [lp ! (length lp - 1)]"
      using assms(1) Cons_nth_drop_Suc [of "length lp - 1" lp] by simp
    then show ?thesis using es(2,4) assms(1) by (simp add: rd_def add.commute split: if_splits)
  qed
  ultimately have "drop LP_HDR_SIZE lp = lp_loose_body es @ [LP_EOF]" using es(1) by (simp add: lp_walked_def)
  then show ?thesis using n es(1) c assms(3,5) unfolding lp_loose_image_def lp_walked_def by auto
qed

lemma lpValidateIntegrity_sound:
  "\<exists>b u'. lpValidateIntegrity lp (length lp) deep cb u = Some (b, u') \<and> (b \<and> deep \<longrightarrow> lp_loose_image lp)"
proof (cases "length lp < LP_HDR_SIZE + 1")
  case True
  then show ?thesis by (auto simp: lpValidateIntegrity_def)
next
  case False
  then have l: "7 \<le> length lp" by (simp add: LP_HDR_SIZE_def)
  then obtain t where t: "lpGetTotalBytes lp = Some t" by (simp add: lpGetTotalBytes_def rdn_def)
  have "length lp - 1 < length lp" using l by linarith
  then obtain b where b: "rd lp (length lp - 1) = Some b" by (simp only: rd_def if_True)
  note defs = lpValidateIntegrity_def False t b [unfolded One_nat_def]
  show ?thesis
  proof (cases "t = length lp \<and> b = LP_EOF \<and> deep")
    case stop: False
    then show ?thesis by (auto simp: defs)
  next
    case True
    then have tl: "lpGetTotalBytes lp = Some (length lp)" using t by simp
    obtain num where n: "lpGetNumElements lp = Some num" by (rule lp_header_split [OF l tl])
    obtain r u' where r: "lpValidate_loop lp (length lp) num cb (Some (int LP_HDR_SIZE)) 0 u = Some (r, u')"
        "lp_accepts lp LP_HDR_SIZE 0 r"
      using lpValidate_loop_sound [of LP_HDR_SIZE lp 0 num cb u] l by (auto simp: LP_HDR_SIZE_def)
    have "lp_loose_image lp" if "r = Some (Some (int (length lp) - 1), c)" "num = LP_HDR_NUMELE_UNKNOWN \<or> num = c" for c
      using lp_accepts_image [OF l tl n, of c] r(2) that by (simp only:)
    then show ?thesis using True n r(1) by (cases r) (auto simp: defs)
  qed
qed

lemma lpValidate_loop_rep:
  assumes "lp_rep lp bss"
  shows "i \<le> length bss \<Longrightarrow> count + length bss - i < 2 ^ 32 \<Longrightarrow>
    lpValidate_loop lp (lp_total bss) num None (Some (int (lp_off bss i))) count u =
      Some (Some (Some (int (lp_off bss (length bss))), count + (length bss - i)), u)"
proof (induction "length bss - i" arbitrary: i count)
  case 0
  then show ?case using lp_rep_EOF [OF assms] by (subst lpValidate_loop.simps) simp
next
  case (Suc n)
  then have i: "i < length bss" by simp
  obtain b where b: "rd lp (lp_off bss i) = Some b" "b \<noteq> LP_EOF" using lp_rep_hd [OF assms i] by auto
  have "(count + 1) mod 2 ^ 32 = count + 1" using Suc.prems(2) i by simp
  then show ?case
    using Suc.hyps(1) [of "Suc i" "count + 1"] Suc.hyps(2) Suc.prems i b lpValidateNext_rep [OF assms i]
    by (subst lpValidate_loop.simps) simp
qed

lemma lpValidateIntegrity_complete:
  assumes "lp_rep lp bss" and "length lp = lp_total bss"
  shows "lpValidateIntegrity lp (length lp) True None u = Some (True, u)"
proof -
  obtain num where num: "lpGetNumElements lp = Some num" "lp_num_ok num bss" by (rule lp_rep_num [OF assms(1)])
  have "length bss \<le> length (lp_body bss)"
  proof (induction bss)
    case (Cons b bss)
    then show ?case using lpEncodeBacklen_size_bounds(1) [of "length b"] by (simp add: length_lp_entry_bytes)
  qed simp
  then have "length bss < 2 ^ 32" using assms(1) by (simp add: lp_rep_def lp_total_def)
  then have loop: "lpValidate_loop lp (lp_total bss) num None (Some (int LP_HDR_SIZE)) 0 u =
      Some (Some (Some (int (lp_off bss (length bss))), length bss), u)"
    using lpValidate_loop_rep [OF assms(1), of 0 0 num u] by simp
  have off: "lp_off bss (length bss) = lp_total bss - Suc 0" "LP_HDR_SIZE + 1 \<le> lp_total bss"
    using lp_off_length [of bss] by (simp_all add: lp_total_def)
  then have "int (lp_off bss (length bss)) = int (lp_total bss) - 1" by (simp add: of_nat_diff)
  moreover have "rd lp (lp_total bss - Suc 0) = Some LP_EOF" using lp_rep_EOF [OF assms(1)] by (simp only: off)
  ultimately show ?thesis
    using lp_rep_bytes [OF assms(1)] num loop off(2) assms(2)
    by (auto simp: lpValidateIntegrity_def lp_num_ok_def)
qed

subsection \<open>Properties\<close>

text \<open>C12: \<open>lpFind\<close> from an entry on, looking at every \<open>skip + 1\<close>-th entry, returns the first one whose text
  is the given string, whether that entry is stored as a string or as an integer, and NULL if there is none.
  It reads only inside the listpack and trips no assertion.\<close>

theorem lpFind_finds:
  assumes "lp_rep lp bss" and "i < length bss" and "skip < 2 ^ 31"
  shows "lpFind lp (lp_off bss i) s skip = Some (map_option (lp_off bss)
    (List.find (\<lambda>j. (j - i) mod (skip + 1) = 0 \<and> lp_text (bss ! j) = s) [i..<length bss]))"
proof -
  have "lp_find_index bss s skip i 0 = List.find (\<lambda>j. (j - i) mod (skip + 1) = 0 \<and> lp_text (bss ! j) = s) [i..<length bss]"
    unfolding lp_find_index_def by (rule find_set_cong) auto
  then show ?thesis using lpFind_rep [OF assms] by simp
qed

theorem lpFind_finds_witness: "lpFind lp_ex 6 [97] 0 = Some (Some 8)"
proof -
  have "lp_entry [0x81, 97] (Inr [97])" using lp_entry.str6 [of "0x81" "[97]"] by simp
  moreover have "lp_entry [5] (Inl 5)" using lp_entry.int7 [of 5 5] by simp
  ultimately have "lp_text [0x81, 97] = [97]" "lp_text [5] = sdec 5" by (simp_all add: lp_text_def lp_entry_value)
  moreover have "sdec 5 \<noteq> [97]" by code_simp
  moreover have "lp_off lp_ex_entries 0 = 6" "lp_off lp_ex_entries 1 = 8"
    by (simp_all add: lp_ex_entries_def lp_off_def lp_entry_bytes_def LP_HDR_SIZE_def lpEncodeBacklen_def)
  ultimately show ?thesis
    using lpFind_finds [OF lp_ex_rep, of 0 0 "[97]"] by (simp add: lp_ex_entries_def upt_rec)
qed

text \<open>C29: \<open>lpDeleteRange\<close> removes \<open>num\<close> entries from a signed index on, all entries to the end when there are
  fewer, none when the index is out of range; the other entries stay as they are.\<close>

theorem lpDeleteRange_removes:
  assumes "lp_rep lp bss" and "total_al al"
  shows "\<exists>lp'. lpDeleteRange al lp index num = Some lp' \<and>
    lp_rep lp' (let i = (if index < 0 then int (length bss) + index else index) in
      if 0 \<le> i \<and> i < int (length bss) then take (nat i) bss @ drop (nat i + num) bss else bss)"
  using lpDeleteRange_rep [OF assms(1), of al index num] assms(2) by (simp add: total_al_def lp_without_def)

theorem lpDeleteRange_removes_witness:
  "\<exists>lp'. lpDeleteRange calm_al lp_ex (- 1) 3 = Some lp' \<and> lp_rep lp' [[5]]"
  using lpDeleteRange_removes [OF lp_ex_rep total_calm_al, of "- 1" 3] by (simp add: lp_ex_entries_def)

text \<open>C10: \<open>lpBatchDelete\<close> with pointers to distinct entries in order removes exactly these entries.\<close>

theorem lpBatchDelete_removes:
  assumes "lp_rep lp bss" and "sorted_wrt (<) is" and "\<forall>i \<in> set is. i < length bss" and "total_al al"
  shows "\<exists>lp'. lpBatchDelete al lp (map (lp_off bss) is) = Some lp' \<and>
    lp_rep lp' (map ((!) bss) (filter (\<lambda>i. i \<notin> set is) [0..<length bss]))"
  using lpBatchDelete_rep [OF assms(1-3), of al] assms(4) by (simp add: total_al_def lp_others_def)

theorem lpBatchDelete_removes_witness:
  "\<exists>lp'. lpBatchDelete calm_al lp_ex [6] = Some lp' \<and> lp_rep lp' [[0x81, 97]]"
proof -
  have "map ((!) lp_ex_entries) (filter (\<lambda>i. i \<notin> set [0]) [0..<length lp_ex_entries]) = [[0x81, 97]]"
    by (simp add: lp_ex_entries_def)
  moreover have "map (lp_off lp_ex_entries) [0] = [6]" by (simp add: LP_HDR_SIZE_def)
  moreover have "\<forall>i \<in> set [0]. i < length lp_ex_entries" by (simp add: lp_ex_entries_def)
  ultimately show ?thesis
    using lpBatchDelete_removes [OF lp_ex_rep _ _ total_calm_al, of "[0]"] by simp
qed

text \<open>C13: \<open>lpMerge\<close> of two well-formed listpacks holds the entries of the first followed by those of the second,
  in the block of the larger one, as long as the result has fewer than \<^verbatim>\<open>UINT32_MAX\<close> bytes; otherwise the
  assertion on the size fails. One byte more would still fit the header.\<close>

theorem lpMerge_concatenates:
  assumes "lp_rep a A" and "lp_rep b B" and "total_al al"
  shows "if lp_total (A @ B) < 2 ^ 32 - 1
    then \<exists>lp. lpMerge al (Some a) (Some b) False = Some (Some (lp, lp_total A \<ge> lp_total B)) \<and> lp_rep lp (A @ B)
    else lpMerge al (Some a) (Some b) False = None"
  using lpMerge_rep [OF assms(1,2), of al] assms(3) by (simp add: total_al_def)

theorem lpMerge_concatenates_witness:
  "\<exists>lp. lpMerge calm_al (Some lp_ex) (Some lp_ex) False = Some (Some (lp, True)) \<and> lp_rep lp (lp_ex_entries @ lp_ex_entries)"
proof -
  have "lp_total (lp_ex_entries @ lp_ex_entries) < 2 ^ 32 - 1"
    by (simp add: lp_total_def lp_ex_entries_def length_lp_entry_bytes LP_HDR_SIZE_def lpEncodeBacklen_size_def)
  then show ?thesis using lpMerge_concatenates [OF lp_ex_rep lp_ex_rep total_calm_al] by simp
qed

text \<open>C11: on any bytes whatsoever \<open>lpValidateIntegrity\<close> returns, and reads only inside them, with or without a
  callback. What it accepts in depth is a header with the right size and count, a sequence of entries in
  the format, each followed by a length field of the right size, and the end marker. It accepts every
  well-formed listpack.\<close>

theorem lpValidateIntegrity_safe:
  "(\<exists>b u'. lpValidateIntegrity lp (length lp) deep cb u = Some (b, u') \<and> (b \<and> deep \<longrightarrow> lp_loose_image lp)) \<and>
   (lp_rep lp bss \<and> length lp = lp_total bss \<longrightarrow> lpValidateIntegrity lp (length lp) True None u = Some (True, u))"
  using lpValidateIntegrity_complete [of lp bss u] by (intro conjI impI lpValidateIntegrity_sound) simp

theorem lpValidateIntegrity_safe_witness: "lpValidateIntegrity lp_ex (length lp_ex) True None () = Some (True, ())"
proof -
  have "length lp_ex = lp_total lp_ex_entries"
    by (simp add: lp_ex_def lp_image_def lp_total_def LP_HDR_SIZE_def)
  then show ?thesis using lpValidateIntegrity_safe [of lp_ex True None "()" lp_ex_entries] lp_ex_rep by blast
qed

text \<open>A forged listpack, and the block after a string was prepended to it.\<close>

definition lp_forged :: mem where
  "lp_forged = [9, 0, 0, 0, 1, 0, 0x80, 0x81, 0xFF]"

definition lp_forged_pushed :: mem where
  "lp_forged_pushed = [12, 0, 0, 0, 2, 0, 0x81, 97, 2, 0x80, 0x81, 0xFF]"

lemmas lp_eval = rd_def rdn_def lp_class lp_tags LP_ENCODING_6BIT_STR_LEN_def LP_EOF_def LP_HDR_SIZE_def byte_masks
  lpCurrentEncodedSizeUnsafe_def lpCurrentEncodedSizeBytes_def lpEncodeBacklen_size_def OUT_OF_RANGE_def
  lpDecodeBacklen_def lpDecodeBacklen_loop.simps lp_continues lpGetTotalBytes_def lpGetNumElements_def LP_HDR_NUMELE_UNKNOWN_def load_le_Cons

lemma lp_forged_next: "lpNext lp_forged_pushed 6 = None"
  by (simp add: lpNext_def lpSkip_def lpBytes_def lpAssertValidEntry_def lpValidateNext_def lp_eval lp_forged_pushed_def Let_def)
lemma lp_forged_valid: "lpValidateIntegrity lp_forged (length lp_forged) True None () = Some (True, ())"
  by (simp add: lpValidateIntegrity_def lpValidate_loop.simps lpValidateNext_def lp_eval lp_forged_def Let_def)
lemma lp_forged_prepend: "lpPrepend calm_al lp_forged [97] = Some (Some lp_forged_pushed)"
proof -
  have "store_le 4 12 = [12, 0, 0, 0]" "store_le 2 (Suc (Suc 0)) = [2, 0]" by code_simp+
  then have "lpInsert calm_al lp_forged (EleStr [97]) 6 LP_BEFORE = Some (Some (lp_forged_pushed, Some 6))"
    by (simp add: lpInsert_def lpInsert_at_def lpInsert_enc_def lpEncodeGetType_def lpStringToInt64_def lpInsert_replaced_def
      lpInsert_move_def lpInsert_store_def lpInsert_count_def lpEncodeString_def lpEncodeBacklen_def memmove_def wr_def
      zrealloc_usable_def resize_block_def calm_al_def lpSetNumElements_def lpSetTotalBytes_def lp_eval lp_forged_def lp_forged_pushed_def)
  then show ?thesis
    by (simp add: lpPrepend_def lpFirst_def lpBytes_def lpAssertValidEntry_def lpValidateNext_def lp_eval lp_forged_def Let_def)
qed

text \<open>The check of the length field is not local: a listpack whose only entry is an empty string with the
  length byte 0x81 passes the integrity check in depth, because the decoding runs on into the header.
  After a string is prepended to it, stepping from that string to the entry trips the assertion of \<open>lpNext\<close>.\<close>

lemma lp_forged_passes_then_asserts:
  "lpValidateIntegrity lp_forged (length lp_forged) True None () = Some (True, ()) \<and>
   lpPrepend calm_al lp_forged [97] = Some (Some lp_forged_pushed) \<and> lpNext lp_forged_pushed 6 = None"
  by (intro conjI lp_forged_valid lp_forged_prepend lp_forged_next)

end
