(* ===== verification/Double.thy ===== *)
theory Double
  imports Complex_Main
begin

text \<open>
  Double-precision arithmetic. A double is the real number it stands for, and an operation rounds its exact result to 53
  bits, ties to even. The exponent is not bounded: infinities, NaN and subnormal numbers are not values of the model, and
  the code that can produce them says so where it divides.
\<close>

type_synonym double = real

fun bits :: "nat \<Rightarrow> nat" where
  "bits n = (if n = 0 then 0 else Suc (bits (n div 2)))"

declare bits.simps [simp del]

definition half_even :: "real \<Rightarrow> int" where
  "half_even y =
    (let f = \<lfloor>y\<rfloor>; d = y - of_int f
     in if d < 1 / 2 then f else if d > 1 / 2 then f + 1 else if even f then f else f + 1)"

definition scale :: "int \<Rightarrow> real \<Rightarrow> real" where
  "scale e x = (if e \<ge> 0 then x * 2 ^ nat e else x / 2 ^ nat (- e))"

text \<open>The exponent of the last of the 53 bits: a number from \<open>2 ^ (k - 1)\<close> on and below \<open>2 ^ k\<close> has \<open>k - 53\<close>.\<close>

definition ulp_exp :: "real \<Rightarrow> int" where
  "ulp_exp x = (if \<bar>x\<bar> \<ge> 1 then int (bits (nat \<lfloor>\<bar>x\<bar>\<rfloor>)) else 1 - int (bits (nat (\<lceil>1 / \<bar>x\<bar>\<rceil> - 1)))) - 53"

definition rne :: "real \<Rightarrow> double" where
  "rne x = (if x = 0 then 0 else scale (ulp_exp x) (of_int (half_even (scale (- ulp_exp x) x))))"

definition f_int :: "int \<Rightarrow> double" where
  "f_int n = rne (of_int n)"

definition f_add :: "double \<Rightarrow> double \<Rightarrow> double" where
  "f_add x y = rne (x + y)"

definition f_sub :: "double \<Rightarrow> double \<Rightarrow> double" where
  "f_sub x y = rne (x - y)"

definition f_mul :: "double \<Rightarrow> double \<Rightarrow> double" where
  "f_mul x y = rne (x * y)"

definition f_quot :: "double \<Rightarrow> double \<Rightarrow> double" where
  "f_quot x y = rne (x / y)"

subsection \<open>The rounding is the one of the standard\<close>

lemma bits_range: "n \<noteq> 0 \<Longrightarrow> 2 ^ bits n \<le> 2 * n \<and> n < 2 ^ bits n"
proof (induction n rule: bits.induct)
  case (1 n)
  show ?case
  proof (cases "n = 1")
    case True
    then show ?thesis by (simp add: bits.simps)
  next
    case False
    then have "n div 2 \<noteq> 0" using 1(2) by linarith
    with 1 have "2 ^ bits (n div 2) \<le> 2 * (n div 2) \<and> n div 2 < 2 ^ bits (n div 2)" by blast
    then have "2 ^ bits (n div 2) \<le> n \<and> n < 2 * 2 ^ bits (n div 2)" by linarith
    then show ?thesis using 1(2) by (subst (1 2) bits.simps) simp
  qed
qed

lemma bits_le: "n < 2 ^ k \<Longrightarrow> bits n \<le> k"
proof (cases "n = 0")
  case False
  assume n: "n < 2 ^ k"
  have "(2 :: nat) ^ bits n < 2 * 2 ^ k" using bits_range [OF False] n by linarith
  then have "(2 :: nat) ^ bits n < 2 ^ Suc k" by simp
  then have "bits n < Suc k" by (subst (asm) power_strict_increasing_iff) simp_all
  then show ?thesis by simp
qed (simp add: bits.simps)

lemma scale_powi: "scale e x = x * 2 powi e"
  by (auto simp: scale_def power_int_def field_simps)

lemma scale_inverse [simp]: "scale e (scale (- e) x) = x"
  by (simp add: scale_powi power_int_minus)

text \<open>The scaled number has its leading bit in front of 52 others.\<close>

lemma ulp_exp_range:
  assumes "x \<noteq> 0"
  shows "2 ^ 52 \<le> scale (- ulp_exp x) \<bar>x\<bar> \<and> scale (- ulp_exp x) \<bar>x\<bar> < 2 ^ 53"
proof -
  define k where "k = ulp_exp x + 53"
  have "2 powi (k - 1) \<le> \<bar>x\<bar> \<and> \<bar>x\<bar> < 2 powi k"
  proof (cases "1 \<le> \<bar>x\<bar>")
    case True
    define n where "n = nat \<lfloor>\<bar>x\<bar>\<rfloor>"
    have n: "real n \<le> \<bar>x\<bar>" "\<bar>x\<bar> < real n + 1" "n \<noteq> 0" using True unfolding n_def by linarith+
    have "real (2 ^ bits n) \<le> real (2 * n)" "real n + 1 \<le> real (2 ^ bits n)"
      using bits_range [OF n(3)] by (simp_all only: of_nat_le_iff of_nat_Suc [symmetric] Suc_le_eq of_nat_less_iff add.commute [of _ 1])
    moreover have "k = int (bits n)" using True by (simp add: k_def ulp_exp_def n_def)
    ultimately show ?thesis using n by (simp add: power_int_diff)
  next
    case False
    define n where "n = nat (\<lceil>1 / \<bar>x\<bar>\<rceil> - 1)"
    have y: "1 < 1 / \<bar>x\<bar>" using False assms by simp
    then have n: "real n < 1 / \<bar>x\<bar>" "1 / \<bar>x\<bar> \<le> real n + 1" "n \<noteq> 0" unfolding n_def by linarith+
    have "real (2 ^ bits n) \<le> real (2 * n)" "real n + 1 \<le> real (2 ^ bits n)"
      using bits_range [OF n(3)] by (simp_all only: of_nat_le_iff of_nat_Suc [symmetric] Suc_le_eq of_nat_less_iff add.commute [of _ 1])
    then have "2 ^ bits n < 2 / \<bar>x\<bar>" "1 / \<bar>x\<bar> \<le> 2 ^ bits n" using n by simp_all
    moreover have k: "k = 1 - int (bits n)" using False by (simp add: k_def ulp_exp_def n_def)
    have "2 powi (1 - int (bits n)) = (2 :: real) / 2 ^ bits n" "2 powi (1 - int (bits n) - 1) = (1 :: real) / 2 ^ bits n"
      by (simp_all add: power_int_diff power_int_minus field_simps)
    ultimately show ?thesis using assms unfolding k by (simp only:) (simp add: field_simps)
  qed
  moreover have "2 powi (k - 1) = (2 powi k / 2 :: real)" by (simp add: power_int_diff)
  moreover have s: "scale (- ulp_exp x) \<bar>x\<bar> = \<bar>x\<bar> * 2 ^ 53 / 2 powi k" by (simp add: scale_powi k_def power_int_minus power_int_add field_simps)
  moreover have "(0 :: real) < 2 powi k" by simp
  ultimately show ?thesis unfolding s by (simp only: pos_le_divide_eq pos_divide_less_eq) simp
qed

lemma half_even_near: "\<bar>of_int (half_even y) - y\<bar> \<le> 1 / 2"
  unfolding half_even_def Let_def by (auto split: if_splits)

lemma half_even_int [simp]: "half_even (of_int n) = n"
  by (simp add: half_even_def)

lemma half_even_le: "y \<le> of_int n \<Longrightarrow> half_even y \<le> n"
  unfolding half_even_def Let_def by (auto split: if_splits) linarith+

text \<open>The error is at most half a unit in the last place.\<close>

lemma rne_near: "x \<noteq> 0 \<Longrightarrow> \<bar>rne x - x\<bar> \<le> 2 powi ulp_exp x / 2"
proof -
  assume "x \<noteq> 0"
  let ?e = "ulp_exp x" and ?y = "scale (- ulp_exp x) x"
  have "rne x - x = scale ?e (of_int (half_even ?y) - ?y)"
    using \<open>x \<noteq> 0\<close> by (simp add: rne_def scale_powi left_diff_distrib power_int_minus)
  then have "\<bar>rne x - x\<bar> = \<bar>of_int (half_even ?y) - ?y\<bar> * 2 powi ?e" by (simp add: scale_powi abs_mult)
  also have "\<dots> \<le> 1 / 2 * 2 powi ?e" using half_even_near by (intro mult_right_mono) simp_all
  finally show ?thesis by simp
qed

text \<open>Integers of at most 53 bits are doubles.\<close>

lemma rne_int: "\<bar>n\<bar> < 2 ^ 53 \<Longrightarrow> rne (of_int n) = of_int n"
proof (cases "n = 0")
  case False
  assume n: "\<bar>n\<bar> < 2 ^ 53"
  have f: "\<lfloor>\<bar>real_of_int n\<bar>\<rfloor> = \<bar>n\<bar>" by (simp add: of_int_abs [symmetric] del: of_int_abs)
  have "nat \<bar>n\<bar> < 2 ^ 53" using n by (simp add: nat_less_iff)
  then have "bits (nat \<bar>n\<bar>) \<le> 53" by (rule bits_le)
  moreover have "1 \<le> \<bar>real_of_int n\<bar>" using False by linarith
  ultimately have e: "ulp_exp (of_int n) \<le> 0" by (simp add: ulp_exp_def f)
  then have "scale (- ulp_exp (of_int n)) (of_int n) = of_int (n * 2 ^ nat (- ulp_exp (of_int n)))" by (simp add: scale_def)
  then have "half_even (scale (- ulp_exp (of_int n)) (of_int n)) = n * 2 ^ nat (- ulp_exp (of_int n))" by (simp only: half_even_int)
  then show ?thesis using e by (auto simp: rne_def scale_def)
qed (simp add: rne_def)

lemma f_int_exact: "\<bar>n\<bar> < 2 ^ 53 \<Longrightarrow> f_int n = of_int n"
  by (simp add: f_int_def rne_int)

lemma rne_1 [simp]: "rne 1 = 1"
  using rne_int [of 1] by simp

text \<open>Rounding does not cross 1.\<close>

lemma rne_le_1:
  assumes "0 \<le> x" and "x \<le> 1"
  shows "rne x \<le> 1"
proof (cases "x = 0 \<or> x = 1")
  case False
  let ?e = "ulp_exp x"
  have "1 < 1 / x" using assms False by simp
  then have "nat (\<lceil>1 / x\<rceil> - 1) \<noteq> 0" by linarith
  then have "bits (nat (\<lceil>1 / x\<rceil> - 1)) \<noteq> 0" by (simp add: bits.simps)
  then have e: "?e \<le> 0" using assms False by (simp add: ulp_exp_def)
  then have "scale (- ?e) x \<le> of_int (2 ^ nat (- ?e))" using assms by (simp add: scale_def mult_left_le_one_le)
  then have "half_even (scale (- ?e) x) \<le> 2 ^ nat (- ?e)" by (rule half_even_le)
  then have "real_of_int (half_even (scale (- ?e) x)) \<le> 2 ^ nat (- ?e)" by (metis of_int_le_iff of_int_numeral of_int_power)
  then show ?thesis using False e by (auto simp: rne_def scale_def field_simps)
qed (auto simp: rne_def [of 0])

end
