(* ===== verification/Redis_Listpack_Random.thy ===== *)
theory Redis_Listpack_Random
  imports Redis_Listpack_Ops Double "HOL-Library.Multiset"
begin

text \<open>
  The random picks of \<^verbatim>\<open>src/listpack.c\<close>. \<^verbatim>\<open>rand()\<close> is a parameter: \<open>rand i\<close> is the value of its
  \<open>i\<close>-th call. \<^verbatim>\<open>qsort\<close> is a parameter that gets the comparison, as in C; its contract \<open>qsort_ok\<close>
  promises a sorted permutation when the comparison is consistent on the elements. The quotients that
  \<open>lpNextRandom\<close> compares are doubles. \<^verbatim>\<open>RAND_MAX\<close> is the one of glibc.
\<close>

subsection \<open>Definitions\<close>

record listpackEntry =
  sval :: "nat option"
  slen :: nat
  lval :: int

definition uintCompare :: "nat \<times> nat \<Rightarrow> nat \<times> nat \<Rightarrow> int" where
  "uintCompare a b = int32_of_u32 (nat ((int (fst a) - int (fst b)) mod 2 ^ 32))"

text \<open>\<open>lpGetValue\<close> into the variables of the caller: the field that does not apply keeps its value.\<close>

definition lpGetValue_into :: "mem \<Rightarrow> nat \<Rightarrow> listpackEntry \<Rightarrow> listpackEntry option" where
  "lpGetValue_into lp p e =
    (case lpGetValue lp p of
       None \<Rightarrow> None
     | Some (Inl v) \<Rightarrow> Some (e\<lparr>sval := None, lval := v\<rparr>)
     | Some (Inr (q, n)) \<Rightarrow> Some (e\<lparr>sval := Some q, slen := n\<rparr>))"

definition lpSaveValue :: "listpackEntry \<Rightarrow> nat \<Rightarrow> listpackEntry list \<Rightarrow> listpackEntry list option" where
  "lpSaveValue v i dest = (if i < length dest then Some (dest[i := v]) else None)"

text \<open>\<^verbatim>\<open>int storeorder = picks[i].order\<close> as an index: a negative one is before the array.\<close>

definition storeorder :: "nat \<Rightarrow> nat option" where
  "storeorder order = (if int32_of_u32 order < 0 then None else Some (nat (int32_of_u32 order)))"

definition lpRandomPair ::
  "(nat \<Rightarrow> nat) \<Rightarrow> mem \<Rightarrow> nat \<Rightarrow> listpackEntry \<Rightarrow> listpackEntry option \<Rightarrow> (listpackEntry \<times> listpackEntry option) option" where
  "lpRandomPair rand lp total_count key val =
    (if total_count = 0 then None
     else do {
       let r = int32_of_u32 (rand 0 mod total_count * 2 mod 2 ^ 32);
       p \<leftarrow> lpSeek lp r;
       case p of
         None \<Rightarrow> None
       | Some p \<Rightarrow> do {
           key \<leftarrow> lpGetValue_into lp p key;
           case val of
             None \<Rightarrow> Some (key, None)
           | Some val \<Rightarrow> do {
               p \<leftarrow> lpNext lp p;
               case p of
                 None \<Rightarrow> None
               | Some p \<Rightarrow> do {
                   val \<leftarrow> lpGetValue_into lp p val;
                   Some (key, Some val)
                 }
             }
         }
     })"

text \<open>The array of picks: index and order.\<close>

type_synonym picks = "(nat \<times> nat) list"
type_synonym qsort = "(nat \<times> nat \<Rightarrow> nat \<times> nat \<Rightarrow> int) \<Rightarrow> picks \<Rightarrow> picks"

fun lpRandom_advance :: "mem \<Rightarrow> nat option \<Rightarrow> nat \<Rightarrow> nat option option" where
  "lpRandom_advance lp p 0 = Some p"
| "lpRandom_advance lp None (Suc n) = None"
| "lpRandom_advance lp (Some p) (Suc n) = do {
     p \<leftarrow> lpNext lp p;
     lpRandom_advance lp p n
   }"

fun lpRandomEntries_loop :: "mem \<Rightarrow> nat option \<Rightarrow> nat \<Rightarrow> picks \<Rightarrow> listpackEntry list \<Rightarrow> listpackEntry list option" where
  "lpRandomEntries_loop lp p j [] entries = Some entries"
| "lpRandomEntries_loop lp p j ((index, order) # picks) entries = do {
     p \<leftarrow> lpRandom_advance lp p (index - j);
     case p of
       None \<Rightarrow> None
     | Some p \<Rightarrow> do {
         v \<leftarrow> lpGetValue_into lp p \<lparr>sval = None, slen = 0, lval = 0\<rparr>;
         i \<leftarrow> storeorder order;
         entries \<leftarrow> lpSaveValue v i entries;
         lpRandomEntries_loop lp (Some p) (max j index) picks entries
       }
   }"

definition lpRandomEntries ::
  "allocator \<Rightarrow> (nat \<Rightarrow> nat) \<Rightarrow> qsort \<Rightarrow> mem \<Rightarrow> nat \<Rightarrow> listpackEntry list \<Rightarrow> (mem \<times> listpackEntry list) option" where
  "lpRandomEntries al rand qs lp cnt entries = do {
     _ \<leftarrow> zmalloc_usable al (cnt * 8);
     (lp, total_size) \<leftarrow> lpLength lp;
     if total_size = 0 then None
     else do {
       let picks = map (\<lambda>i. (rand i mod total_size, i)) [0..<cnt];
       let picks = qs uintCompare picks;
       p \<leftarrow> lpFirst lp;
       entries \<leftarrow> lpRandomEntries_loop lp p 0 picks entries;
       Some (lp, entries)
     }
   }"

text \<open>The inner loop of \<open>lpRandomPairs\<close>: all picks of the current pair.\<close>

fun lpRandomPairs_store ::
  "nat \<Rightarrow> listpackEntry \<Rightarrow> listpackEntry \<Rightarrow> picks \<Rightarrow> listpackEntry list \<Rightarrow> listpackEntry list option \<Rightarrow>
    (picks \<times> listpackEntry list \<times> listpackEntry list option) option" where
  "lpRandomPairs_store lpindex key val [] keys vals = Some ([], keys, vals)"
| "lpRandomPairs_store lpindex key val ((index, order) # picks) keys vals =
    (if lpindex = index then do {
       i \<leftarrow> storeorder order;
       keys \<leftarrow> lpSaveValue key i keys;
       vals \<leftarrow> (case vals of None \<Rightarrow> Some None | Some vs \<Rightarrow> map_option Some (lpSaveValue val i vs));
       lpRandomPairs_store lpindex key val picks keys vals
     } else Some ((index, order) # picks, keys, vals))"

partial_function (option) lpRandomPairs_loop ::
  "mem \<Rightarrow> nat option \<Rightarrow> nat \<Rightarrow> listpackEntry \<Rightarrow> listpackEntry \<Rightarrow> picks \<Rightarrow> listpackEntry list \<Rightarrow> listpackEntry list option \<Rightarrow>
    (listpackEntry list \<times> listpackEntry list option) option" where
  "lpRandomPairs_loop lp p lpindex key val picks keys vals =
    (case p of
       None \<Rightarrow> Some (keys, vals)
     | Some p \<Rightarrow>
         if picks = [] then Some (keys, vals)
         else do {
           key \<leftarrow> lpGetValue_into lp p key;
           p \<leftarrow> lpNext lp p;
           p \<leftarrow> p;
           val \<leftarrow> lpGetValue_into lp p val;
           (picks, keys, vals) \<leftarrow> lpRandomPairs_store lpindex key val picks keys vals;
           p \<leftarrow> lpNext lp p;
           lpRandomPairs_loop lp p ((lpindex + 2) mod 2 ^ 32) key val picks keys vals
         })"

definition lpRandomPairs ::
  "allocator \<Rightarrow> (nat \<Rightarrow> nat) \<Rightarrow> qsort \<Rightarrow> mem \<Rightarrow> nat \<Rightarrow> listpackEntry list \<Rightarrow> listpackEntry list option \<Rightarrow>
    (mem \<times> listpackEntry list \<times> listpackEntry list option) option" where
  "lpRandomPairs al rand qs lp cnt keys vals = do {
     _ \<leftarrow> zmalloc_usable al (8 * cnt);
     (lp, n) \<leftarrow> lpLength lp;
     let total_size = n div 2;
     if total_size = 0 then None
     else do {
       let picks = map (\<lambda>i. (rand i mod total_size * 2, i)) [0..<cnt];
       let picks = qs uintCompare picks;
       if picks = [] then None
       else do {
         let lpindex = fst (hd picks);
         p \<leftarrow> lpSeek lp (int lpindex);
         let zero = \<lparr>sval = None, slen = 0, lval = 0\<rparr>;
         (keys, vals) \<leftarrow> lpRandomPairs_loop lp p lpindex zero zero picks keys vals;
         Some (lp, keys, vals)
       }
     }
   }"

definition RAND_MAX :: nat where
  "RAND_MAX = 2147483647"

text \<open>
  Is the element picked? With no element available the threshold is infinite, or not a number when none remains to be
  picked; the comparison is then true, or false.
\<close>

definition below_threshold :: "nat \<Rightarrow> nat \<Rightarrow> nat \<Rightarrow> bool" where
  "below_threshold r remaining available =
    (if available = 0 then remaining \<noteq> 0
     else let randomDouble = f_quot (f_int (int r)) (f_int (int RAND_MAX));
              threshold = f_quot (f_int (int remaining)) (f_int (int available))
          in randomDouble \<le> threshold)"

text \<open>
  The walk of \<open>lpNextRandom\<close>: it draws a number for every candidate. \<open>k\<close> counts the calls of
  \<^verbatim>\<open>rand()\<close>. The result is the entry and its index, and the new \<open>k\<close>.
\<close>

function lpNextRandom_loop ::
  "(nat \<Rightarrow> nat) \<Rightarrow> mem \<Rightarrow> nat \<Rightarrow> nat \<Rightarrow> bool \<Rightarrow> nat option \<Rightarrow> nat \<Rightarrow> nat \<Rightarrow> ((nat \<times> nat) option \<times> nat) option" where
  "lpNextRandom_loop rand lp total_size remaining even_only p i k =
    (if \<not> i < total_size then Some (None, k)
     else case p of
       None \<Rightarrow> Some (None, k)
     | Some q \<Rightarrow>
         if even_only \<and> i mod 2 \<noteq> 0 then
           (case lpNext lp q of
              None \<Rightarrow> None
            | Some p \<Rightarrow> lpNextRandom_loop rand lp total_size remaining even_only p (i + 1) k)
         else
           (let available = total_size - i;
                available = (if even_only then available div 2 else available) in
            if below_threshold (rand k) remaining available then Some (Some (q, i), k + 1)
            else (case lpNext lp q of
                None \<Rightarrow> None
              | Some p \<Rightarrow> lpNextRandom_loop rand lp total_size remaining even_only p (i + 1) (k + 1))))"
  by pat_completeness auto

termination lpNextRandom_loop
  by (relation "measure (\<lambda>(rand, lp, total_size, remaining, even_only, p, i, k). total_size - i)") auto

definition lpNextRandom ::
  "(nat \<Rightarrow> nat) \<Rightarrow> mem \<Rightarrow> nat option \<Rightarrow> nat \<Rightarrow> nat \<Rightarrow> bool \<Rightarrow> nat \<Rightarrow> (mem \<times> (nat \<times> nat) option \<times> nat) option" where
  "lpNextRandom rand lp p index remaining even_only k = do {
     (lp, total_size) \<leftarrow> lpLength lp;
     (r, k) \<leftarrow> lpNextRandom_loop rand lp total_size remaining even_only p index k;
     Some (lp, r, k)
   }"

text \<open>The number of calls still to make is \<^verbatim>\<open>remaining\<close>; \<^verbatim>\<open>picked\<close> is the next free place.\<close>

fun lpRandomPairsUnique_loop ::
  "(nat \<Rightarrow> nat) \<Rightarrow> mem \<Rightarrow> nat option \<Rightarrow> nat \<Rightarrow> nat \<Rightarrow> nat \<Rightarrow> nat \<Rightarrow> listpackEntry \<Rightarrow>
    listpackEntry list \<Rightarrow> listpackEntry list option \<Rightarrow> (mem \<times> nat \<times> listpackEntry list \<times> listpackEntry list option) option" where
  "lpRandomPairsUnique_loop rand lp p index k picked 0 key keys vals = Some (lp, picked, keys, vals)"
| "lpRandomPairsUnique_loop rand lp None index k picked (Suc r) key keys vals = Some (lp, picked, keys, vals)"
| "lpRandomPairsUnique_loop rand lp (Some p) index k picked (Suc r) key keys vals = do {
     (lp, found, k) \<leftarrow> lpNextRandom rand lp (Some p) index (Suc r) True k;
     (p, index) \<leftarrow> found;
     key \<leftarrow> lpGetValue_into lp p key;
     keys \<leftarrow> lpSaveValue key picked keys;
     p \<leftarrow> lpNext lp p;
     p \<leftarrow> p;
     (key, vals) \<leftarrow> (case vals of
         None \<Rightarrow> Some (key, None)
       | Some vs \<Rightarrow> do {
           key \<leftarrow> lpGetValue_into lp p key;
           vs \<leftarrow> lpSaveValue key picked vs;
           Some (key, Some vs)
         });
     p \<leftarrow> lpNext lp p;
     lpRandomPairsUnique_loop rand lp p (index + 2) k (picked + 1) r key keys vals
   }"

definition lpRandomPairsUnique ::
  "(nat \<Rightarrow> nat) \<Rightarrow> mem \<Rightarrow> nat \<Rightarrow> listpackEntry list \<Rightarrow> listpackEntry list option \<Rightarrow>
    (mem \<times> nat \<times> listpackEntry list \<times> listpackEntry list option) option" where
  "lpRandomPairsUnique rand lp cnt keys vals = do {
     (lp, n) \<leftarrow> lpLength lp;
     let total_size = n div 2;
     let cnt = (if cnt > total_size then total_size else cnt);
     p \<leftarrow> lpFirst lp;
     lpRandomPairsUnique_loop rand lp p 0 0 0 cnt \<lparr>sval = None, slen = 0, lval = 0\<rparr> keys vals
   }"

subsection \<open>Reading entries\<close>

text \<open>The string an entry stands for, given the block its pointer refers to.\<close>

definition entry_text :: "mem \<Rightarrow> listpackEntry \<Rightarrow> byte list option" where
  "entry_text lp e = (case sval e of None \<Rightarrow> Some (sdec (lval e)) | Some q \<Rightarrow> rdn lp q (slen e))"

lemma lpGetValue_into_rep:
  assumes "lp_rep lp bss" and "i < length bss"
  shows "\<exists>e'. lpGetValue_into lp (lp_off bss i) e = Some e' \<and> entry_text lp e' = Some (lp_text (bss ! i))"
  using assms
proof (cases rule: lp_rep_cases)
  case (int k)
  then show ?thesis by (simp add: lpGetValue_into_def lpGetValue_def lpGet_def entry_text_def)
next
  case (str q)
  have "length (lp_text (bss ! i)) \<le> length lp" using str(1) by (auto simp: rdn_def split: if_splits)
  moreover have "length (lp_text (bss ! i)) < 2 ^ 32"
  proof -
    obtain v where v: "lp_entry (bss ! i) v" using assms lp_entriesD by (auto simp: lp_rep_def)
    have "length (sdec k) \<le> 20" if "v = Inl k" for k using length_sdec_i64 lp_entry_i64 v that by blast
    then show ?thesis using lp_entry_value [OF v] lp_entry_length [OF v] lp_entry_suffix(2) v
      by (cases v) (fastforce simp: lp_text_def)+
  qed
  ultimately show ?thesis using str
    by (simp add: lpGetValue_into_def lpGetValue_def lpGet_def entry_text_def zmod_int [symmetric])
qed

lemma lpRandom_advance_rep:
  assumes "lp_rep lp bss"
  shows "i + n < length bss \<Longrightarrow> lpRandom_advance lp (Some (lp_off bss i)) n = Some (Some (lp_off bss (i + n)))"
proof (induction n arbitrary: i)
  case (Suc n)
  then show ?case using lpNext_rep [OF assms, of i] Suc.IH [of "Suc i"] by (simp add: lp_pos_def)
qed simp

lemma lp_length_less:
  assumes "lp_rep lp bss"
  shows "length bss < 2 ^ 31"
proof -
  have "2 * length xs \<le> length (lp_body xs)" if "lp_entries xs" for xs
    using that
  proof (induction xs)
    case (Cons b xs)
    then obtain v where "lp_entry b v" by auto
    then have "1 \<le> length b" "1 \<le> lpEncodeBacklen_size (length b)"
      using lp_entry_length lpEncodeBacklen_size_bounds(1) [of "length b"] by (simp_all add: Suc_le_eq)
    moreover have "2 * length xs \<le> length (lp_body xs)" using Cons by simp
    ultimately show ?case by (simp add: length_lp_entry_bytes)
  qed simp
  then have "2 * length bss \<le> length (lp_body bss)" using assms by (simp add: lp_rep_def)
  then show ?thesis using assms by (simp add: lp_rep_def lp_total_def)
qed

subsection \<open>Sorting the picks\<close>

definition cmp_consistent :: "('a \<Rightarrow> 'a \<Rightarrow> int) \<Rightarrow> 'a set \<Rightarrow> bool" where
  "cmp_consistent cmp A \<longleftrightarrow> (\<forall>x \<in> A. \<forall>y \<in> A. (cmp x y < 0 \<longleftrightarrow> cmp y x > 0) \<and> (cmp x y = 0 \<longleftrightarrow> cmp y x = 0)) \<and>
     (\<forall>x \<in> A. \<forall>y \<in> A. \<forall>z \<in> A. cmp x y \<le> 0 \<longrightarrow> cmp y z \<le> 0 \<longrightarrow> cmp x z \<le> 0)"

text \<open>What C promises of \<^verbatim>\<open>qsort\<close>.\<close>

definition qsort_ok :: "qsort \<Rightarrow> bool" where
  "qsort_ok qs \<longleftrightarrow> (\<forall>cmp xs. cmp_consistent cmp (set xs) \<longrightarrow>
     mset (qs cmp xs) = mset xs \<and> sorted_wrt (\<lambda>x y. cmp x y \<le> 0) (qs cmp xs))"

lemma uintCompare_small:
  assumes "fst a < 2 ^ 31" and "fst b < 2 ^ 31"
  shows "uintCompare a b = int (fst a) - int (fst b)"
proof -
  let ?d = "int (fst a) - int (fst b)"
  have "int (nat (?d mod 2 ^ 32)) = take_bit 32 ?d" by (simp add: take_bit_eq_mod)
  then have "uintCompare a b = signed_take_bit 31 (take_bit 32 ?d)" by (simp add: uintCompare_def int32_of_u32_def)
  also have "\<dots> = signed_take_bit 31 ?d" by (simp add: signed_take_bit_take_bit)
  also have "\<dots> = ?d" by (rule signed_take_bit_int_eq_self) (use assms in simp_all)
  finally show ?thesis .
qed

lemma uintCompare_consistent:
  assumes "\<forall>x \<in> A. fst x < 2 ^ 31"
  shows "cmp_consistent uintCompare A"
  using assms by (auto simp: cmp_consistent_def uintCompare_small)

lemma qsort_picks:
  assumes "qsort_ok qs" and "\<forall>x \<in> set picks. fst x < 2 ^ 31"
  shows "mset (qs uintCompare picks) = mset picks" and "sorted (map fst (qs uintCompare picks))"
proof -
  have c: "mset (qs uintCompare picks) = mset picks" "sorted_wrt (\<lambda>x y. uintCompare x y \<le> 0) (qs uintCompare picks)"
    using assms(1) uintCompare_consistent [OF assms(2)] by (auto simp: qsort_ok_def)
  then show "mset (qs uintCompare picks) = mset picks" by blast
  have "set (qs uintCompare picks) = set picks" using c(1) by (metis set_mset_mset)
  then have "sorted_wrt (\<lambda>x y. fst x \<le> fst y) (qs uintCompare picks)"
    using c(2) assms(2) by (elim sorted_wrt_mono_rel [rotated]) (simp add: uintCompare_small)
  then show "sorted (map fst (qs uintCompare picks))" by (simp add: sorted_wrt_map)
qed

subsection \<open>Entries picked at random\<close>

text \<open>
  The picks are stored: every pick's place holds an entry with the text of its index, the other places
  are unchanged.
\<close>

definition stored :: "mem \<Rightarrow> (nat \<Rightarrow> byte list) \<Rightarrow> picks \<Rightarrow> listpackEntry list \<Rightarrow> listpackEntry list \<Rightarrow> bool" where
  "stored lp t picks es es' \<longleftrightarrow> length es' = length es \<and>
     (\<forall>x ord. (x, ord) \<in> set picks \<longrightarrow> entry_text lp (es' ! ord) = Some (t x)) \<and>
     (\<forall>ord < length es. ord \<notin> snd ` set picks \<longrightarrow> es' ! ord = es ! ord)"

lemma stored_Nil: "stored lp t [] es es"
  by (simp add: stored_def)

lemma stored_Cons:
  assumes "entry_text lp v = Some (t x)" and "ord < length es" and "stored lp t picks (es[ord := v]) es'"
    and "ord \<notin> snd ` set picks"
  shows "stored lp t ((x, ord) # picks) es es'"
  using assms by (auto simp: stored_def nth_list_update)

lemma stored_append:
  assumes "stored lp t P es es1" and "stored lp t Q es1 es2" and "snd ` set P \<inter> snd ` set Q = {}"
    and "\<forall>ord \<in> snd ` set P. ord < length es"
  shows "stored lp t (P @ Q) es es2"
proof -
  have "es2 ! ord = es1 ! ord" if "(x, ord) \<in> set P" for x ord
  proof -
    have "ord \<in> snd ` set P" using that by force
    then have "ord < length es1" "ord \<notin> snd ` set Q" using assms(1,3,4) by (auto simp: stored_def)
    then show ?thesis using assms(2) by (simp add: stored_def)
  qed
  then show ?thesis using assms(1,2) unfolding stored_def by (simp add: image_Un)
qed

text \<open>A list of picks that the loops can serve.\<close>

definition picks_ok :: "nat \<Rightarrow> nat \<Rightarrow> nat \<Rightarrow> picks \<Rightarrow> bool" where
  "picks_ok j n m picks \<longleftrightarrow> sorted (map fst picks) \<and> distinct (map snd picks) \<and>
     (\<forall>x ord. (x, ord) \<in> set picks \<longrightarrow> j \<le> x \<and> x < n \<and> ord < m \<and> ord < 2 ^ 31)"

lemma storeorder_small: "ord < 2 ^ 31 \<Longrightarrow> storeorder ord = Some ord"
  by (simp add: storeorder_def int32_of_u32_def signed_take_bit_int_eq_self)

lemma picks_ok_Cons:
  "picks_ok j n m ((x, ord) # picks) \<Longrightarrow>
     picks_ok x n m picks \<and> j \<le> x \<and> x < n \<and> ord < m \<and> storeorder ord = Some ord \<and> ord \<notin> snd ` set picks"
  using storeorder_small [of ord] by (force simp: picks_ok_def)

lemma lpRandomEntries_loop_rep:
  assumes "lp_rep lp bss"
  shows "picks_ok j (length bss) (length es) picks \<Longrightarrow>
    \<exists>es'. lpRandomEntries_loop lp (Some (lp_off bss j)) j picks es = Some es' \<and> stored lp (\<lambda>x. lp_text (bss ! x)) picks es es'"
proof (induction picks arbitrary: j es)
  case (Cons pick picks)
  obtain x ord where pick: "pick = (x, ord)" by fastforce
  have ok: "picks_ok x (length bss) (length es) picks" "j \<le> x" "x < length bss" "ord < length es" "ord \<notin> snd ` set picks"
      "storeorder ord = Some ord"
    using picks_ok_Cons Cons.prems unfolding pick by blast+
  obtain v where v: "lpGetValue_into lp (lp_off bss x) \<lparr>sval = None, slen = 0, lval = 0\<rparr> = Some v"
      "entry_text lp v = Some (lp_text (bss ! x))"
    using lpGetValue_into_rep [OF assms ok(3)] by blast
  obtain es' where es': "lpRandomEntries_loop lp (Some (lp_off bss x)) x picks (es[ord := v]) = Some es'"
      "stored lp (\<lambda>x. lp_text (bss ! x)) picks (es[ord := v]) es'"
    using Cons.IH [of x "es[ord := v]"] ok(1) by auto
  have "lpRandomEntries_loop lp (Some (lp_off bss j)) j (pick # picks) es = Some es'"
    using lpRandom_advance_rep [OF assms, of j "x - j"] ok v(1) es'(1) by (simp add: pick lpSaveValue_def max_absorb2)
  then show ?case using stored_Cons [of lp v _ x, OF v(2) ok(4) es'(2) ok(5)] pick by blast
qed (simp add: stored_Nil)

lemma picks_ok_drawn:
  assumes "mset qs = mset (map (\<lambda>i. (f i, i)) [0..<cnt])" and "sorted (map fst qs)" and "\<forall>i < cnt. f i < n" and "cnt \<le> m" and "cnt \<le> 2 ^ 31"
  shows "picks_ok 0 n m qs" and "\<And>i. i < cnt \<Longrightarrow> (f i, i) \<in> set qs"
    and "snd ` set qs = {0..<cnt}"
proof -
  have set: "set qs = (\<lambda>i. (f i, i)) ` {0..<cnt}" using arg_cong [OF assms(1), of set_mset] by simp
  then show "\<And>i. i < cnt \<Longrightarrow> (f i, i) \<in> set qs" "snd ` set qs = {0..<cnt}" by (auto simp: image_iff)
  have "map snd (map (\<lambda>i. (f i, i)) [0..<cnt]) = [0..<cnt]" by (simp add: comp_def)
  moreover have "mset (map snd qs) = mset (map snd (map (\<lambda>i. (f i, i)) [0..<cnt]))" unfolding mset_map assms(1) ..
  ultimately have "distinct (map snd qs)" by (metis distinct_upt mset_eq_imp_distinct_iff)
  then show "picks_ok 0 n m qs" using assms(2-5) set by (auto simp: picks_ok_def)
qed

lemma lpRandomEntries_rep:
  assumes "lp_rep lp bss" and "bss \<noteq> []" and "qsort_ok qs" and "cnt \<le> length es" and "cnt \<le> 2 ^ 31" and "al_ok al (cnt * 8)"
  shows "\<exists>lp' es'. lpRandomEntries al rand qs lp cnt es = Some (lp', es') \<and> lp_rep lp' bss \<and> length es' = length es \<and>
    (\<forall>i < cnt. entry_text lp' (es' ! i) = Some (lp_text (bss ! (rand i mod length bss)))) \<and>
    (\<forall>i < length es. cnt \<le> i \<longrightarrow> es' ! i = es ! i)"
proof -
  obtain lp' where lp': "lpLength lp = Some (lp', length bss)" "lp_rep lp' bss" using lpLength_rep [OF assms(1)] by blast
  obtain m where m: "zmalloc_usable al (cnt * 8) = Some m" using assms(6) by (simp add: zmalloc_usable_def resize_block_def)
  let ?f = "\<lambda>i. rand i mod length bss"
  let ?p = "map (\<lambda>i. (?f i, i)) [0..<cnt]"
  have f: "\<forall>i < cnt. ?f i < length bss" using assms(2) by simp
  have "\<forall>x \<in> set ?p. fst x < 2 ^ 31" using lp_length_less [OF assms(1)] f by fastforce
  note q = qsort_picks [OF assms(3) this]
  note ok = picks_ok_drawn [OF q f assms(4,5)]
  obtain es' where es': "lpRandomEntries_loop lp' (Some (lp_off bss 0)) 0 (qs uintCompare ?p) es = Some es'"
      "stored lp' (\<lambda>x. lp_text (bss ! x)) (qs uintCompare ?p) es es'"
    using lpRandomEntries_loop_rep [OF lp'(2) ok(1)] by blast
  have "lpRandomEntries al rand qs lp cnt es = Some (lp', es')"
    using lp'(1) m es'(1) assms(2) lpFirst_rep [OF lp'(2)] by (simp add: lpRandomEntries_def Let_def lp_pos_def)
  then show ?thesis using lp'(2) es'(2) ok(2,3) by (auto simp: stored_def)
qed

subsection \<open>Pairs picked at random\<close>

text \<open>The same for the optional array of values.\<close>

definition stored_opt ::
  "mem \<Rightarrow> (nat \<Rightarrow> byte list) \<Rightarrow> picks \<Rightarrow> listpackEntry list option \<Rightarrow> listpackEntry list option \<Rightarrow> bool" where
  "stored_opt lp t picks vals vals' \<longleftrightarrow>
    (case vals of None \<Rightarrow> vals' = None | Some es \<Rightarrow> \<exists>es'. vals' = Some es' \<and> stored lp t picks es es')"

lemma stored_opt_simps [simp]:
  "stored_opt lp t picks None vals' \<longleftrightarrow> vals' = None"
  "stored_opt lp t picks (Some es) vals' \<longleftrightarrow> (\<exists>es'. vals' = Some es' \<and> stored lp t picks es es')"
  by (simp_all add: stored_opt_def)

definition vals_ok :: "nat \<Rightarrow> listpackEntry list option \<Rightarrow> bool" where
  "vals_ok m vals \<longleftrightarrow> (case vals of None \<Rightarrow> True | Some es \<Rightarrow> length es = m)"

lemma lpRandomPairs_store_rep:
  assumes "entry_text lp key = Some (t x)" and "entry_text lp val = Some (t (Suc x))"
  shows "picks_ok x n (length keys) picks \<Longrightarrow> vals_ok (length keys) vals \<Longrightarrow>
    \<exists>P Q keys' vals'. lpRandomPairs_store x key val picks keys vals = Some (Q, keys', vals') \<and> picks = P @ Q \<and>
      (\<forall>q \<in> set Q. fst q \<noteq> x) \<and> stored lp t P keys keys' \<and> stored_opt lp (\<lambda>x. t (Suc x)) P vals vals'"
proof (induction picks arbitrary: keys vals)
  case Nil
  have "stored_opt lp (\<lambda>x. t (Suc x)) [] vals vals" by (cases vals) (simp_all add: stored_Nil)
  then show ?case using stored_Nil by fastforce
next
  case (Cons pick picks)
  obtain y ord where pick: "pick = (y, ord)" by fastforce
  have ok: "picks_ok y n (length keys) picks" "x \<le> y" "ord < length keys" "ord \<notin> snd ` set picks" "storeorder ord = Some ord"
    using picks_ok_Cons Cons.prems(1) unfolding pick by blast+
  show ?case
  proof (cases "x = y")
    case False
    have "\<forall>q \<in> set picks. fst q \<noteq> x" using ok(1,2) False by (fastforce simp: picks_ok_def)
    moreover have "stored_opt lp (\<lambda>x. t (Suc x)) [] vals vals" by (cases vals) (simp_all add: stored_Nil)
    ultimately show ?thesis using False stored_Nil pick by fastforce
  next
    case True
    let ?vals = "map_option (\<lambda>vs. vs[ord := val]) vals"
    have "vals_ok (length (keys[ord := key])) ?vals" using Cons.prems(2) by (cases vals) (simp_all add: vals_ok_def)
    with Cons.IH [of "keys[ord := key]" ?vals] ok(1) True obtain P Q keys' vals' where
      IH: "lpRandomPairs_store x key val picks (keys[ord := key]) ?vals = Some (Q, keys', vals')" "picks = P @ Q"
        "\<forall>q \<in> set Q. fst q \<noteq> x" "stored lp t P (keys[ord := key]) keys'" "stored_opt lp (\<lambda>x. t (Suc x)) P ?vals vals'"
      by auto
    have "lpRandomPairs_store x key val (pick # picks) keys vals = Some (Q, keys', vals')"
      using IH(1) True ok(3,5) Cons.prems(2) by (cases vals) (simp_all add: pick lpSaveValue_def vals_ok_def)
    moreover have "stored lp t ((y, ord) # P) keys keys'"
      using stored_Cons [OF _ ok(3) IH(4)] assms(1) True ok(4) IH(2) by (auto simp: image_Un)
    moreover have "stored_opt lp (\<lambda>x. t (Suc x)) ((y, ord) # P) vals vals'"
      using IH(5) stored_Cons [of lp val "\<lambda>x. t (Suc x)" y ord _ P] assms(2) True ok(3,4) IH(2) Cons.prems(2)
      by (cases vals) (auto simp: image_Un vals_ok_def)
    ultimately show ?thesis using IH(2,3) pick
      by (intro exI [of _ "(y, ord) # P"] exI [of _ Q] exI [of _ keys'] exI [of _ vals'] conjI) simp_all
  qed
qed

lemma picks_ok_bounds: "picks_ok j n m picks \<Longrightarrow> q \<in> set picks \<Longrightarrow> j \<le> fst q \<and> fst q < n"
  by (cases q) (auto simp: picks_ok_def)

lemma picks_ok_raise: "picks_ok j n m Q \<Longrightarrow> (\<And>q. q \<in> set Q \<Longrightarrow> j' \<le> fst q) \<Longrightarrow> picks_ok j' n m Q"
  by (force simp: picks_ok_def)

lemma picks_ok_suffix: "picks_ok j n m (P @ Q) \<Longrightarrow> picks_ok j n m Q"
  by (auto simp: picks_ok_def sorted_append)

lemma picks_ok_append:
  "picks_ok j n m (P @ Q) \<Longrightarrow> snd ` set P \<inter> snd ` set Q = {}"
  "picks_ok j n m (P @ Q) \<Longrightarrow> \<forall>ord \<in> snd ` set P. ord < m"
  by (auto simp: picks_ok_def)

lemma stored_vals_ok: "stored_opt lp t P vals vals' \<Longrightarrow> vals_ok m vals \<Longrightarrow> vals_ok m vals'"
  by (cases vals) (auto simp: vals_ok_def stored_def)

lemma stored_opt_append:
  assumes "stored_opt lp t P vals vals1" and "stored_opt lp t Q vals1 vals2" and "picks_ok j n m (P @ Q)" and "vals_ok m vals"
  shows "stored_opt lp t (P @ Q) vals vals2"
proof (cases vals)
  case (Some es)
  have "snd ` set P \<inter> snd ` set Q = {}" "\<forall>ord \<in> snd ` set P. ord < length es"
    using picks_ok_append [OF assms(3)] assms(4) Some by (auto simp: vals_ok_def)
  then show ?thesis using assms(1,2) Some stored_append by fastforce
qed (use assms in simp)

lemma lpRandomPairs_loop_rep:
  assumes "lp_rep lp bss"
  shows "picks_ok x (length bss) (length keys) picks \<Longrightarrow> (\<forall>q \<in> set picks. even (fst q) \<and> Suc (fst q) < length bss) \<Longrightarrow>
    vals_ok (length keys) vals \<Longrightarrow> even x \<Longrightarrow>
    \<exists>keys' vals'. lpRandomPairs_loop lp (lp_pos bss x) x key val picks keys vals = Some (keys', vals') \<and>
      stored lp (\<lambda>i. lp_text (bss ! i)) picks keys keys' \<and> stored_opt lp (\<lambda>i. lp_text (bss ! Suc i)) picks vals vals'"
proof (induction "length bss - x" arbitrary: x key val picks keys vals rule: less_induct)
  case less
  let ?t = "\<lambda>i. lp_text (bss ! i)"
  show ?case
  proof (cases "picks = []")
    case True
    have "stored_opt lp (\<lambda>i. ?t (Suc i)) [] vals vals" by (cases vals) (simp_all add: stored_Nil)
    with True show ?thesis using stored_Nil
      by (subst lpRandomPairs_loop.simps) (cases "lp_pos bss x", auto)
  next
    case False
    have bound: "x \<le> fst q \<and> Suc (fst q) < length bss" if "q \<in> set picks" for q
      using less.prems(2) picks_ok_bounds [OF less.prems(1) that] that by blast
    then have x: "Suc x < length bss" using False by (cases picks) fastforce+
    obtain k1 where k1: "lpGetValue_into lp (lp_off bss x) key = Some k1" "entry_text lp k1 = Some (?t x)"
      using lpGetValue_into_rep [OF assms, of x key] x by auto
    obtain v1 where v1: "lpGetValue_into lp (lp_off bss (Suc x)) val = Some v1" "entry_text lp v1 = Some (?t (Suc x))"
      using lpGetValue_into_rep [OF assms x] by blast
    obtain P Q keys1 vals1 where st: "lpRandomPairs_store x k1 v1 picks keys vals = Some (Q, keys1, vals1)" "picks = P @ Q"
        "\<forall>q \<in> set Q. fst q \<noteq> x" "stored lp ?t P keys keys1" "stored_opt lp (\<lambda>x. ?t (Suc x)) P vals vals1"
      using lpRandomPairs_store_rep [of lp k1 ?t x v1, OF k1(2) v1(2) less.prems(1,3)] by blast
    have len: "length keys1 = length keys" using st(4) by (simp add: stored_def)
    have "x + 2 \<le> fst q" if "q \<in> set Q" for q
    proof -
      have "x \<le> fst q" "fst q \<noteq> x" "even (fst q)" using that bound less.prems(2) st(2,3) by auto
      then show ?thesis using less.prems(4) by (elim evenE) auto
    qed
    then have Q: "picks_ok (x + 2) (length bss) (length keys1) Q"
      using picks_ok_raise picks_ok_suffix [of x _ _ P Q] less.prems(1) st(2) len by metis
    have "x + 2 < 2 ^ 32" using lp_length_less [OF assms] x by simp
    then have mod: "(x + 2) mod 2 ^ 32 = x + 2" by simp
    obtain keys' vals' where fin: "lpRandomPairs_loop lp (lp_pos bss (x + 2)) (x + 2) k1 v1 Q keys1 vals1 = Some (keys', vals')"
        "stored lp ?t Q keys1 keys'" "stored_opt lp (\<lambda>i. ?t (Suc i)) Q vals1 vals'"
    proof -
      have "length bss - (x + 2) < length bss - x" using x by linarith
      from less.hyps [OF this Q, of vals1 k1 v1] show thesis
        using that less.prems(2-4) st(2) len stored_vals_ok [OF st(5)] by auto
    qed
    have "lpRandomPairs_loop lp (lp_pos bss x) x key val picks keys vals = Some (keys', vals')"
      using x k1(1) v1(1) st(1) fin(1) False lpNext_rep [OF assms, of x] lpNext_rep [OF assms, of "Suc x"] mod
      by (subst lpRandomPairs_loop.simps) (simp add: lp_pos_def)
    moreover have "stored lp ?t picks keys keys'"
      using stored_append [OF st(4) fin(2)] picks_ok_append [OF less.prems(1) [unfolded st(2)]] st(2) by simp
    moreover have "stored_opt lp (\<lambda>i. ?t (Suc i)) picks vals vals'"
      using stored_opt_append [OF st(5) fin(3), of x "length bss" "length keys"] less.prems(1,3) st(2) by simp
    ultimately show ?thesis by blast
  qed
qed

lemma picks_ok_hd: "picks_ok j n m picks \<Longrightarrow> picks \<noteq> [] \<Longrightarrow> picks_ok (fst (hd picks)) n m picks"
proof (cases picks)
  case (Cons q qs)
  assume "picks_ok j n m picks"
  then show ?thesis using Cons by (auto simp: picks_ok_def)
qed simp

lemma stored_drawn:
  assumes "stored lp t picks es es'" and "\<And>i. i < cnt \<Longrightarrow> (f i, i) \<in> set picks" and "i < cnt"
  shows "entry_text lp (es' ! i) = Some (t (f i))"
  using assms unfolding stored_def by blast

lemma lpRandomPairs_rep:
  assumes "lp_rep lp bss" and "1 < length bss" and "qsort_ok qs" and "0 < cnt" and "cnt \<le> length keys"
    and "vals_ok (length keys) vals" and "al_ok al (8 * cnt)" and "cnt \<le> 2 ^ 31"
  shows "\<exists>lp' keys' vals'. lpRandomPairs al rand qs lp cnt keys vals = Some (lp', keys', vals') \<and> lp_rep lp' bss \<and>
    (\<forall>i < cnt. entry_text lp' (keys' ! i) = Some (lp_text (bss ! (rand i mod (length bss div 2) * 2)))) \<and>
    (\<forall>vs. vals = Some vs \<longrightarrow> (\<exists>vs'. vals' = Some vs' \<and>
       (\<forall>i < cnt. entry_text lp' (vs' ! i) = Some (lp_text (bss ! Suc (rand i mod (length bss div 2) * 2))))))"
proof -
  obtain lp' where lp': "lpLength lp = Some (lp', length bss)" "lp_rep lp' bss" using lpLength_rep [OF assms(1)] by blast
  obtain m where m: "zmalloc_usable al (8 * cnt) = Some m" using assms(7) by (simp add: zmalloc_usable_def resize_block_def)
  let ?f = "\<lambda>i. rand i mod (length bss div 2) * 2"
  let ?p = "map (\<lambda>i. (?f i, i)) [0..<cnt]"
  have half: "0 < length bss div 2" using assms(2) by (simp add: div_greater_zero_iff)
  have f: "even (?f i) \<and> Suc (?f i) < length bss" for i using mod_less_divisor [OF half, of "rand i"] by simp
  then have f': "\<forall>i < cnt. ?f i < length bss" using Suc_lessD by blast
  have "?f i < 2 ^ 31" for i using lp_length_less [OF assms(1)] f [of i] by linarith
  then have "\<forall>x \<in> set ?p. fst x < 2 ^ 31" by (simp only: set_map ball_simps fst_conv simp_thms ball_triv)
  note q = qsort_picks [OF assms(3) this]
  note ok = picks_ok_drawn [OF q f' assms(5,8)]
  let ?q = "qs uintCompare ?p"
  have ne: "?q \<noteq> []" using ok(2) [OF assms(4)] by (metis empty_iff list.set(1))
  have ev: "\<forall>x \<in> set ?q. even (fst x) \<and> Suc (fst x) < length bss"
  proof -
    have "set ?q = set ?p" using arg_cong [OF q(1), of set_mset] by (simp only: set_mset_mset)
    then show ?thesis using f by (simp only: set_map ball_simps fst_conv simp_thms ball_triv)
  qed
  let ?x = "fst (hd ?q)"
  have x: "even ?x \<and> Suc ?x < length bss" using ev ne hd_in_set by blast
  from lpRandomPairs_loop_rep [OF lp'(2) picks_ok_hd [OF ok(1) ne] ev assms(6)] x obtain keys' vals'
    where fin: "lpRandomPairs_loop lp' (lp_pos bss ?x) ?x \<lparr>sval = None, slen = 0, lval = 0\<rparr> \<lparr>sval = None, slen = 0, lval = 0\<rparr> ?q keys vals = Some (keys', vals')"
      "stored lp' (\<lambda>i. lp_text (bss ! i)) ?q keys keys'" "stored_opt lp' (\<lambda>i. lp_text (bss ! Suc i)) ?q vals vals'"
    by blast
  have "lpSeek lp' (int ?x) = Some (lp_pos bss ?x)"
    using lpSeek_rep [OF lp'(2)] x by (simp add: lp_index_def lp_pos_def)
  then have "lpRandomPairs al rand qs lp cnt keys vals = Some (lp', keys', vals')"
    using lp'(1) m fin(1) half ne by (simp add: lpRandomPairs_def Let_def)
  moreover have "\<exists>vs'. vals' = Some vs' \<and> (\<forall>i < cnt. entry_text lp' (vs' ! i) = Some (lp_text (bss ! Suc (?f i))))"
    if "vals = Some vs" for vs
    using fin(3) that stored_drawn [OF _ ok(2)] by (simp only: stored_opt_simps) blast
  moreover have "\<forall>i < cnt. entry_text lp' (keys' ! i) = Some (lp_text (bss ! ?f i))"
    using stored_drawn [OF fin(2) ok(2)] by simp
  ultimately show ?thesis using lp'(2) by blast
qed

subsection \<open>Distinct pairs\<close>

text \<open>With as many elements to pick as there are, the threshold is one and no number drawn is above it.\<close>

lemma below_threshold_last:
  assumes "r \<le> RAND_MAX" and "0 < n" and "n < 2 ^ 53"
  shows "below_threshold r n n"
proof -
  have "f_int (int r) = real r" "f_int (int RAND_MAX) = real RAND_MAX" "f_int (int n) = real n"
    using assms by (simp_all add: f_int_exact RAND_MAX_def)
  moreover have "rne (real r / real RAND_MAX) \<le> 1" by (rule rne_le_1) (use assms(1) in \<open>simp_all add: RAND_MAX_def\<close>)
  ultimately show ?thesis using assms(2) by (simp add: below_threshold_def f_quot_def)
qed

declare lpNextRandom_loop.simps [simp del]

lemma lpNextRandom_loop_rep:
  assumes "lp_rep lp bss" and "\<forall>k. rand k \<le> RAND_MAX" and "0 < remaining"
  shows "remaining \<le> (length bss - i) div 2 \<Longrightarrow> even i \<Longrightarrow>
    \<exists>j k'. lpNextRandom_loop rand lp (length bss) remaining True (lp_pos bss i) i k = Some (Some (lp_off bss j, j), k') \<and>
      i \<le> j \<and> even j \<and> remaining \<le> (length bss - j) div 2"
proof (induction "length bss - i" arbitrary: i k rule: less_induct)
  case less
  have i: "Suc i < length bss" using less.prems(1) assms(3) by linarith
  let ?a = "(length bss - i) div 2"
  show ?case
  proof (cases "below_threshold (rand k) remaining ?a")
    case True
    then show ?thesis using i less.prems
      by (subst lpNextRandom_loop.simps) (auto simp: lp_pos_def Let_def)
  next
    case False
    have "remaining \<noteq> ?a" using False below_threshold_last [of "rand k" ?a] assms lp_length_less [OF assms(1)] by auto
    then have "remaining < ?a" using less.prems(1) by linarith
    then have rem: "remaining \<le> (length bss - (i + 2)) div 2" by linarith
    have lt: "length bss - (i + 2) < length bss - i" using i by linarith
    obtain j k' where j: "lpNextRandom_loop rand lp (length bss) remaining True (lp_pos bss (i + 2)) (i + 2) (k + 1) = Some (Some (lp_off bss j, j), k')"
        "i + 2 \<le> j" "even j" "remaining \<le> (length bss - j) div 2"
      using less.hyps [OF lt rem, of "k + 1"] less.prems(2) by auto
    have "Suc i mod 2 \<noteq> 0" using less.prems(2) by presburger
    then have "lpNextRandom_loop rand lp (length bss) remaining True (lp_pos bss (Suc i)) (Suc i) (k + 1) = Some (Some (lp_off bss j, j), k')"
      using j(1) i less.prems(2) lpNext_rep [OF assms(1) i]
      by (subst lpNextRandom_loop.simps) (simp add: lp_pos_def)
    then have "lpNextRandom_loop rand lp (length bss) remaining True (lp_pos bss i) i k = Some (Some (lp_off bss j, j), k')"
      using False i less.prems(2) lpNext_rep [OF assms(1), of i]
      by (subst lpNextRandom_loop.simps) (simp add: lp_pos_def Let_def)
    then show ?thesis using j(2-4) by auto
  qed
qed

lemma lpLength_idem:
  assumes "lp_rep lp bss" and "lpLength lp = Some (lp', n)"
  shows "lpLength lp' = Some (lp', length bss)"
proof -
  from assms(1) obtain num rest where n: "lp_num_ok num bss" "lp = lp_image num bss @ rest"
    by (auto simp: lp_rep_def)
  have g: "lpGetNumElements lp = Some num"
    using n lpGetNumElements_at [of num] by (auto simp: lp_image_def lp_num_ok_def LP_HDR_NUMELE_UNKNOWN_def)
  obtain lp1 where l: "lpLength lp = Some (lp1, length bss)" using lpLength_rep [OF assms(1)] by blast
  show ?thesis
  proof (cases "num = LP_HDR_NUMELE_UNKNOWN \<and> length bss < LP_HDR_NUMELE_UNKNOWN")
    case True
    obtain p c where pc: "lpFirst lp = Some p" "lpLength_loop lp p 0 = Some c"
      using l g True by (auto simp: lpLength_def split: bind_splits)
    then have c: "c = length bss" "lpSetNumElements lp c = Some lp'"
      using l g True assms(2) by (auto simp: lpLength_def split: bind_splits if_splits)
    then have "lp' = store_le 4 (lp_total bss) @ store_le 2 (length bss) @ lp_body bss @ [LP_EOF] @ rest"
      using n(2) lpSetNumElements_at by (simp add: lp_image_def)
    then have "lpGetNumElements lp' = Some (length bss)"
      using True by (simp add: lpGetNumElements_at LP_HDR_NUMELE_UNKNOWN_def)
    then show ?thesis using True by (simp add: lpLength_def)
  next
    case False
    then have "lp' = lp" using g assms(2) n(1) l by (auto simp: lpLength_def lp_num_ok_def split: bind_splits if_splits)
    then show ?thesis using l assms(2) by simp
  qed
qed

text \<open>
  The array holds, from place \<open>a\<close> on, entries with the texts of the indices \<open>idx\<close> (shifted by \<open>d\<close>),
  and is unchanged before.
\<close>

definition filled :: "mem \<Rightarrow> byte list list \<Rightarrow> nat \<Rightarrow> nat \<Rightarrow> nat list \<Rightarrow> listpackEntry list \<Rightarrow> listpackEntry list \<Rightarrow> bool" where
  "filled lp bss d a idx es es' \<longleftrightarrow> length es' = length es \<and> (\<forall>i < a. es' ! i = es ! i) \<and>
     (\<forall>i < length idx. entry_text lp (es' ! (a + i)) = Some (lp_text (bss ! (idx ! i + d))))"

lemma filled_Cons:
  assumes "entry_text lp v = Some (lp_text (bss ! (j + d)))" and "a < length es" and "filled lp bss d (Suc a) idx (es[a := v]) es'"
  shows "filled lp bss d a (j # idx) es es'"
proof -
  have "es' ! a = v" using assms(2,3) by (simp add: filled_def)
  then have "entry_text lp (es' ! (a + i)) = Some (lp_text (bss ! ((j # idx) ! i + d)))" if "i < length (j # idx)" for i
    using assms(1,3) that by (cases i) (auto simp: filled_def)
  then show ?thesis using assms(2,3) by (simp add: filled_def)
qed

definition filled_opt :: "mem \<Rightarrow> byte list list \<Rightarrow> nat \<Rightarrow> nat list \<Rightarrow> listpackEntry list option \<Rightarrow> listpackEntry list option \<Rightarrow> bool" where
  "filled_opt lp bss a idx vals vals' \<longleftrightarrow>
    (case vals of None \<Rightarrow> vals' = None | Some es \<Rightarrow> \<exists>es'. vals' = Some es' \<and> filled lp bss 1 a idx es es')"

lemma filled_opt_simps [simp]:
  "filled_opt lp bss a idx None vals' \<longleftrightarrow> vals' = None"
  "filled_opt lp bss a idx (Some es) vals' \<longleftrightarrow> (\<exists>es'. vals' = Some es' \<and> filled lp bss 1 a idx es es')"
  by (simp_all add: filled_opt_def)

lemma lpRandomPairsUnique_loop_rep:
  assumes "lp_rep lp bss" and "lpLength lp = Some (lp, length bss)" and "\<forall>k. rand k \<le> RAND_MAX"
  shows "r \<le> (length bss - i) div 2 \<Longrightarrow> even i \<Longrightarrow> a + r \<le> length keys \<Longrightarrow> vals_ok (length keys) vals \<Longrightarrow>
    \<exists>keys' vals' idx. lpRandomPairsUnique_loop rand lp (lp_pos bss i) i k a r key keys vals = Some (lp, a + r, keys', vals') \<and>
      length idx = r \<and> sorted_wrt (<) idx \<and> (\<forall>x \<in> set idx. i \<le> x \<and> even x \<and> Suc x < length bss) \<and>
      filled lp bss 0 a idx keys keys' \<and> filled_opt lp bss a idx vals vals'"
proof (induction r arbitrary: i k a key keys vals)
  case 0
  have "filled lp bss d a [] es es" for d es by (simp add: filled_def)
  then show ?case by (cases vals) auto
next
  case (Suc r)
  obtain j k' where j: "lpNextRandom_loop rand lp (length bss) (Suc r) True (lp_pos bss i) i k = Some (Some (lp_off bss j, j), k')"
      "i \<le> j" "even j" "Suc r \<le> (length bss - j) div 2"
    using lpNextRandom_loop_rep [OF assms(1,3) _ Suc.prems(1,2)] by blast
  have i: "lp_pos bss i = Some (lp_off bss i)" and jn: "Suc j < length bss" and r: "r \<le> (length bss - (j + 2)) div 2"
    using Suc.prems(1) j(4) by (auto simp: lp_pos_def)
  note nx = lpNext_rep [OF assms(1), of j] lpNext_rep [OF assms(1) jn]
  obtain k1 where k1: "lpGetValue_into lp (lp_off bss j) key = Some k1" "entry_text lp k1 = Some (lp_text (bss ! (j + 0)))"
    using lpGetValue_into_rep [OF assms(1), of j key] jn by auto
  obtain v1 where v1: "lpGetValue_into lp (lp_off bss (Suc j)) k1 = Some v1" "entry_text lp v1 = Some (lp_text (bss ! (j + 1)))"
    using lpGetValue_into_rep [OF assms(1) jn, of k1] by auto
  define key1 where "key1 = (if vals = None then k1 else v1)"
  define vals1 where "vals1 = map_option (\<lambda>vs. vs[a := v1]) vals"
  have a: "a < length keys" "vals_ok (length (keys[a := k1])) vals1" using Suc.prems(3,4)
    by (auto simp: vals1_def vals_ok_def split: option.splits)
  obtain keys' vals' idx where IH: "lpRandomPairsUnique_loop rand lp (lp_pos bss (j + 2)) (j + 2) k' (a + 1) r key1 (keys[a := k1]) vals1 =
        Some (lp, a + 1 + r, keys', vals')" "length idx = r" "sorted_wrt (<) idx"
      "\<forall>x \<in> set idx. j + 2 \<le> x \<and> even x \<and> Suc x < length bss"
      "filled lp bss 0 (a + 1) idx (keys[a := k1]) keys'" "filled_opt lp bss (a + 1) idx vals1 vals'"
    using Suc.IH [OF r _ _ a(2), of "a + 1" k' key1] j(3) Suc.prems(3) by auto
  have "lpRandomPairsUnique_loop rand lp (lp_pos bss i) i k a (Suc r) key keys vals = Some (lp, a + Suc r, keys', vals')"
    using IH(1) i j(1) jn nx k1(1) v1(1) a(1) Suc.prems(4) assms(2)
    by (cases vals) (simp_all add: lpNextRandom_def lp_pos_def lpSaveValue_def key1_def vals1_def vals_ok_def)
  moreover have "filled lp bss 0 a (j # idx) keys keys'" using filled_Cons [OF k1(2) a(1)] IH(5) by simp
  moreover have "filled_opt lp bss a (j # idx) vals vals'"
    using IH(6) filled_Cons [OF v1(2)] a(1) Suc.prems(4) by (cases vals) (auto simp: vals1_def vals_ok_def)
  ultimately show ?case
    using IH(2-4) j(2,3) jn by (intro exI [of _ keys'] exI [of _ vals'] exI [of _ "j # idx"]) auto
qed

lemma lpRandomPairsUnique_rep:
  assumes "lp_rep lp bss" and "\<forall>k. rand k \<le> RAND_MAX" and "min cnt (length bss div 2) \<le> length keys" and "vals_ok (length keys) vals"
  shows "\<exists>lp' keys' vals' idx. lpRandomPairsUnique rand lp cnt keys vals = Some (lp', length idx, keys', vals') \<and>
    lp_rep lp' bss \<and> length idx = min cnt (length bss div 2) \<and> sorted_wrt (<) idx \<and>
    (\<forall>x \<in> set idx. even x \<and> Suc x < length bss) \<and> filled lp' bss 0 0 idx keys keys' \<and> filled_opt lp' bss 0 idx vals vals'"
proof -
  obtain lp' where lp': "lpLength lp = Some (lp', length bss)" "lp_rep lp' bss" using lpLength_rep [OF assms(1)] by blast
  have "min cnt (length bss div 2) \<le> (length bss - 0) div 2" by simp
  from lpRandomPairsUnique_loop_rep [OF lp'(2) lpLength_idem [OF assms(1) lp'(1)] assms(2) this _ _ assms(4),
      of 0 0 "\<lparr>sval = None, slen = 0, lval = 0\<rparr>"] assms(3)
  obtain keys' vals' idx where r: "lpRandomPairsUnique_loop rand lp' (lp_pos bss 0) 0 0 0 (min cnt (length bss div 2))
        \<lparr>sval = None, slen = 0, lval = 0\<rparr> keys vals = Some (lp', min cnt (length bss div 2), keys', vals')"
      "length idx = min cnt (length bss div 2)" "sorted_wrt (<) idx" "\<forall>x \<in> set idx. even x \<and> Suc x < length bss"
      "filled lp' bss 0 0 idx keys keys'" "filled_opt lp' bss 0 idx vals vals'"
    by auto
  have "lpRandomPairsUnique rand lp cnt keys vals = Some (lp', length idx, keys', vals')"
    using lp'(1) lpFirst_rep [OF lp'(2)] r(1,2) by (simp add: lpRandomPairsUnique_def Let_def min_def split: if_splits)
  then show ?thesis using r lp'(2) by blast
qed

subsection \<open>Properties\<close>

text \<open>An instance of the sorting contract: insertion sort with the given comparison.\<close>

fun cmp_insert :: "('a \<Rightarrow> 'a \<Rightarrow> int) \<Rightarrow> 'a \<Rightarrow> 'a list \<Rightarrow> 'a list" where
  "cmp_insert cmp x [] = [x]"
| "cmp_insert cmp x (y # ys) = (if cmp x y \<le> 0 then x # y # ys else y # cmp_insert cmp x ys)"

definition cmp_sort :: "('a \<Rightarrow> 'a \<Rightarrow> int) \<Rightarrow> 'a list \<Rightarrow> 'a list" where
  "cmp_sort cmp xs = foldr (cmp_insert cmp) xs []"

lemma mset_cmp_insert: "mset (cmp_insert cmp x ys) = add_mset x (mset ys)"
  by (induction ys) auto

lemma sorted_cmp_insert:
  assumes "cmp_consistent cmp A" and "x \<in> A"
  shows "set ys \<subseteq> A \<Longrightarrow> sorted_wrt (\<lambda>x y. cmp x y \<le> 0) ys \<Longrightarrow> sorted_wrt (\<lambda>x y. cmp x y \<le> 0) (cmp_insert cmp x ys)"
proof (induction ys)
  case (Cons y ys)
  have tr: "cmp a b \<le> 0 \<Longrightarrow> cmp b c \<le> 0 \<Longrightarrow> cmp a c \<le> 0" if "a \<in> A" "b \<in> A" "c \<in> A" for a b c
    using assms(1) that unfolding cmp_consistent_def by blast
  have tot: "\<not> cmp a b \<le> 0 \<Longrightarrow> cmp b a \<le> 0" if "a \<in> A" "b \<in> A" for a b
  proof -
    have "cmp b a < 0 \<longleftrightarrow> cmp a b > 0" using assms(1) that unfolding cmp_consistent_def by blast
    then show "\<not> cmp a b \<le> 0 \<Longrightarrow> cmp b a \<le> 0" by simp
  qed
  have y: "y \<in> A" "set ys \<subseteq> A" "\<forall>z \<in> set ys. cmp y z \<le> 0" "sorted_wrt (\<lambda>x y. cmp x y \<le> 0) ys" using Cons.prems by auto
  have set: "set (cmp_insert cmp x ys) = insert x (set ys)"
    using arg_cong [OF mset_cmp_insert [of cmp x ys], of set_mset] by simp
  show ?case
  proof (cases "cmp x y \<le> 0")
    case True
    then have "cmp x z \<le> 0" if "z \<in> set ys" for z using tr [OF assms(2) y(1)] y(2,3) that by blast
    then show ?thesis using True y by simp
  next
    case False
    then show ?thesis using tot [OF assms(2) y(1)] Cons.IH [OF y(2,4)] y(3) set by simp
  qed
qed simp

lemma cmp_sort_ok: "qsort_ok cmp_sort"
proof -
  have ms: "mset (foldr (cmp_insert cmp) ys []) = mset ys" for cmp :: "nat \<times> nat \<Rightarrow> nat \<times> nat \<Rightarrow> int" and ys
    by (induction ys) (simp_all add: mset_cmp_insert)
  have "sorted_wrt (\<lambda>x y. cmp x y \<le> 0) (foldr (cmp_insert cmp) ys [])"
    if "cmp_consistent cmp A" "set ys \<subseteq> A" for cmp :: "nat \<times> nat \<Rightarrow> nat \<times> nat \<Rightarrow> int" and A ys
    using that(2)
  proof (induction ys)
    case (Cons y ys)
    have "set (foldr (cmp_insert cmp) ys []) = set ys" using arg_cong [OF ms, of set_mset] by simp
    then show ?case using sorted_cmp_insert [OF that(1)] Cons by simp
  qed simp
  then show ?thesis using ms by (auto simp: qsort_ok_def cmp_sort_def)
qed

text \<open>C31: \<open>lpRandomEntries\<close> fills the first \<open>cnt\<close> places with the entries that the calls of \<^verbatim>\<open>rand()\<close> select, in
  the order of the calls, although it walks the listpack once in index order. The comparison it sorts with
  is the difference of unsigned numbers; it is consistent because a listpack has fewer than
  \<open>2 ^ 31\<close> entries. At most \<open>2 ^ 31\<close> entries may be asked for: the place of an entry is kept in an \<^verbatim>\<open>int\<close>.\<close>

theorem lpRandomEntries_drawn:
  assumes "lp_rep lp bss" and "bss \<noteq> []" and "qsort_ok qs" and "cnt \<le> length es" and "cnt \<le> 2 ^ 31" and "total_al al"
  shows "\<exists>lp' es'. lpRandomEntries al rand qs lp cnt es = Some (lp', es') \<and> lp_rep lp' bss \<and> length es' = length es \<and>
    (\<forall>i < cnt. entry_text lp' (es' ! i) = Some (lp_text (bss ! (rand i mod length bss)))) \<and>
    (\<forall>i < length es. cnt \<le> i \<longrightarrow> es' ! i = es ! i)"
  using lpRandomEntries_rep [OF assms(1-5), of al rand] assms(6) by (simp add: total_al_def)

definition no_entry :: listpackEntry where
  "no_entry = \<lparr>sval = None, slen = 0, lval = 0\<rparr>"

lemma lp_ex_text: "lp_text (lp_ex_entries ! 1) = [97]"
proof -
  have "lp_entry [0x81, 97] (Inr [97])" using lp_entry.str6 [of "0x81" "[97]"] by simp
  then show ?thesis by (simp add: lp_text_def lp_entry_value lp_ex_entries_def)
qed

theorem lpRandomEntries_drawn_witness:
  "\<exists>lp' es'. lpRandomEntries calm_al (\<lambda>i. 2 * i + 7) cmp_sort lp_ex 2 [no_entry, no_entry, no_entry] = Some (lp', es') \<and>
    entry_text lp' (es' ! 0) = Some [97] \<and> entry_text lp' (es' ! 1) = Some [97]"
proof -
  let ?r = "\<lambda>i. 2 * i + 7 :: nat" and ?es = "[no_entry, no_entry, no_entry]"
  have ne: "lp_ex_entries \<noteq> []" and len: "length lp_ex_entries = 2" and le: "2 \<le> length ?es" "2 \<le> (2 :: nat) ^ 31"
    by (simp_all add: lp_ex_entries_def)
  from lpRandomEntries_drawn [OF lp_ex_rep ne cmp_sort_ok le(1,2) total_calm_al, of ?r] obtain lp' es'
    where r: "lpRandomEntries calm_al ?r cmp_sort lp_ex 2 ?es = Some (lp', es')"
      "\<forall>i < 2. entry_text lp' (es' ! i) = Some (lp_text (lp_ex_entries ! (?r i mod 2)))"
    unfolding len by blast
  have "entry_text lp' (es' ! 0) = Some [97]" "entry_text lp' (es' ! 1) = Some [97]"
    using r(2) [rule_format, of 0] r(2) [rule_format, of 1] lp_ex_text by simp_all
  then show ?thesis using r(1) by blast
qed

text \<open>C14: \<open>lpRandomPairsUnique\<close> always delivers as many pairs as asked for, or all of them: it never runs off the
  end of the listpack, whatever numbers \<^verbatim>\<open>rand()\<close> gives, as long as they are at most \<^verbatim>\<open>RAND_MAX\<close>. The keys are the entries of strictly increasing even
  indices, so no pair is picked twice, and the values are the entries after them.\<close>

theorem lpRandomPairsUnique_distinct:
  assumes "lp_rep lp bss" and "\<forall>k. rand k \<le> RAND_MAX" and "min cnt (length bss div 2) \<le> length keys" and "length vals = length keys"
  shows "\<exists>lp' keys' vals' idx. lpRandomPairsUnique rand lp cnt keys (Some vals) = Some (lp', length idx, keys', Some vals') \<and>
    length idx = min cnt (length bss div 2) \<and> sorted_wrt (<) idx \<and> (\<forall>x \<in> set idx. even x \<and> Suc x < length bss) \<and>
    (\<forall>i < length idx. entry_text lp' (keys' ! i) = Some (lp_text (bss ! (idx ! i))) \<and>
       entry_text lp' (vals' ! i) = Some (lp_text (bss ! Suc (idx ! i))))"
proof -
  have "vals_ok (length keys) (Some vals)" using assms(4) by (simp add: vals_ok_def)
  from lpRandomPairsUnique_rep [OF assms(1-3) this] obtain lp' keys' vals' idx
    where "lpRandomPairsUnique rand lp cnt keys (Some vals) = Some (lp', length idx, keys', Some vals')"
      "length idx = min cnt (length bss div 2)" "sorted_wrt (<) idx" "\<forall>x \<in> set idx. even x \<and> Suc x < length bss"
      "filled lp' bss 0 0 idx keys keys'" "filled lp' bss 1 0 idx vals vals'"
    unfolding filled_opt_simps by metis
  then show ?thesis unfolding filled_def
    by (intro exI [of _ lp'] exI [of _ keys'] exI [of _ vals'] exI [of _ idx]) simp
qed

theorem lpRandomPairsUnique_distinct_witness:
  "\<exists>lp' keys' vals'. lpRandomPairsUnique (\<lambda>i. RAND_MAX - i) lp_ex 3 [no_entry] (Some [no_entry]) =
    Some (lp', 1, keys', Some vals') \<and> entry_text lp' (vals' ! 0) = Some [97]"
proof -
  have le: "\<forall>k. RAND_MAX - k \<le> RAND_MAX" by simp
  have len: "length lp_ex_entries = 2" by (simp add: lp_ex_entries_def)
  have c: "min 3 (2 div 2 :: nat) = 1" "min 3 (length lp_ex_entries div 2) \<le> length [no_entry]"
    "length [no_entry] = length [no_entry]" using len by simp_all
  from lpRandomPairsUnique_distinct [OF lp_ex_rep le c(2,3)] obtain lp' keys' vals' idx
    where r: "lpRandomPairsUnique (\<lambda>i. RAND_MAX - i) lp_ex 3 [no_entry] (Some [no_entry]) =
      Some (lp', length idx, keys', Some vals')" "length idx = 1" "\<forall>x \<in> set idx. even x \<and> Suc x < 2"
      "\<forall>i < length idx. entry_text lp' (vals' ! i) = Some (lp_text (lp_ex_entries ! Suc (idx ! i)))"
    unfolding len c(1) by blast
  obtain x where x: "idx = [x]" using r(2) by (cases idx) auto
  then have "x = 0" using r(3) by simp
  then have "entry_text lp' (vals' ! 0) = Some [97]" using r(4) lp_ex_text by (simp add: x)
  then show ?thesis using r(1,2) by (intro exI [of _ lp'] exI [of _ keys'] exI [of _ vals']) simp
qed

end
