(* ===== verification/Redis_Glob.thy ===== *)
theory Redis_Glob
  imports Redis_Prelude "HOL-Library.Sublist"
begin

text \<open>
  Glob-style pattern matching, \<^verbatim>\<open>src/util.c\<close>. The pattern and the string are blocks of bytes; a read
  outside the block is \<open>None\<close>. The matcher reads the byte after the pattern, so the callers pass
  zero-terminated patterns: the block of the pattern is \<open>pat @ [0]\<close>. \<^verbatim>\<open>patternLen\<close> is an integer because the code
  may decrement it below zero on other blocks; \<^verbatim>\<open>stringLen\<close> is only decremented when it is not zero.

  The reference is a matcher on a token list, without the bookkeeping that lets the code give up early.
\<close>

subsection \<open>The matcher\<close>

text \<open>\<^verbatim>\<open>tolower\<close> in the C locale, on a \<^verbatim>\<open>char\<close> widened to \<^verbatim>\<open>int\<close>.\<close>

definition to_lower :: "int \<Rightarrow> int" where
  "to_lower c = (if 65 \<le> c \<and> c \<le> 90 then c + 32 else c)"

definition same_char :: "bool \<Rightarrow> byte \<Rightarrow> byte \<Rightarrow> bool" where
  "same_char nocase a b = (if \<not> nocase then a = b else to_lower (sint a) = to_lower (sint b))"

definition in_range :: "bool \<Rightarrow> byte \<Rightarrow> byte \<Rightarrow> byte \<Rightarrow> bool" where
  "in_range nocase a b x =
    (let start = sint a; stop = sint b; c = sint x;
         (start, stop) = (if start > stop then (stop, start) else (start, stop));
         (start, stop, c) = (if nocase then (to_lower start, to_lower stop, to_lower c) else (start, stop, c))
     in c \<ge> start \<and> c \<le> stop)"

text \<open>Runs of stars: before the search, and at the end of the string.\<close>

function glob_stars :: "mem \<Rightarrow> nat \<Rightarrow> int \<Rightarrow> (nat \<times> int) option" where
  "glob_stars P p plen =
    (if plen = 0 then Some (p, plen)
     else case rd P (p + 1) of
       None \<Rightarrow> None
     | Some b \<Rightarrow> if b = 42 then glob_stars P (p + 1) (plen - 1) else Some (p, plen))"
  by pat_completeness auto

termination glob_stars
  by (relation "measure (\<lambda>(P, p, plen). length P - p)") (auto simp: rd_def split: if_splits)

function glob_tail :: "mem \<Rightarrow> nat \<Rightarrow> int \<Rightarrow> (nat \<times> int) option" where
  "glob_tail P p plen =
    (case rd P p of
       None \<Rightarrow> None
     | Some b \<Rightarrow> if b = 42 then glob_tail P (p + 1) (plen - 1) else Some (p, plen))"
  by pat_completeness auto

termination glob_tail
  by (relation "measure (\<lambda>(P, p, plen). length P - p)") (auto simp: rd_def split: if_splits)

text \<open>The loop over the items of a character class; \<open>c\<close> is the character of the string.\<close>

function glob_class :: "mem \<Rightarrow> bool \<Rightarrow> byte \<Rightarrow> nat \<Rightarrow> int \<Rightarrow> bool \<Rightarrow> (bool \<times> nat \<times> int) option" where
  "glob_class P nocase c p plen match =
    (case rd P p of
       None \<Rightarrow> None
     | Some b \<Rightarrow>
         if b = 92 \<and> plen \<ge> 2 then
           (case rd P (p + 1) of
              None \<Rightarrow> None
            | Some b1 \<Rightarrow> glob_class P nocase c (p + 2) (plen - 2) (match \<or> b1 = c))
         else if b = 93 then Some (match, p, plen)
         else if plen = 0 then (if p = 0 then None else Some (match, p - 1, plen + 1))
         else if plen \<ge> 3 then
           (case rd P (p + 1) of
              None \<Rightarrow> None
            | Some d \<Rightarrow>
                if d = 45 then
                  (case rd P (p + 2) of
                     None \<Rightarrow> None
                   | Some e \<Rightarrow> glob_class P nocase c (p + 3) (plen - 3) (match \<or> in_range nocase b e c))
                else glob_class P nocase c (p + 1) (plen - 1) (match \<or> same_char nocase b c))
         else glob_class P nocase c (p + 1) (plen - 1) (match \<or> same_char nocase b c))"
  by pat_completeness auto

termination glob_class
  by (relation "measure (\<lambda>(P, nocase, c, p, plen, match). length P - p)") (auto simp: rd_def split: if_splits)

text \<open>
  The cases of the \<^verbatim>\<open>switch\<close> that consume one character: \<open>Some None\<close> is \<^verbatim>\<open>return 0\<close>, otherwise the position in
  the pattern before the common increment.
\<close>

definition glob_one :: "mem \<Rightarrow> mem \<Rightarrow> bool \<Rightarrow> byte \<Rightarrow> nat \<Rightarrow> int \<Rightarrow> nat \<Rightarrow> (nat \<times> int) option option" where
  "glob_one P S nocase b p plen s =
    (if b = 63 then Some (Some (p, plen))
     else if b = 91 then do {
       let p = p + 1;
       let plen = plen - 1;
       b \<leftarrow> rd P p;
       let neg = (b = 94);
       let (p, plen) = (if neg then (p + 1, plen - 1) else (p, plen));
       c \<leftarrow> rd S s;
       (match, p, plen) \<leftarrow> glob_class P nocase c p plen False;
       Some (if match \<noteq> neg then Some (p, plen) else None)
     }
     else do {
       let (p, plen) = (if b = 92 \<and> plen \<ge> 2 then (p + 1, plen - 1) else (p, plen));
       b \<leftarrow> rd P p;
       c \<leftarrow> rd S s;
       Some (if same_char nocase b c then Some (p, plen) else None)
     })"

declare glob_stars.simps [simp del] glob_tail.simps [simp del] glob_class.simps [simp del]

lemma glob_stars_mono:
  "glob_stars P p plen = Some (q, n) \<Longrightarrow> p \<le> q"
proof (induction P p plen rule: glob_stars.induct)
  case (1 P p plen)
  from "1.prems" show ?case
    by (subst (asm) glob_stars.simps) (auto split: if_splits option.splits dest: "1.IH")
qed

lemma glob_class_mono:
  "glob_class P nocase c p plen match = Some (m, q, n) \<Longrightarrow> p \<le> q + 1"
proof (induction P nocase c p plen match rule: glob_class.induct)
  case (1 P nocase c p plen match)
  from "1.prems" show ?case
    by (subst (asm) glob_class.simps) (auto split: if_splits option.splits dest: "1.IH")
qed

lemma glob_one_mono:
  "glob_one P S nocase b p plen s = Some (Some (q, n)) \<Longrightarrow> p \<le> q"
  by (auto simp: glob_one_def Let_def split: if_splits bind_splits prod.splits dest!: glob_class_mono)

text \<open>
  The matcher and the search for the rest of the pattern behind a star. The result holds the value of
  \<^verbatim>\<open>*skipLongerMatches\<close>.
\<close>

function stringmatchlen_impl :: "mem \<Rightarrow> mem \<Rightarrow> bool \<Rightarrow> nat \<Rightarrow> int \<Rightarrow> nat \<Rightarrow> nat \<Rightarrow> bool \<Rightarrow> (bool \<times> bool) option"
  and stringmatchlen_star :: "mem \<Rightarrow> mem \<Rightarrow> bool \<Rightarrow> nat \<Rightarrow> int \<Rightarrow> nat \<Rightarrow> nat \<Rightarrow> bool \<Rightarrow> (bool \<times> bool) option" where
  "stringmatchlen_impl P S nocase p plen s slen skip =
    (if plen = 0 \<or> slen = 0 then Some (plen = 0 \<and> slen = 0, skip)
     else case rd P p of
       None \<Rightarrow> None
     | Some b \<Rightarrow>
         if b = 42 then
           (case glob_stars P p plen of
              None \<Rightarrow> None
            | Some (p, plen) \<Rightarrow>
                if plen = 1 then Some (True, skip) else stringmatchlen_star P S nocase p plen s slen skip)
         else
           (case glob_one P S nocase b p plen s of
              None \<Rightarrow> None
            | Some None \<Rightarrow> Some (False, skip)
            | Some (Some (p, plen)) \<Rightarrow>
                if slen = 1 then
                  (case glob_tail P (p + 1) (plen - 1) of
                     None \<Rightarrow> None
                   | Some (p, plen) \<Rightarrow> Some (plen = 0, skip))
                else stringmatchlen_impl P S nocase (p + 1) (plen - 1) (s + 1) (slen - 1) skip))"
| "stringmatchlen_star P S nocase p plen s slen skip =
    (if p \<ge> length P then None
     else if slen = 0 then Some (False, True)
     else case stringmatchlen_impl P S nocase (p + 1) (plen - 1) s slen skip of
       None \<Rightarrow> None
     | Some (match, skip) \<Rightarrow>
         if match then Some (True, skip)
         else if skip then Some (False, skip)
         else stringmatchlen_star P S nocase p plen (s + 1) (slen - 1) skip)"
  by pat_completeness auto

termination stringmatchlen_impl
proof (relation "inv_image (less_than <*lex*> less_than)
    (\<lambda>x. case x of Inl (P, S, nocase, p, plen, s, slen, skip) \<Rightarrow> (Suc (2 * (length P - p)), slen)
       | Inr (P, S, nocase, p, plen, s, slen, skip) \<Rightarrow> (2 * (length P - p), slen))", goal_cases)
  case 1
  show ?case by blast
qed (auto simp: rd_def split: if_splits dest!: glob_stars_mono glob_one_mono)

definition stringmatchlen :: "mem \<Rightarrow> nat \<Rightarrow> mem \<Rightarrow> nat \<Rightarrow> bool \<Rightarrow> bool option" where
  "stringmatchlen pattern patternLen string stringLen nocase =
    map_option fst (stringmatchlen_impl pattern string nocase 0 (int patternLen) 0 stringLen False)"

text \<open>Zero-terminated arguments: \<open>strlen\<close> counts the bytes before the terminator.\<close>

definition strlen :: "mem \<Rightarrow> nat option" where
  "strlen s = (if 0 \<in> set s then Some (length (takeWhile (\<lambda>b. b \<noteq> 0) s)) else None)"

definition stringmatch :: "mem \<Rightarrow> mem \<Rightarrow> bool \<Rightarrow> bool option" where
  "stringmatch pattern string nocase = do {
     m \<leftarrow> strlen pattern;
     n \<leftarrow> strlen string;
     stringmatchlen pattern m string n nocase
   }"

declare stringmatchlen_impl.simps [simp del] stringmatchlen_star.simps [simp del]

subsection \<open>The reference: tokens and their meaning\<close>

datatype gitem = Exact byte | Same byte | Span byte byte

datatype gtok = GStar | GAny | GLit byte | GClass bool "gitem list"

fun item_match :: "bool \<Rightarrow> byte \<Rightarrow> gitem \<Rightarrow> bool" where
  "item_match nocase c (Exact a) \<longleftrightarrow> a = c"
| "item_match nocase c (Same a) \<longleftrightarrow> same_char nocase a c"
| "item_match nocase c (Span a b) \<longleftrightarrow> in_range nocase a b c"

fun tok_match :: "bool \<Rightarrow> gtok \<Rightarrow> byte \<Rightarrow> bool" where
  "tok_match nocase GStar c \<longleftrightarrow> False"
| "tok_match nocase GAny c \<longleftrightarrow> True"
| "tok_match nocase (GLit a) c \<longleftrightarrow> same_char nocase a c"
| "tok_match nocase (GClass neg items) c \<longleftrightarrow> list_ex (item_match nocase c) items \<noteq> neg"

fun gmatch :: "bool \<Rightarrow> gtok list \<Rightarrow> byte list \<Rightarrow> bool" where
  "gmatch nocase [] xs \<longleftrightarrow> xs = []"
| "gmatch nocase (GStar # ts) xs \<longleftrightarrow> (\<exists>ys \<in> set (suffixes xs). gmatch nocase ts ys)"
| "gmatch nocase (t # ts) [] \<longleftrightarrow> False"
| "gmatch nocase (t # ts) (x # xs) \<longleftrightarrow> tok_match nocase t x \<and> gmatch nocase ts xs"

text \<open>The items of a class and the pattern behind it; a class may also end with the pattern.\<close>

function class_items :: "byte list \<Rightarrow> gitem list \<times> byte list" where
  "class_items [] = ([], [])"
| "class_items (b # ps) =
    (if b = 92 \<and> ps \<noteq> [] then apfst ((#) (Exact (hd ps))) (class_items (tl ps))
     else if b = 93 then ([], ps)
     else if 2 \<le> length ps \<and> hd ps = 45 then apfst ((#) (Span b (ps ! 1))) (class_items (drop 2 ps))
     else apfst ((#) (Same b)) (class_items ps))"
  by pat_completeness auto

termination class_items
  by (relation "measure length") auto

text \<open>The first token of a non-empty pattern, and the rest.\<close>

definition tok_step :: "byte \<Rightarrow> byte list \<Rightarrow> gtok \<times> byte list" where
  "tok_step b ps =
    (if b = 42 then (GStar, ps)
     else if b = 63 then (GAny, ps)
     else if b = 91 then
       (let neg = (ps \<noteq> [] \<and> hd ps = 94) in
        apfst (GClass neg) (class_items (if neg then tl ps else ps)))
     else if b = 92 \<and> ps \<noteq> [] then (GLit (hd ps), tl ps)
     else (GLit b, ps))"

lemma class_items_length: "length (snd (class_items ps)) \<le> length ps"
  by (induction ps rule: class_items.induct) (auto simp: apfst_def map_prod_def split: prod.splits)

lemma tok_step_length: "length (snd (tok_step b ps)) \<le> length ps"
  using class_items_length [of ps] class_items_length [of "tl ps"]
  by (auto simp: tok_step_def Let_def)

function glob_tokens :: "byte list \<Rightarrow> gtok list" where
  "glob_tokens [] = []"
| "glob_tokens (b # ps) = fst (tok_step b ps) # glob_tokens (snd (tok_step b ps))"
  by pat_completeness auto

termination glob_tokens
  by (relation "measure length") (auto simp: le_imp_less_Suc tok_step_length)

declare class_items.simps(2) [simp del] glob_tokens.simps(2) [simp del]

subsection \<open>The steps of the matcher and the tokens\<close>

lemma rd_pattern: "rd (pat @ [0]) p = (if p < length pat then Some (pat ! p) else if p = length pat then Some 0 else None)"
  by (simp add: rd_def nth_append)

text \<open>The position of a suffix of the pattern.\<close>

lemma suffix_pos:
  assumes "suffix (b # ps) pat" and "p = length pat - length (b # ps)"
  shows "p < length pat" and "pat ! p = b" and "i < length ps \<Longrightarrow> pat ! (p + Suc i) = ps ! i"
    and "p + Suc (length ps) = length pat"
  using assms by (auto simp: suffix_def nth_append)

lemma rd_suffix:
  assumes "suffix ps pat" and "i \<le> length ps"
  shows "rd (pat @ [0]) (length pat - length ps + i) = Some (if i < length ps then ps ! i else 0)"
  using assms by (auto simp: suffix_def rd_pattern nth_append)

lemma suffix_tl: "suffix (b # ps) pat \<Longrightarrow> suffix ps pat" "suffix ps pat \<Longrightarrow> suffix (tl ps) pat" "suffix ps pat \<Longrightarrow> suffix (drop n ps) pat"
  by (auto simp: suffix_def) (metis append.assoc append_Nil append_take_drop_id list.sel list.exhaust append_Cons tl_Nil)+

lemma suffix_strict_pos: "suffix ps pat \<Longrightarrow> length ps < length pat \<Longrightarrow> length pat - length ps \<noteq> 0"
  by simp

lemma suffix_at:
  assumes "suffix ps pat"
  shows "length pat - length (drop i ps) = (if i \<le> length ps then length pat - length ps + i else length pat)"
  using suffix_length_le [OF assms] by auto

lemma glob_class_items:
  "suffix ps pat \<Longrightarrow> length ps < length pat \<Longrightarrow>
    glob_class (pat @ [0]) nocase c (length pat - length ps) (int (length ps)) m =
      Some (m \<or> list_ex (item_match nocase c) (fst (class_items ps)),
        length pat - length (snd (class_items ps)) - 1, int (length (snd (class_items ps))) + 1)"
proof (induction ps arbitrary: m rule: class_items.induct)
  case 1
  then show ?case by (simp add: glob_class.simps rd_pattern)
next
  case (2 b ps)
  let ?p = "length pat - length (b # ps)"
  have le: "length (b # ps) < length pat" using "2.prems"(2) .
  note s1 = suffix_tl(1) [OF "2.prems"(1)]
  note suf = s1 suffix_tl(2) [OF s1] suffix_tl(3) [OF s1, of 2]
  have rd0: "rd (pat @ [0]) ?p = Some b" using rd_suffix [OF "2.prems"(1), of 0] by simp
  have rd1: "rd (pat @ [0]) (?p + 1) = Some (hd ps)" if "ps \<noteq> []"
    using rd_suffix [OF "2.prems"(1), of 1] that by (cases ps) auto
  have rd2: "rd (pat @ [0]) (?p + 2) = Some (ps ! 1)" if "2 \<le> length ps"
    using rd_suffix [OF "2.prems"(1), of 2] that by simp
  have p1: "?p + 1 = length pat - length ps" using le by simp
  have p2: "?p + 2 = length pat - length (tl ps)" if "ps \<noteq> []" using le that by (cases ps) auto
  have p3: "?p + 3 = length pat - length (drop 2 ps)" if "2 \<le> length ps" using le that by auto
  note step = glob_class.simps [of "pat @ [0]" nocase c ?p] class_items.simps(2) [of b ps]
  consider (esc) "b = 92" "ps \<noteq> []" | (close) "b = 93" | (span) "\<not> (b = 92 \<and> ps \<noteq> [])" "b \<noteq> 93" "2 \<le> length ps" "hd ps = 45"
    | (same) "\<not> (b = 92 \<and> ps \<noteq> [])" "b \<noteq> 93" "\<not> (2 \<le> length ps \<and> hd ps = 45)" by blast
  then show ?case
  proof cases
    case esc
    have i: "int (length (b # ps)) - 2 = int (length (tl ps))" using esc(2) by (cases ps) auto
    have "length (tl ps) < length pat" using le by simp
    from "2.IH"(1) [OF _ suf(2) this] esc show ?thesis
      unfolding step using rd0 rd1 [OF esc(2)] i p2 [OF esc(2)] by (cases ps) auto
  next
    case close
    then show ?thesis unfolding step using rd0 le by simp
  next
    case span
    then have ne: "ps \<noteq> []" and lp: "3 \<le> length (b # ps)" by auto
    have i: "int (length (b # ps)) - 3 = int (length (drop 2 ps))" using span(3) by auto
    have "length (drop 2 ps) < length pat" using le by simp
    from "2.IH"(2) [OF _ _ _ suf(3) this] span show ?thesis
      unfolding step using rd0 rd1 [OF ne] rd2 [OF span(3)] i p3 [OF span(3)] lp by auto
  next
    case same
    have i: "int (length (b # ps)) - 1 = int (length ps)" by simp
    have "length ps < length pat" using le by simp
    note IH = "2.IH"(3) [OF same(1,2,3) suf(1) this]
    have b92: "\<not> (b = 92 \<and> 2 \<le> int (length (b # ps)))" using same(1) by (cases ps) auto
    show ?thesis
    proof (cases "3 \<le> length (b # ps)")
      case True
      then have ne: "ps \<noteq> []" and "hd ps \<noteq> 45" using same(3) by auto
      then show ?thesis unfolding step using rd0 rd1 [OF ne] same i p1 True IH b92 by auto
    next
      case False
      then show ?thesis unfolding step using rd0 same i p1 IH b92 by auto
    qed
  qed
qed

lemma glob_one_tok:
  assumes "suffix (b # ps) pat" and "b \<noteq> 42" and "rd S s = Some c"
  shows "glob_one (pat @ [0]) S nocase b (length pat - length (b # ps)) (int (length (b # ps))) s =
    Some (if tok_match nocase (fst (tok_step b ps)) c
      then Some (length pat - length (snd (tok_step b ps)) - 1, int (length (snd (tok_step b ps))) + 1) else None)"
proof -
  let ?p = "length pat - length (b # ps)"
  have le: "length (b # ps) \<le> length pat" using suffix_length_le [OF assms(1)] .
  note suf = suffix_tl(1) [OF assms(1)]
  have rd0: "rd (pat @ [0]) ?p = Some b" using rd_suffix [OF assms(1), of 0] by simp
  have rd1: "rd (pat @ [0]) (?p + 1) = Some (if ps \<noteq> [] then hd ps else 0)"
    using rd_suffix [OF assms(1), of 1] by (cases ps) auto
  have p1: "?p + 1 = length pat - length ps" using le by simp
  have p2: "?p + 1 + 1 = length pat - length (tl ps)" if "ps \<noteq> []" using le that by (cases ps) auto
  consider (any) "b = 63" | (cls) "b = 91" | (esc) "b = 92" "ps \<noteq> []" | (lit) "b \<noteq> 63" "b \<noteq> 91" "\<not> (b = 92 \<and> ps \<noteq> [])" by blast
  then show ?thesis
  proof cases
    case any
    then show ?thesis by (simp add: glob_one_def tok_step_def)
  next
    case cls
    show ?thesis
    proof (cases "ps \<noteq> [] \<and> hd ps = 94")
      case True
      have i: "int (length (b # ps)) - 1 - 1 = int (length (tl ps))" using True by (cases ps) auto
      have "length (tl ps) < length pat" using le by simp
      from glob_class_items [OF suffix_tl(2) [OF suf] this, of nocase c False] show ?thesis
        using True cls rd1 p2 i assms(3) by (simp add: glob_one_def tok_step_def Let_def apfst_def map_prod_def split: prod.splits)
    next
      case False
      have i: "int (length (b # ps)) - 1 = int (length ps)" by simp
      have "length ps < length pat" using le by simp
      from glob_class_items [OF suf this, of nocase c False] show ?thesis
        using False cls rd1 p1 i assms(3) by (auto simp: glob_one_def tok_step_def Let_def apfst_def map_prod_def split: prod.splits)
    qed
  next
    case esc
    then have "2 \<le> int (length (b # ps))" by (cases ps) auto
    then show ?thesis using esc rd1 assms(3) le by (cases ps) (auto simp: glob_one_def tok_step_def Let_def)
  next
    case lit
    then have "\<not> (b = 92 \<and> 2 \<le> int (length (b # ps)))" by (cases ps) auto
    then show ?thesis using lit assms(2,3) rd0 le by (auto simp: glob_one_def tok_step_def Let_def)
  qed
qed

lemma glob_stars_run:
  "suffix (42 # ps) pat \<Longrightarrow> glob_stars (pat @ [0]) (length pat - length (42 # ps)) (int (length (42 # ps))) =
    Some (length pat - length (42 # dropWhile (\<lambda>b. b = 42) ps), int (length (42 # dropWhile (\<lambda>b. b = 42) ps)))"
proof (induction ps)
  case Nil
  then show ?case using rd_suffix [OF Nil, of 1] by (subst glob_stars.simps) simp
next
  case (Cons b ps)
  have le: "length (42 # b # ps) \<le> length pat" using suffix_length_le [OF Cons.prems] .
  have rd1: "rd (pat @ [0]) (length pat - length (42 # b # ps) + 1) = Some b" using rd_suffix [OF Cons.prems, of 1] by simp
  have p: "length pat - length (42 # b # ps) + 1 = length pat - length (b # ps)"
    "int (length (42 # b # ps)) - 1 = int (length (b # ps))" using le by auto
  show ?case
  proof (cases "b = 42")
    case True
    then show ?thesis using Cons.IH [OF suffix_tl(1) [OF Cons.prems [unfolded True]]] rd1 p
      by (subst glob_stars.simps) (simp del: length_Cons)
  next
    case False
    then show ?thesis using rd1 by (subst glob_stars.simps) simp
  qed
qed

lemma glob_tail_run:
  "suffix ps pat \<Longrightarrow> glob_tail (pat @ [0]) (length pat - length ps) (int (length ps)) =
    Some (length pat - length (dropWhile (\<lambda>b. b = 42) ps), int (length (dropWhile (\<lambda>b. b = 42) ps)))"
proof (induction ps)
  case Nil
  then show ?case using rd_suffix [OF Nil, of 0] by (subst glob_tail.simps) simp
next
  case (Cons b ps)
  have le: "length (b # ps) \<le> length pat" using suffix_length_le [OF Cons.prems] .
  have rd0: "rd (pat @ [0]) (length pat - length (b # ps)) = Some b" using rd_suffix [OF Cons.prems, of 0] by simp
  have p: "length pat - length (b # ps) + 1 = length pat - length ps" "int (length (b # ps)) - 1 = int (length ps)" using le by auto
  show ?case using Cons.IH [OF suffix_tl(1) [OF Cons.prems]] rd0 p
    by (subst glob_tail.simps) (simp del: length_Cons)
qed

subsection \<open>The meaning of tokens\<close>

lemma gmatch_Star: "gmatch nocase (GStar # ts) xs \<longleftrightarrow> (\<exists>ys. suffix ys xs \<and> gmatch nocase ts ys)"
  by auto

lemma gmatch_Star_Star: "gmatch nocase (GStar # GStar # ts) xs = gmatch nocase (GStar # ts) xs"
  unfolding gmatch_Star using suffix_order.trans by blast

lemma glob_tokens_star: "glob_tokens (42 # ps) = GStar # glob_tokens ps"
  by (simp add: glob_tokens.simps(2) tok_step_def)

lemma gmatch_collapse:
  "gmatch nocase (glob_tokens (42 # ps)) xs = gmatch nocase (glob_tokens (42 # dropWhile (\<lambda>b. b = 42) ps)) xs"
proof (induction ps)
  case (Cons b ps)
  then show ?case
    unfolding glob_tokens_star by (cases "b = 42") (simp_all add: glob_tokens_star gmatch_Star_Star del: gmatch.simps(2))
qed simp

lemma tok_step_star: "b \<noteq> 42 \<Longrightarrow> fst (tok_step b ps) \<noteq> GStar"
  by (simp add: tok_step_def Let_def apfst_def map_prod_def split: prod.splits)

lemma gmatch_Cons:
  "t \<noteq> GStar \<Longrightarrow> gmatch nocase (t # ts) xs \<longleftrightarrow> (\<exists>y ys. xs = y # ys \<and> tok_match nocase t y \<and> gmatch nocase ts ys)"
  by (cases t; cases xs) simp_all

lemma gmatch_Nil: "gmatch nocase (glob_tokens ps) [] \<longleftrightarrow> dropWhile (\<lambda>b. b = 42) ps = []"
proof (induction ps)
  case (Cons b ps)
  show ?case
  proof (cases "b = 42")
    case False
    then show ?thesis using tok_step_star [OF False, of ps] by (simp add: glob_tokens.simps(2) gmatch_Cons)
  qed (simp add: glob_tokens_star Cons)
qed simp

subsection \<open>The matcher and the reference\<close>

text \<open>
  What one call promises on a suffix of the pattern and a non-empty suffix of the string: the answer of the
  reference, and \<^verbatim>\<open>*skipLongerMatches\<close> is raised only when no later position matches either.
\<close>

definition impl_ok :: "byte list \<Rightarrow> byte list \<Rightarrow> bool \<Rightarrow> byte list \<Rightarrow> byte list \<Rightarrow> bool" where
  "impl_ok pat S nocase ps xs \<longleftrightarrow>
    (\<exists>sk. stringmatchlen_impl (pat @ [0]) S nocase (length pat - length ps) (int (length ps))
        (length S - length xs) (length xs) False = Some (gmatch nocase (glob_tokens ps) xs, sk) \<and>
      (sk \<longrightarrow> (\<forall>ys. suffix ys xs \<longrightarrow> \<not> gmatch nocase (glob_tokens ps) ys)))"

lemma class_items_suffix: "suffix (snd (class_items ps)) ps"
proof (induction ps rule: class_items.induct)
  case (2 b ps)
  have t: "suffix (tl ps) ps" "suffix (drop 2 ps) ps" by (simp_all add: suffix_drop suffix_tl(2))
  show ?case
    by (subst class_items.simps)
      (auto intro!: suffix_ConsI intro: suffix_order.trans [OF 2(1) t(1)] suffix_order.trans [OF 2(2) t(2)] 2(3))
qed simp

lemma tok_step_suffix: "suffix (snd (tok_step b ps)) ps"
  using class_items_suffix [of ps] suffix_order.trans [OF class_items_suffix [of "tl ps"], of ps] suffix_tl(2) [of ps ps]
  by (auto simp: tok_step_def Let_def)

lemma stars_suffix: "suffix (42 # dropWhile (\<lambda>b. b = 42) ps) (42 # ps)"
proof (induction ps)
  case (Cons b ps)
  then show ?case by (cases "b = 42") (auto intro: suffix_ConsI)
qed simp

lemma impl_step_one:
  assumes "rd P p = Some b" and "b \<noteq> 42" and "plen \<noteq> 0" and "slen \<noteq> 0" and "glob_one P S nocase b p plen s = Some r"
  shows "stringmatchlen_impl P S nocase p plen s slen skip =
    (case r of None \<Rightarrow> Some (False, skip)
     | Some (q, n) \<Rightarrow>
         if slen = 1 then (case glob_tail P (q + 1) (n - 1) of None \<Rightarrow> None | Some (p, plen) \<Rightarrow> Some (plen = 0, skip))
         else stringmatchlen_impl P S nocase (q + 1) (n - 1) (s + 1) (slen - 1) skip)"
  by (subst stringmatchlen_impl.simps) (simp only: assms option.case if_False simp_thms)

lemma star_step:
  assumes "\<not> length P \<le> p" and "slen \<noteq> 0" and "stringmatchlen_impl P S nocase (p + 1) (plen - 1) s slen skip = Some (m, sk)"
  shows "stringmatchlen_star P S nocase p plen s slen skip =
    (if m then Some (True, sk) else if sk then Some (False, sk)
     else stringmatchlen_star P S nocase p plen (s + 1) (slen - 1) False)"
  using assms by (subst stringmatchlen_star.simps) (cases sk; simp only: assms option.case prod.case if_False if_True)

lemma star_verdict:
  "(sk \<Longrightarrow> \<not> (m \<or> g)) \<Longrightarrow> e = Some (g, \<not> g) \<Longrightarrow>
    (if m then Some (True, sk) else if sk then Some (False, sk) else e) = Some (m \<or> g, \<not> (m \<or> g))"
  by auto

lemma star_search:
  assumes "suffix (42 # ps) pat" and "ps \<noteq> []" and "hd ps \<noteq> 42"
    and ok: "\<And>xs. suffix xs S \<Longrightarrow> xs \<noteq> [] \<Longrightarrow> impl_ok pat S nocase ps xs"
  shows "suffix xs S \<Longrightarrow>
    stringmatchlen_star (pat @ [0]) S nocase (length pat - length (42 # ps)) (int (length (42 # ps)))
      (length S - length xs) (length xs) False =
    Some (gmatch nocase (GStar # glob_tokens ps) xs, \<not> gmatch nocase (GStar # glob_tokens ps) xs)"
proof (induction xs)
  case Nil
  have "\<not> gmatch nocase (glob_tokens ps) []" unfolding gmatch_Nil using assms(2,3) by (cases ps) auto
  then show ?case by (subst stringmatchlen_star.simps) simp
next
  case (Cons x xs)
  let ?q = "length pat - length (42 # ps)"
  have le: "length (42 # ps) \<le> length pat" "length (x # xs) \<le> length S"
    using suffix_length_le [OF assms(1)] suffix_length_le [OF Cons.prems] .
  have p: "?q + 1 = length pat - length ps" "int (length (42 # ps)) - 1 = int (length ps)"
    "length S - length (x # xs) + 1 = length S - length xs" "length (x # xs) - 1 = length xs" "\<not> length (pat @ [0]) \<le> ?q"
    "length (x # xs) \<noteq> 0"
    using le by auto
  from ok [OF Cons.prems] obtain sk where
    run: "stringmatchlen_impl (pat @ [0]) S nocase (length pat - length ps) (int (length ps))
        (length S - length (x # xs)) (length (x # xs)) False = Some (gmatch nocase (glob_tokens ps) (x # xs), sk)"
    and skip: "sk \<longrightarrow> (\<forall>ys. suffix ys (x # xs) \<longrightarrow> \<not> gmatch nocase (glob_tokens ps) ys)"
    unfolding impl_ok_def by blast
  have split: "gmatch nocase (GStar # glob_tokens ps) (x # xs) \<longleftrightarrow>
      gmatch nocase (glob_tokens ps) (x # xs) \<or> gmatch nocase (GStar # glob_tokens ps) xs"
    unfolding gmatch_Star suffix_Cons by blast
  have none: "sk \<Longrightarrow> \<not> gmatch nocase (GStar # glob_tokens ps) (x # xs)"
    unfolding gmatch_Star using skip by blast
  show ?case
    unfolding star_step [OF p(5,6) run [folded p(1,2)]] p(3,4) split
    by (rule star_verdict [OF none [unfolded split] Cons.IH [OF suffix_tl(1) [OF Cons.prems]]])
qed

lemma impl_ok_star:
  assumes "suffix (42 # ps) pat" and "suffix xs S" and "xs \<noteq> []"
    and ok: "\<And>rs xs. suffix rs ps \<Longrightarrow> suffix xs S \<Longrightarrow> xs \<noteq> [] \<Longrightarrow> impl_ok pat S nocase rs xs"
  shows "impl_ok pat S nocase (42 # ps) xs"
proof -
  let ?rs = "dropWhile (\<lambda>b. b = 42) ps"
  have suf: "suffix ?rs ps" by (metis suffix_dropWhile)
  have sufs: "suffix (42 # ?rs) pat"
    using suffix_order.trans [OF stars_suffix assms(1)] .
  have rd0: "rd (pat @ [0]) (length pat - length (42 # ps)) = Some 42"
    using rd_suffix [OF assms(1), of 0] by simp
  have start: "stringmatchlen_impl (pat @ [0]) S nocase (length pat - length (42 # ps)) (int (length (42 # ps)))
      (length S - length xs) (length xs) False =
    (if ?rs = [] then Some (True, False)
     else stringmatchlen_star (pat @ [0]) S nocase (length pat - length (42 # ?rs)) (int (length (42 # ?rs)))
      (length S - length xs) (length xs) False)"
    using rd0 glob_stars_run [OF assms(1)] assms(3) by (subst stringmatchlen_impl.simps) (simp add: of_nat_eq_0_iff)
  show ?thesis
  proof (cases "?rs = []")
    case True
    then have "gmatch nocase (glob_tokens (42 # ps)) xs"
      unfolding glob_tokens_star gmatch_Star using gmatch_Nil [of nocase ps] by (intro exI [of _ "[]"]) simp
    then show ?thesis unfolding impl_ok_def start using True by (intro exI [of _ False]) simp
  next
    case False
    have "hd ?rs \<noteq> 42" using hd_dropWhile [OF False] by simp
    note search = star_search [OF sufs False this, of S nocase, OF ok [OF suf] assms(2)]
    have run: "stringmatchlen_impl (pat @ [0]) S nocase (length pat - length (42 # ps)) (int (length (42 # ps)))
        (length S - length xs) (length xs) False =
      Some (gmatch nocase (glob_tokens (42 # ps)) xs, \<not> gmatch nocase (glob_tokens (42 # ps)) xs)"
      unfolding start gmatch_collapse [of nocase ps] glob_tokens_star [of ?rs]
      by (simp only: False if_False) (rule search)
    have "\<forall>ys. suffix ys xs \<longrightarrow> \<not> gmatch nocase (glob_tokens (42 # ps)) ys" if "\<not> gmatch nocase (glob_tokens (42 # ps)) xs"
      using that unfolding glob_tokens_star gmatch_Star by (metis suffix_order.trans)
    then show ?thesis unfolding impl_ok_def run by simp
  qed
qed

lemma impl_ok_one:
  assumes "suffix (b # ps) pat" and "b \<noteq> 42" and "suffix (x # xs) S"
    and ok: "xs \<noteq> [] \<Longrightarrow> impl_ok pat S nocase (snd (tok_step b ps)) xs"
    and suf: "suffix (snd (tok_step b ps)) pat"
  shows "impl_ok pat S nocase (b # ps) (x # xs)"
proof -
  let ?t = "fst (tok_step b ps)" and ?rs = "snd (tok_step b ps)"
  have le: "length (b # ps) \<le> length pat" "length (x # xs) \<le> length S" "length ?rs \<le> length ps"
    using suffix_length_le [OF assms(1)] suffix_length_le [OF assms(3)] tok_step_length .
  have rdb: "rd (pat @ [0]) (length pat - length (b # ps)) = Some b"
    using rd_suffix [OF assms(1), of 0] by simp
  have rdx: "rd S (length S - length (x # xs)) = Some x"
    using suffix_pos(1,2) [OF assms(3) refl] by (simp add: rd_def)
  have p: "length pat - length ?rs - 1 + 1 = length pat - length ?rs" "length S - length (x # xs) + 1 = length S - length xs"
    "int (length ?rs) + 1 - 1 = int (length ?rs)" "length (x # xs) - 1 = length xs" "length (x # xs) = 1 \<longleftrightarrow> xs = []"
    using le by auto
  have ne: "int (length (b # ps)) \<noteq> 0" "length (x # xs) \<noteq> 0" by simp_all
  have start: "stringmatchlen_impl (pat @ [0]) S nocase (length pat - length (b # ps)) (int (length (b # ps)))
      (length S - length (x # xs)) (length (x # xs)) False =
    (if \<not> tok_match nocase ?t x then Some (False, False)
     else if xs = [] then Some (dropWhile (\<lambda>b. b = 42) ?rs = [], False)
     else stringmatchlen_impl (pat @ [0]) S nocase (length pat - length ?rs) (int (length ?rs))
      (length S - length xs) (length xs) False)"
    unfolding impl_step_one [OF rdb assms(2) ne glob_one_tok [OF assms(1,2) rdx]]
    using glob_tail_run [OF suf] p by (simp only: option.case prod.case if_False if_True not_False_eq_True
        if_distrib [of "case_option _ _"] simp_thms split: if_split) simp
  have tok: "glob_tokens (b # ps) = ?t # glob_tokens ?rs" by (simp add: glob_tokens.simps(2))
  have g: "gmatch nocase (glob_tokens (b # ps)) (x # xs) \<longleftrightarrow> tok_match nocase ?t x \<and> gmatch nocase (glob_tokens ?rs) xs"
    unfolding tok gmatch_Cons [OF tok_step_star [OF assms(2)]] by simp
  show ?thesis
  proof (cases "tok_match nocase ?t x \<and> xs \<noteq> []")
    case False
    then show ?thesis unfolding impl_ok_def start g by (auto simp: gmatch_Nil)
  next
    case True
    then obtain sk where run: "stringmatchlen_impl (pat @ [0]) S nocase (length pat - length ?rs) (int (length ?rs))
        (length S - length xs) (length xs) False = Some (gmatch nocase (glob_tokens ?rs) xs, sk)"
      and skip: "sk \<longrightarrow> (\<forall>ys. suffix ys xs \<longrightarrow> \<not> gmatch nocase (glob_tokens ?rs) ys)"
      using ok unfolding impl_ok_def by blast
    have "\<not> gmatch nocase (glob_tokens (b # ps)) ys" if "sk" "suffix ys (x # xs)" for ys
    proof
      assume "gmatch nocase (glob_tokens (b # ps)) ys"
      then obtain z zs where "ys = z # zs" "gmatch nocase (glob_tokens ?rs) zs"
        unfolding tok gmatch_Cons [OF tok_step_star [OF assms(2)]] by blast
      moreover from this(1) that(2) have "suffix zs xs" by (auto simp: suffix_Cons dest: suffix_tl(1))
      ultimately show False using skip that(1) by blast
    qed
    with run True show ?thesis unfolding impl_ok_def start g by (intro exI [of _ sk]) simp
  qed
qed

lemma impl_ok_all:
  "suffix ps pat \<Longrightarrow> suffix xs S \<Longrightarrow> xs \<noteq> [] \<Longrightarrow> impl_ok pat S nocase ps xs"
proof (induction ps arbitrary: xs rule: measure_induct_rule [where f = length])
  case (less ps)
  show ?case
  proof (cases ps)
    case Nil
    then show ?thesis using less.prems by (auto simp: impl_ok_def stringmatchlen_impl.simps intro: exI [of _ False])
  next
    case (Cons b qs)
    note pat = less.prems(1) [unfolded Cons]
    have ok: "impl_ok pat S nocase rs xs" if suf: "suffix rs qs" and xs: "suffix xs S" "xs \<noteq> []" for rs xs
    proof (rule less.IH [OF _ _ xs])
      show "length rs < length ps" using suffix_length_le [OF suf] Cons by simp
      show "suffix rs pat" by (rule suffix_order.trans [OF suf suffix_tl(1) [OF pat]])
    qed
    show ?thesis
    proof (cases "b = 42")
      case True
      show ?thesis unfolding Cons True
        by (rule impl_ok_star [OF pat [unfolded True] less.prems(2,3) ok])
    next
      case False
      obtain y ys where xs: "xs = y # ys" using less.prems(3) by (cases xs) auto
      note str = less.prems(2) [unfolded xs]
      show ?thesis unfolding Cons xs
        by (rule impl_ok_one [OF pat False str ok [OF tok_step_suffix suffix_tl(1) [OF str]]
              suffix_order.trans [OF tok_step_suffix suffix_tl(1) [OF pat]]])
    qed
  qed
qed

lemma stringmatchlen_run:
  "stringmatchlen (pat @ [0]) (length pat) S (length S) nocase =
    Some (if S = [] then pat = [] else gmatch nocase (glob_tokens pat) S)"
proof (cases "S = []")
  case True
  then show ?thesis by (simp add: stringmatchlen_def stringmatchlen_impl.simps)
next
  case False
  from impl_ok_all [OF suffix_order.refl suffix_order.refl this, of pat nocase] show ?thesis
    using False by (auto simp: impl_ok_def stringmatchlen_def)
qed

text \<open>C20: On a pattern followed by a zero byte, \<open>stringmatchlen\<close> returns without reading outside the two strings,
  and on a non-empty string its answer is the one of the reference matcher on the tokens of the pattern: the
  early exit through \<^verbatim>\<open>*skipLongerMatches\<close> loses no match. The empty string is matched by the empty pattern only.\<close>

theorem stringmatchlen_reference:
  "stringmatchlen (pat @ [0]) (length pat) S (length S) nocase =
    Some (if S = [] then pat = [] else gmatch nocase (glob_tokens pat) S)"
  by (rule stringmatchlen_run)

text \<open>A pattern of stars only, which stands for any text, matches every string but the empty one.\<close>

lemma star_skips_empty_string:
  "stringmatchlen (replicate (Suc n) 42 @ [0]) (Suc n) S (length S) nocase = Some (S \<noteq> [])"
proof -
  have "gmatch nocase (glob_tokens (replicate (Suc n) 42)) S"
    unfolding replicate_Suc glob_tokens_star gmatch_Star
    using gmatch_Nil [of nocase "replicate n 42"] by (intro exI [of _ "[]"]) simp
  then show ?thesis
    using stringmatchlen_run [of "replicate (Suc n) 42" S nocase] by simp
qed

end
