(* ===== verification/Redis_Adlist.thy ===== *)
theory Redis_Adlist
  imports Redis_Prelude "HOL-Library.Multiset"
begin

text \<open>
  The doubly linked list of \<^verbatim>\<open>src/adlist.c\<close> on an explicit heap. A node address is a natural number, a pointer
  an address or \<open>None\<close> for \<^verbatim>\<open>NULL\<close>, and the heap maps the addresses of live nodes to their contents. Reading or
  writing through \<^verbatim>\<open>NULL\<close> or through an address that is not live is \<open>None\<close>, and so is freeing such an address.
  The \<^verbatim>\<open>list\<close> and \<^verbatim>\<open>listIter\<close> structures are passed and returned by value; the heap counts the live ones, so that a
  leak or a double free of a structure shows. The methods \<^verbatim>\<open>dup\<close> and \<^verbatim>\<open>match\<close> are functions on values; the values
  that \<^verbatim>\<open>dup\<close> returned and those handed to \<^verbatim>\<open>free\<close> are logged in the heap.

  A list owns the nodes of a sequence of (address, value) pairs; each operation acts on that sequence as the
  functional list operation does.
\<close>

subsection \<open>Data\<close>

type_synonym ptr = "nat option"

record 'v listNode =
  n_prev :: ptr
  n_next :: ptr
  n_value :: 'v

record listIter =
  i_next :: ptr
  i_direction :: int

record 'v adlist =
  l_head :: ptr
  l_tail :: ptr
  l_dup :: "('v \<Rightarrow> 'v option) option"
  l_free :: bool
  l_match :: "('v \<Rightarrow> 'v \<Rightarrow> bool) option"
  l_len :: "64 word"

record 'v lheap =
  nodes :: "nat \<rightharpoonup> 'v listNode"
  freed :: "'v list"
  duped :: "'v list"
  lists :: nat
  iters :: nat
  asked :: nat

text \<open>
  The allocator: the address and the indeterminate contents of a new node, or \<open>None\<close> for \<^verbatim>\<open>NULL\<close>, and whether the
  request for another structure is granted. It may look at the heap, which counts the requests.
\<close>

record 'v node_alloc =
  na_node :: "'v lheap \<Rightarrow> (nat \<times> 'v listNode) option"
  na_struct :: "'v lheap \<Rightarrow> bool"

definition AL_START_HEAD :: int where
  "AL_START_HEAD = 0"

definition AL_START_TAIL :: int where
  "AL_START_TAIL = 1"

definition new_node :: "'v node_alloc \<Rightarrow> 'v lheap \<Rightarrow> 'v lheap \<times> ptr" where
  "new_node al h =
    (case na_node al h of
       None \<Rightarrow> (h\<lparr>asked := asked h + 1\<rparr>, None)
     | Some (a, n) \<Rightarrow> (h\<lparr>nodes := (nodes h)(a \<mapsto> n), asked := asked h + 1\<rparr>, Some a))"

definition new_list :: "'v node_alloc \<Rightarrow> 'v lheap \<Rightarrow> 'v lheap \<times> bool" where
  "new_list al h =
    (if na_struct al h then (h\<lparr>lists := lists h + 1, asked := asked h + 1\<rparr>, True)
     else (h\<lparr>asked := asked h + 1\<rparr>, False))"

definition free_list :: "'v lheap \<Rightarrow> 'v lheap option" where
  "free_list h = (if lists h = 0 then None else Some (h\<lparr>lists := lists h - 1\<rparr>))"

definition new_iter :: "'v node_alloc \<Rightarrow> 'v lheap \<Rightarrow> 'v lheap \<times> bool" where
  "new_iter al h =
    (if na_struct al h then (h\<lparr>iters := iters h + 1, asked := asked h + 1\<rparr>, True)
     else (h\<lparr>asked := asked h + 1\<rparr>, False))"

definition get_node :: "'v lheap \<Rightarrow> ptr \<Rightarrow> 'v listNode option" where
  "get_node h p = Option.bind p (nodes h)"

definition upd_node :: "'v lheap \<Rightarrow> ptr \<Rightarrow> ('v listNode \<Rightarrow> 'v listNode) \<Rightarrow> 'v lheap option" where
  "upd_node h p f = do {
     a \<leftarrow> p;
     n \<leftarrow> nodes h a;
     Some (h\<lparr>nodes := (nodes h)(a \<mapsto> f n)\<rparr>)
   }"

abbreviation set_prev :: "'v lheap \<Rightarrow> ptr \<Rightarrow> ptr \<Rightarrow> 'v lheap option" where
  "set_prev h p q \<equiv> upd_node h p (\<lambda>n. n\<lparr>n_prev := q\<rparr>)"

abbreviation set_next :: "'v lheap \<Rightarrow> ptr \<Rightarrow> ptr \<Rightarrow> 'v lheap option" where
  "set_next h p q \<equiv> upd_node h p (\<lambda>n. n\<lparr>n_next := q\<rparr>)"

definition free_node :: "'v lheap \<Rightarrow> ptr \<Rightarrow> 'v lheap option" where
  "free_node h p = do {
     a \<leftarrow> p;
     _ \<leftarrow> nodes h a;
     Some (h\<lparr>nodes := (nodes h)(a := None)\<rparr>)
   }"

definition free_value :: "bool \<Rightarrow> 'v \<Rightarrow> 'v lheap \<Rightarrow> 'v lheap" where
  "free_value fr v h = (if fr then h\<lparr>freed := freed h @ [v]\<rparr> else h)"

subsection \<open>Operations\<close>

definition listCreate :: "'v node_alloc \<Rightarrow> 'v lheap \<Rightarrow> 'v lheap \<times> 'v adlist option" where
  "listCreate al h =
    (let (h, ok) = new_list al h in
     if \<not> ok then (h, None)
     else (h, Some \<lparr>l_head = None, l_tail = None, l_dup = None, l_free = False, l_match = None, l_len = 0\<rparr>))"

primrec listEmpty_loop :: "nat \<Rightarrow> bool \<Rightarrow> 'v lheap \<Rightarrow> ptr \<Rightarrow> 'v lheap option" where
  "listEmpty_loop 0 fr h current = Some h"
| "listEmpty_loop (Suc len) fr h current = do {
     n \<leftarrow> get_node h current;
     h \<leftarrow> free_node (free_value fr (n_value n) h) current;
     listEmpty_loop len fr h (n_next n)
   }"

definition listEmpty :: "'v lheap \<Rightarrow> 'v adlist \<Rightarrow> ('v lheap \<times> 'v adlist) option" where
  "listEmpty h l = do {
     h \<leftarrow> listEmpty_loop (unat (l_len l)) (l_free l) h (l_head l);
     Some (h, l\<lparr>l_head := None, l_tail := None, l_len := 0\<rparr>)
   }"

definition listRelease :: "'v lheap \<Rightarrow> 'v adlist \<Rightarrow> 'v lheap option" where
  "listRelease h l = do {
     (h, l) \<leftarrow> listEmpty h l;
     free_list h
   }"

definition listLinkNodeHead :: "'v lheap \<Rightarrow> 'v adlist \<Rightarrow> ptr \<Rightarrow> ('v lheap \<times> 'v adlist) option" where
  "listLinkNodeHead h l node =
    (if l_len l = 0 then do {
       h \<leftarrow> upd_node h node (\<lambda>n. n\<lparr>n_prev := None, n_next := None\<rparr>);
       Some (h, l\<lparr>l_head := node, l_tail := node, l_len := l_len l + 1\<rparr>)
     } else do {
       h \<leftarrow> set_prev h node None;
       h \<leftarrow> set_next h node (l_head l);
       h \<leftarrow> set_prev h (l_head l) node;
       Some (h, l\<lparr>l_head := node, l_len := l_len l + 1\<rparr>)
     })"

definition listAddNodeHead :: "'v node_alloc \<Rightarrow> 'v lheap \<Rightarrow> 'v adlist \<Rightarrow> 'v \<Rightarrow> ('v lheap \<times> 'v adlist option) option" where
  "listAddNodeHead al h l v =
    (let (h, node) = new_node al h in
     if node = None then Some (h, None)
     else do {
       h \<leftarrow> upd_node h node (\<lambda>n. n\<lparr>n_value := v\<rparr>);
       (h, l) \<leftarrow> listLinkNodeHead h l node;
       Some (h, Some l)
     })"

definition listLinkNodeTail :: "'v lheap \<Rightarrow> 'v adlist \<Rightarrow> ptr \<Rightarrow> ('v lheap \<times> 'v adlist) option" where
  "listLinkNodeTail h l node =
    (if l_len l = 0 then do {
       h \<leftarrow> upd_node h node (\<lambda>n. n\<lparr>n_prev := None, n_next := None\<rparr>);
       Some (h, l\<lparr>l_head := node, l_tail := node, l_len := l_len l + 1\<rparr>)
     } else do {
       h \<leftarrow> set_prev h node (l_tail l);
       h \<leftarrow> set_next h node None;
       h \<leftarrow> set_next h (l_tail l) node;
       Some (h, l\<lparr>l_tail := node, l_len := l_len l + 1\<rparr>)
     })"

definition listAddNodeTail :: "'v node_alloc \<Rightarrow> 'v lheap \<Rightarrow> 'v adlist \<Rightarrow> 'v \<Rightarrow> ('v lheap \<times> 'v adlist option) option" where
  "listAddNodeTail al h l v =
    (let (h, node) = new_node al h in
     if node = None then Some (h, None)
     else do {
       h \<leftarrow> upd_node h node (\<lambda>n. n\<lparr>n_value := v\<rparr>);
       (h, l) \<leftarrow> listLinkNodeTail h l node;
       Some (h, Some l)
     })"

definition listInsertNode ::
  "'v node_alloc \<Rightarrow> 'v lheap \<Rightarrow> 'v adlist \<Rightarrow> ptr \<Rightarrow> 'v \<Rightarrow> bool \<Rightarrow> ('v lheap \<times> 'v adlist option) option" where
  "listInsertNode al h l old_node v after =
    (let (h, node) = new_node al h in
     if node = None then Some (h, None)
     else do {
       h \<leftarrow> upd_node h node (\<lambda>n. n\<lparr>n_value := v\<rparr>);
       (h, l) \<leftarrow>
         (if after then do {
            h \<leftarrow> set_prev h node old_node;
            old \<leftarrow> get_node h old_node;
            h \<leftarrow> set_next h node (n_next old);
            Some (h, if l_tail l = old_node then l\<lparr>l_tail := node\<rparr> else l)
          } else do {
            h \<leftarrow> set_next h node old_node;
            old \<leftarrow> get_node h old_node;
            h \<leftarrow> set_prev h node (n_prev old);
            Some (h, if l_head l = old_node then l\<lparr>l_head := node\<rparr> else l)
          });
       n \<leftarrow> get_node h node;
       h \<leftarrow> (if n_prev n \<noteq> None then set_next h (n_prev n) node else Some h);
       n \<leftarrow> get_node h node;
       h \<leftarrow> (if n_next n \<noteq> None then set_prev h (n_next n) node else Some h);
       Some (h, Some (l\<lparr>l_len := l_len l + 1\<rparr>))
     })"

definition listUnlinkNode :: "'v lheap \<Rightarrow> 'v adlist \<Rightarrow> ptr \<Rightarrow> ('v lheap \<times> 'v adlist) option" where
  "listUnlinkNode h l node = do {
     n \<leftarrow> get_node h node;
     (h, l) \<leftarrow>
       (if n_prev n \<noteq> None then do { h \<leftarrow> set_next h (n_prev n) (n_next n); Some (h, l) }
        else Some (h, l\<lparr>l_head := n_next n\<rparr>));
     n \<leftarrow> get_node h node;
     (h, l) \<leftarrow>
       (if n_next n \<noteq> None then do { h \<leftarrow> set_prev h (n_next n) (n_prev n); Some (h, l) }
        else Some (h, l\<lparr>l_tail := n_prev n\<rparr>));
     h \<leftarrow> set_next h node None;
     h \<leftarrow> set_prev h node None;
     Some (h, l\<lparr>l_len := l_len l - 1\<rparr>)
   }"

definition listDelNode :: "'v lheap \<Rightarrow> 'v adlist \<Rightarrow> ptr \<Rightarrow> ('v lheap \<times> 'v adlist) option" where
  "listDelNode h l node = do {
     (h, l) \<leftarrow> listUnlinkNode h l node;
     n \<leftarrow> get_node h node;
     h \<leftarrow> free_node (free_value (l_free l) (n_value n) h) node;
     Some (h, l)
   }"

definition listGetIterator :: "'v node_alloc \<Rightarrow> 'v lheap \<Rightarrow> 'v adlist \<Rightarrow> int \<Rightarrow> 'v lheap \<times> listIter option" where
  "listGetIterator al h l direction =
    (let (h, ok) = new_iter al h in
     if \<not> ok then (h, None)
     else (h, Some \<lparr>i_next = (if direction = AL_START_HEAD then l_head l else l_tail l), i_direction = direction\<rparr>))"

definition listReleaseIterator :: "'v lheap \<Rightarrow> listIter \<Rightarrow> 'v lheap option" where
  "listReleaseIterator h iter = (if iters h = 0 then None else Some (h\<lparr>iters := iters h - 1\<rparr>))"

definition listRewind :: "'v adlist \<Rightarrow> listIter" where
  "listRewind l = \<lparr>i_next = l_head l, i_direction = AL_START_HEAD\<rparr>"

definition listRewindTail :: "'v adlist \<Rightarrow> listIter" where
  "listRewindTail l = \<lparr>i_next = l_tail l, i_direction = AL_START_TAIL\<rparr>"

definition listNext :: "'v lheap \<Rightarrow> listIter \<Rightarrow> (listIter \<times> ptr) option" where
  "listNext h iter =
    (let current = i_next iter in
     if current \<noteq> None then do {
       n \<leftarrow> get_node h current;
       Some (iter\<lparr>i_next := (if i_direction iter = AL_START_HEAD then n_next n else n_prev n)\<rparr>, current)
     } else Some (iter, current))"

text \<open>The value of a copied node: what the method returns, or the value itself.\<close>

definition call_dup :: "'v adlist \<Rightarrow> 'v \<Rightarrow> 'v lheap \<Rightarrow> 'v lheap \<times> 'v option" where
  "call_dup l v h =
    (case l_dup l of
       Some f \<Rightarrow> (case f v of None \<Rightarrow> (h, None) | Some w \<Rightarrow> (h\<lparr>duped := duped h @ [w]\<rparr>, Some w))
     | None \<Rightarrow> (h, Some v))"

text \<open>The loop of \<^verbatim>\<open>listDup\<close> over the original; the copy may share the heap with it.\<close>

partial_function (option) listDup_loop ::
  "'v node_alloc \<Rightarrow> 'v lheap \<Rightarrow> 'v adlist \<Rightarrow> listIter \<Rightarrow> ('v lheap \<times> 'v adlist option) option" where
  "listDup_loop al h copy iter = do {
     (iter, node) \<leftarrow> listNext h iter;
     if node = None then Some (h, Some copy)
     else do {
       n \<leftarrow> get_node h node;
       let (h, dupl) = call_dup copy (n_value n) h;
       if dupl = None then do {
         h \<leftarrow> listRelease h copy;
         Some (h, None)
       } else do {
         (h, r) \<leftarrow> listAddNodeTail al h copy (the dupl);
         if r = None then do {
           h \<leftarrow> listRelease (free_value (l_free copy) (the dupl) h) copy;
           Some (h, None)
         } else listDup_loop al h (the r) iter
       }
     }
   }"

definition listDup :: "'v node_alloc \<Rightarrow> 'v lheap \<Rightarrow> 'v adlist \<Rightarrow> ('v lheap \<times> 'v adlist option) option" where
  "listDup al h orig =
    (let (h, copy) = listCreate al h in
     case copy of
       None \<Rightarrow> Some (h, None)
     | Some copy \<Rightarrow>
         listDup_loop al h (copy\<lparr>l_dup := l_dup orig, l_free := l_free orig, l_match := l_match orig\<rparr>) (listRewind orig))"

partial_function (option) listSearchKey_loop :: "'v lheap \<Rightarrow> 'v adlist \<Rightarrow> 'v \<Rightarrow> listIter \<Rightarrow> ptr option" where
  "listSearchKey_loop h l key iter = do {
     (iter, node) \<leftarrow> listNext h iter;
     if node = None then Some None
     else do {
       n \<leftarrow> get_node h node;
       if (case l_match l of Some f \<Rightarrow> f (n_value n) key | None \<Rightarrow> key = n_value n) then Some node
       else listSearchKey_loop h l key iter
     }
   }"

definition listSearchKey :: "'v lheap \<Rightarrow> 'v adlist \<Rightarrow> 'v \<Rightarrow> ptr option" where
  "listSearchKey h l key = listSearchKey_loop h l key (listRewind l)"

primrec listIndex_prev :: "nat \<Rightarrow> 'v lheap \<Rightarrow> ptr \<Rightarrow> ptr option" where
  "listIndex_prev 0 h n = Some n"
| "listIndex_prev (Suc i) h n =
    (if n = None then Some n else do { nd \<leftarrow> get_node h n; listIndex_prev i h (n_prev nd) })"

primrec listIndex_next :: "nat \<Rightarrow> 'v lheap \<Rightarrow> ptr \<Rightarrow> ptr option" where
  "listIndex_next 0 h n = Some n"
| "listIndex_next (Suc i) h n =
    (if n = None then Some n else do { nd \<leftarrow> get_node h n; listIndex_next i h (n_next nd) })"

definition listIndex :: "'v lheap \<Rightarrow> 'v adlist \<Rightarrow> int \<Rightarrow> ptr option" where
  "listIndex h l index =
    (if index < 0 then (if \<not> in_i64 (- index) then None else listIndex_prev (nat (- index - 1)) h (l_tail l))
     else listIndex_next (nat index) h (l_head l))"

definition listRotateTailToHead :: "'v lheap \<Rightarrow> 'v adlist \<Rightarrow> ('v lheap \<times> 'v adlist) option" where
  "listRotateTailToHead h l =
    (if l_len l \<le> 1 then Some (h, l)
     else do {
       let tail = l_tail l;
       t \<leftarrow> get_node h tail;
       let l = l\<lparr>l_tail := n_prev t\<rparr>;
       h \<leftarrow> set_next h (l_tail l) None;
       h \<leftarrow> set_prev h (l_head l) tail;
       h \<leftarrow> set_prev h tail None;
       h \<leftarrow> set_next h tail (l_head l);
       Some (h, l\<lparr>l_head := tail\<rparr>)
     })"

definition listRotateHeadToTail :: "'v lheap \<Rightarrow> 'v adlist \<Rightarrow> ('v lheap \<times> 'v adlist) option" where
  "listRotateHeadToTail h l =
    (if l_len l \<le> 1 then Some (h, l)
     else do {
       let head = l_head l;
       t \<leftarrow> get_node h head;
       let l = l\<lparr>l_head := n_next t\<rparr>;
       h \<leftarrow> set_prev h (l_head l) None;
       h \<leftarrow> set_next h (l_tail l) head;
       h \<leftarrow> set_next h head None;
       h \<leftarrow> set_prev h head (l_tail l);
       Some (h, l\<lparr>l_tail := head\<rparr>)
     })"

definition listJoin :: "'v lheap \<Rightarrow> 'v adlist \<Rightarrow> 'v adlist \<Rightarrow> ('v lheap \<times> 'v adlist \<times> 'v adlist) option" where
  "listJoin h l other =
    (if l_len other = 0 then Some (h, l, other)
     else do {
       h \<leftarrow> set_prev h (l_head other) (l_tail l);
       (h, l) \<leftarrow>
         (if l_tail l \<noteq> None then do { h \<leftarrow> set_next h (l_tail l) (l_head other); Some (h, l) }
          else Some (h, l\<lparr>l_head := l_head other\<rparr>));
       Some (h, l\<lparr>l_tail := l_tail other, l_len := l_len l + l_len other\<rparr>,
         other\<lparr>l_head := None, l_tail := None, l_len := 0\<rparr>)
     })"

definition listInitNode :: "'v lheap \<Rightarrow> ptr \<Rightarrow> 'v \<Rightarrow> 'v lheap option" where
  "listInitNode h node v = upd_node h node (\<lambda>n. n\<lparr>n_prev := None, n_next := None, n_value := v\<rparr>)"

subsection \<open>Sequences of cells\<close>

text \<open>
  The address of the first cell of a sequence, or of what follows it; the address of the last cell, or of what
  precedes the sequence.
\<close>

definition first_ptr :: "(nat \<times> 'v) list \<Rightarrow> ptr \<Rightarrow> ptr" where
  "first_ptr xs nx = (case xs of [] \<Rightarrow> nx | (a, v) # ys \<Rightarrow> Some a)"

definition last_ptr :: "ptr \<Rightarrow> (nat \<times> 'v) list \<Rightarrow> ptr" where
  "last_ptr pr xs = (if xs = [] then pr else Some (fst (last xs)))"

lemma first_ptr_simps [simp]:
  "first_ptr [] nx = nx" "first_ptr ((a, v) # xs) nx = Some a" "first_ptr (xs @ ys) nx = first_ptr xs (first_ptr ys nx)"
  by (auto simp: first_ptr_def split: list.split)

lemma last_ptr_simps [simp]:
  "last_ptr pr [] = pr" "last_ptr pr ((a, v) # xs) = last_ptr (Some a) xs" "last_ptr pr (xs @ ys) = last_ptr (last_ptr pr xs) ys"
  by (auto simp: last_ptr_def)

lemma first_ptr_cases: "first_ptr xs nx = (if xs = [] then nx else Some (fst (hd xs)))"
  by (cases xs) auto

lemma last_ptr_cases: "last_ptr pr xs = (if xs = [] then pr else Some (fst (last xs)))"
  by (simp add: last_ptr_def)

fun dseg :: "(nat \<rightharpoonup> 'v listNode) \<Rightarrow> ptr \<Rightarrow> (nat \<times> 'v) list \<Rightarrow> ptr \<Rightarrow> bool" where
  "dseg N pr [] nx \<longleftrightarrow> True"
| "dseg N pr ((a, v) # xs) nx \<longleftrightarrow>
    N a = Some \<lparr>n_prev = pr, n_next = first_ptr xs nx, n_value = v\<rparr> \<and> dseg N (Some a) xs nx"

abbreviation addrs :: "(nat \<times> 'v) list \<Rightarrow> nat set" where
  "addrs xs \<equiv> fst ` set xs"

lemma dseg_append [simp]:
  "dseg N pr (xs @ ys) nx \<longleftrightarrow> dseg N pr xs (first_ptr ys nx) \<and> dseg N (last_ptr pr xs) ys nx"
  by (induction N pr xs nx rule: dseg.induct) auto

lemma dseg_upd [simp]: "a \<notin> addrs xs \<Longrightarrow> dseg (N(a := n)) pr xs nx = dseg N pr xs nx"
  by (induction xs arbitrary: pr) auto

lemma dseg_cong: "(\<And>a. a \<in> addrs xs \<Longrightarrow> N a = M a) \<Longrightarrow> dseg N pr xs nx = dseg M pr xs nx"
  by (induction xs arbitrary: pr) auto

lemma dseg_live: "dseg N pr xs nx \<Longrightarrow> a \<in> addrs xs \<Longrightarrow> N a \<noteq> None"
proof (induction xs arbitrary: pr)
  case (Cons x xs)
  then show ?case by (cases x) (force simp del: not_None_eq)
qed simp

text \<open>The list owns the cells of \<open>xs\<close>; the rest of the heap is \<open>F\<close>.\<close>

definition owns :: "(nat \<rightharpoonup> 'v listNode) \<Rightarrow> (nat \<rightharpoonup> 'v listNode) \<Rightarrow> (nat \<times> 'v) list \<Rightarrow> bool" where
  "owns F N xs \<longleftrightarrow> dseg N None xs None \<and> distinct (map fst xs) \<and>
    (\<forall>b. b \<notin> addrs xs \<longrightarrow> N b = F b) \<and> (\<forall>b \<in> addrs xs. F b = None)"

definition header :: "'v adlist \<Rightarrow> (nat \<times> 'v) list \<Rightarrow> 'v adlist" where
  "header l xs = l\<lparr>l_head := first_ptr xs None, l_tail := last_ptr None xs, l_len := of_nat (length xs)\<rparr>"

definition list_inv :: "(nat \<rightharpoonup> 'v listNode) \<Rightarrow> 'v lheap \<Rightarrow> 'v adlist \<Rightarrow> (nat \<times> 'v) list \<Rightarrow> bool" where
  "list_inv F h l xs \<longleftrightarrow> owns F (nodes h) xs \<and> l = header l xs \<and> length xs < 2 ^ 64"

lemma owns_fresh: "owns F N xs \<Longrightarrow> N a = None \<Longrightarrow> a \<notin> addrs xs" "owns F N xs \<Longrightarrow> N a = None \<Longrightarrow> F a = None"
  unfolding owns_def by (metis dseg_live)+

lemma header_simps [simp]:
  "l_head (header l xs) = first_ptr xs None" "l_tail (header l xs) = last_ptr None xs"
  "l_len (header l xs) = of_nat (length xs)" "l_dup (header l xs) = l_dup l" "l_free (header l xs) = l_free l"
  "l_match (header l xs) = l_match l" "header (header l xs) ys = header l ys"
  by (simp_all add: header_def)

lemma list_invD:
  assumes "list_inv F h l xs"
  shows "l_head l = first_ptr xs None" "l_tail l = last_ptr None xs" "l_len l = of_nat (length xs)"
    "owns F (nodes h) xs" "length xs < 2 ^ 64" "header l xs = l"
  using assms unfolding list_inv_def by (metis header_simps)+

lemma list_invI [intro]:
  "owns F (nodes h) xs \<Longrightarrow> length xs < 2 ^ 64 \<Longrightarrow> list_inv F h (header l xs) xs"
  by (simp add: list_inv_def)

lemma len_zero: "length xs < 2 ^ 64 \<Longrightarrow> (of_nat (length xs) :: 64 word) = 0 \<longleftrightarrow> xs = []"
  by (simp add: word_of_nat_eq_0_iff nat_dvd_not_less) (use nat_dvd_not_less in fastforce)

lemma len_unat: "length xs < 2 ^ 64 \<Longrightarrow> unat (of_nat (length xs) :: 64 word) = length xs"
  by (simp add: unat_of_nat)

lemmas node_ops = get_node_def upd_node_def free_node_def free_value_def

subsection \<open>The operations on sequences\<close>

definition fresh_node :: "'v node_alloc \<Rightarrow> bool" where
  "fresh_node al \<longleftrightarrow> (\<forall>h a n. na_node al h = Some (a, n) \<longrightarrow> nodes h a = None)"

lemma listLinkNodeHead_spec:
  assumes inv: "list_inv F h l xs" and a: "nodes h a = None"
  shows "\<exists>N. listLinkNodeHead (h\<lparr>nodes := (nodes h)(a \<mapsto> n)\<rparr>) l (Some a) = Some (h\<lparr>nodes := N\<rparr>, header l ((a, n_value n) # xs)) \<and>
    owns F N ((a, n_value n) # xs)"
proof -
  note D = list_invD [OF inv]
  note new = owns_fresh [OF D(4) a]
  show ?thesis
  proof (cases xs)
    case Nil
    then show ?thesis using D new(2)
      by (auto simp: listLinkNodeHead_def node_ops owns_def len_zero header_def)
  next
    case (Cons x ys)
    obtain b w where x: "x = (b, w)" by (cases x)
    have ab: "a \<noteq> b" "a \<notin> addrs ys" using new(1) Cons x by auto
    have ne: "l_len l \<noteq> 0" using D(3,5) len_zero [of xs] Cons by simp
    show ?thesis
      using D new(2) ab ne unfolding Cons x
      by (auto simp: listLinkNodeHead_def node_ops owns_def header_def image_iff)
  qed
qed

lemma listLinkNodeTail_spec:
  assumes inv: "list_inv F h l xs" and a: "nodes h a = None"
  shows "\<exists>N. listLinkNodeTail (h\<lparr>nodes := (nodes h)(a \<mapsto> n)\<rparr>) l (Some a) = Some (h\<lparr>nodes := N\<rparr>, header l (xs @ [(a, n_value n)])) \<and>
    owns F N (xs @ [(a, n_value n)])"
proof -
  note D = list_invD [OF inv]
  note new = owns_fresh [OF D(4) a]
  show ?thesis
  proof (cases xs rule: rev_cases)
    case Nil
    then show ?thesis using D new(2)
      by (auto simp: listLinkNodeTail_def node_ops owns_def len_zero header_def)
  next
    case (snoc ys x)
    obtain b w where x: "x = (b, w)" by (cases x)
    have ab: "a \<noteq> b" "a \<notin> addrs ys" using new(1) snoc x by auto
    have ne: "l_len l \<noteq> 0" using D(3,5) len_zero [of xs] snoc by simp
    show ?thesis
      using D new(2) ab ne unfolding snoc x
      by (auto simp: listLinkNodeTail_def node_ops owns_def header_def image_iff)
  qed
qed

text \<open>The cells around a cell of the sequence.\<close>

lemma owns_cell:
  assumes "owns F N (xs @ (a, v) # ys)"
  shows "N a = Some \<lparr>n_prev = last_ptr None xs, n_next = first_ptr ys None, n_value = v\<rparr>"
    and "a \<notin> addrs xs" "a \<notin> addrs ys"
  using assms by (auto simp: owns_def)

lemma owns_changeI:
  assumes own: "owns F N xs" and "dseg M None ys None" "distinct (map fst ys)"
    and new: "\<And>b. b \<in> addrs ys \<Longrightarrow> b \<in> addrs xs \<or> N b = None"
    and gone: "\<And>b. b \<in> addrs xs \<Longrightarrow> b \<notin> addrs ys \<Longrightarrow> M b = None"
    and frame: "\<And>b. b \<notin> addrs xs \<Longrightarrow> b \<notin> addrs ys \<Longrightarrow> M b = N b"
  shows "owns F M ys"
proof -
  have F: "b \<in> addrs xs \<Longrightarrow> F b = None" "b \<notin> addrs xs \<Longrightarrow> N b = F b" for b
    using own by (auto simp: owns_def)
  have "M b = F b" if b: "b \<notin> addrs ys" for b
  proof (cases "b \<in> addrs xs")
    case True
    show ?thesis unfolding gone [OF True b] F(1) [OF True] ..
  next
    case False
    show ?thesis unfolding frame [OF False b] F(2) [OF False] ..
  qed
  moreover have "F b = None" if b: "b \<in> addrs ys" for b
  proof (cases "b \<in> addrs xs")
    case False
    then have "N b = None" using new [OF b] by blast
    then show ?thesis using F(2) [OF False] by simp
  qed (rule F(1))
  ultimately show ?thesis unfolding owns_def by (intro conjI allI impI ballI assms(2,3)) simp_all
qed

lemma node_fill [simp]:
  "n\<lparr>n_value := v, n_prev := p, n_next := q\<rparr> = \<lparr>n_prev = p, n_next = q, n_value = v\<rparr>"
  "n\<lparr>n_value := v, n_next := q, n_prev := p\<rparr> = \<lparr>n_prev = p, n_next = q, n_value = v\<rparr>" for n :: "'v listNode"
  by (cases n; simp)+

lemma upd_same [simp]: "nodes h a = Some n \<Longrightarrow> h\<lparr>nodes := (nodes h)(a \<mapsto> n)\<rparr> = h"
  by (simp add: fun_upd_idem)

lemma listUnlinkNode_spec:
  assumes inv: "list_inv F h l (xs @ (a, v) # ys)"
  shows "\<exists>M. listUnlinkNode h l (Some a) = Some (h\<lparr>nodes := M\<rparr>, header l (xs @ ys)) \<and>
    M a = Some \<lparr>n_prev = None, n_next = None, n_value = v\<rparr> \<and> owns F (M(a := None)) (xs @ ys)"
proof -
  note D = list_invD(1-3) [OF inv]
  note own = list_invD(4) [OF inv]
  note cell = owns_cell [OF own]
  have seg: "dseg (nodes h) None (xs @ (a, v) # ys) None" "distinct (map fst (xs @ (a, v) # ys))"
    using own by (simp_all only: owns_def)
  let ?z = "\<lparr>n_prev = None, n_next = None, n_value = v\<rparr>"
  show ?thesis
  proof (cases xs rule: rev_cases)
    case Nil
    show ?thesis
    proof (cases ys)
      case Nil
      show ?thesis
        by (rule exI [of _ "(nodes h)(a \<mapsto> ?z)"], intro conjI owns_changeI [OF own])
          (use D cell \<open>xs = []\<close> Nil in \<open>simp_all add: listUnlinkNode_def node_ops header_def\<close>)
    next
      case (Cons y zs)
      obtain b w where y: "y = (b, w)" by (cases y)
      show ?thesis
        by (rule exI [of _ "(nodes h)(b \<mapsto> \<lparr>n_prev = None, n_next = first_ptr zs None, n_value = w\<rparr>, a \<mapsto> ?z)"],
            intro conjI owns_changeI [OF own])
          (use D cell seg \<open>xs = []\<close> Cons y in \<open>auto simp: listUnlinkNode_def node_ops header_def\<close>)
    qed
  next
    case (snoc ws x)
    obtain p u where x: "x = (p, u)" by (cases x)
    show ?thesis
    proof (cases ys)
      case Nil
      show ?thesis
        by (rule exI [of _ "(nodes h)(p \<mapsto> \<lparr>n_prev = last_ptr None ws, n_next = None, n_value = u\<rparr>, a \<mapsto> ?z)"],
            intro conjI owns_changeI [OF own])
          (use D cell seg snoc x Nil in \<open>auto simp: listUnlinkNode_def node_ops header_def\<close>)
    next
      case (Cons y zs)
      obtain b w where y: "y = (b, w)" by (cases y)
      show ?thesis
        by (rule exI [of _ "(nodes h)(p \<mapsto> \<lparr>n_prev = last_ptr None ws, n_next = Some b, n_value = u\<rparr>,
              b \<mapsto> \<lparr>n_prev = Some p, n_next = first_ptr zs None, n_value = w\<rparr>, a \<mapsto> ?z)"], intro conjI owns_changeI [OF own])
          (use D cell seg snoc x Cons y in \<open>auto simp: listUnlinkNode_def node_ops header_def\<close>)
    qed
  qed
qed
lemma listDelNode_spec:
  assumes inv: "list_inv F h l (xs @ (a, v) # ys)"
  shows "\<exists>M. listDelNode h l (Some a) =
      Some (h\<lparr>freed := freed h @ (if l_free l then [v] else []), nodes := M\<rparr>, header l (xs @ ys)) \<and> owns F M (xs @ ys)"
proof -
  obtain M where "listUnlinkNode h l (Some a) = Some (h\<lparr>nodes := M\<rparr>, header l (xs @ ys))"
    "M a = Some \<lparr>n_prev = None, n_next = None, n_value = v\<rparr>" "owns F (M(a := None)) (xs @ ys)"
    using listUnlinkNode_spec [OF inv] by blast
  then show ?thesis by (auto simp: listDelNode_def node_ops)
qed

lemma listAddNodeHead_spec:
  assumes inv: "list_inv F h l xs" and fresh: "fresh_node al"
  shows "listAddNodeHead al h l v = Some (h\<lparr>asked := asked h + 1\<rparr>, None) \<and> na_node al h = None \<or>
    (\<exists>a n N. na_node al h = Some (a, n) \<and> owns F N ((a, v) # xs) \<and>
      listAddNodeHead al h l v = Some (h\<lparr>asked := asked h + 1, nodes := N\<rparr>, Some (header l ((a, v) # xs))))"
proof (cases "na_node al h")
  case None
  then show ?thesis by (simp add: listAddNodeHead_def new_node_def)
next
  case (Some r)
  obtain a n where r: "r = (a, n)" by (cases r)
  have a: "nodes h a = None" using fresh Some r by (auto simp: fresh_node_def)
  from inv have inv': "list_inv F (h\<lparr>asked := asked h + 1\<rparr>) l xs" by (simp add: list_inv_def)
  from listLinkNodeHead_spec [OF inv', of a "n\<lparr>n_value := v\<rparr>"] a show ?thesis
    using Some r by (auto simp: listAddNodeHead_def new_node_def node_ops)
qed

lemma listAddNodeTail_spec:
  assumes inv: "list_inv F h l xs" and fresh: "fresh_node al"
  shows "listAddNodeTail al h l v = Some (h\<lparr>asked := asked h + 1\<rparr>, None) \<and> na_node al h = None \<or>
    (\<exists>a n N. na_node al h = Some (a, n) \<and> owns F N (xs @ [(a, v)]) \<and>
      listAddNodeTail al h l v = Some (h\<lparr>asked := asked h + 1, nodes := N\<rparr>, Some (header l (xs @ [(a, v)]))))"
proof (cases "na_node al h")
  case None
  then show ?thesis by (simp add: listAddNodeTail_def new_node_def)
next
  case (Some r)
  obtain a n where r: "r = (a, n)" by (cases r)
  have a: "nodes h a = None" using fresh Some r by (auto simp: fresh_node_def)
  from inv have inv': "list_inv F (h\<lparr>asked := asked h + 1\<rparr>) l xs" by (simp add: list_inv_def)
  from listLinkNodeTail_spec [OF inv', of a "n\<lparr>n_value := v\<rparr>"] a show ?thesis
    using Some r by (auto simp: listAddNodeTail_def new_node_def node_ops)
qed

text \<open>Insertion before or after the cell \<open>(a, w)\<close>.\<close>

definition insert_cell :: "bool \<Rightarrow> (nat \<times> 'v) list \<Rightarrow> nat \<times> 'v \<Rightarrow> (nat \<times> 'v) list \<Rightarrow> nat \<times> 'v \<Rightarrow> (nat \<times> 'v) list" where
  "insert_cell after xs old ys new = (if after then xs @ [old, new] @ ys else xs @ [new, old] @ ys)"

lemma listInsertNode_link:
  assumes inv: "list_inv F h l (xs @ (a, w) # ys)" and fresh: "nodes h b = None" and al: "na_node al h = Some (b, n)"
  shows "\<exists>N. listInsertNode al h l (Some a) v after =
      Some (h\<lparr>asked := asked h + 1, nodes := N\<rparr>, Some (header l (insert_cell after xs (a, w) ys (b, v)))) \<and>
    owns F N (insert_cell after xs (a, w) ys (b, v))"
proof -
  note D = list_invD(1-3) [OF inv]
  note own = list_invD(4) [OF inv]
  note cell = owns_cell [OF own]
  have new: "b \<notin> addrs xs" "b \<noteq> a" "b \<notin> addrs ys" using owns_fresh(1) [OF own fresh] by (auto simp: image_Un)
  have seg: "dseg (nodes h) None (xs @ (a, w) # ys) None" "distinct (map fst (xs @ (a, w) # ys))"
    using own by (simp_all only: owns_def)
  have ne: "last_ptr (Some a) ys = Some a \<longleftrightarrow> ys = []" "first_ptr xs (Some a) = Some a \<longleftrightarrow> xs = []"
    using cell(2,3) by (auto simp: last_ptr_cases first_ptr_cases image_iff dest: bspec [where x = "last ys"] bspec [where x = "hd xs"])
  let ?pr = "last_ptr None xs" and ?nx = "first_ptr ys None"
  show ?thesis
  proof (cases after)
    case True
    show ?thesis
    proof (cases ys)
      case Nil
      show ?thesis
        by (rule exI [of _ "(nodes h)(b \<mapsto> \<lparr>n_prev = Some a, n_next = None, n_value = v\<rparr>,
              a \<mapsto> \<lparr>n_prev = ?pr, n_next = Some b, n_value = w\<rparr>)"], intro conjI owns_changeI [OF own])
          (use D cell seg new al ne fresh True Nil in \<open>auto simp: listInsertNode_def new_node_def node_ops insert_cell_def header_def\<close>)
    next
      case (Cons y zs)
      obtain c u where y: "y = (c, u)" by (cases y)
      show ?thesis
        by (rule exI [of _ "(nodes h)(b \<mapsto> \<lparr>n_prev = Some a, n_next = Some c, n_value = v\<rparr>,
              a \<mapsto> \<lparr>n_prev = ?pr, n_next = Some b, n_value = w\<rparr>,
              c \<mapsto> \<lparr>n_prev = Some b, n_next = first_ptr zs None, n_value = u\<rparr>)"], intro conjI owns_changeI [OF own])
          (use D cell seg new al ne fresh True Cons y in \<open>auto simp: listInsertNode_def new_node_def node_ops insert_cell_def header_def\<close>)
    qed
  next
    case False
    show ?thesis
    proof (cases xs rule: rev_cases)
      case Nil
      show ?thesis
        by (rule exI [of _ "(nodes h)(b \<mapsto> \<lparr>n_prev = None, n_next = Some a, n_value = v\<rparr>,
              a \<mapsto> \<lparr>n_prev = Some b, n_next = ?nx, n_value = w\<rparr>)"], intro conjI owns_changeI [OF own])
          (use D cell seg new al ne fresh False Nil in \<open>auto simp: listInsertNode_def new_node_def node_ops insert_cell_def header_def\<close>)
    next
      case (snoc zs y)
      obtain c u where y: "y = (c, u)" by (cases y)
      show ?thesis
        by (rule exI [of _ "(nodes h)(b \<mapsto> \<lparr>n_prev = Some c, n_next = Some a, n_value = v\<rparr>,
              c \<mapsto> \<lparr>n_prev = last_ptr None zs, n_next = Some b, n_value = u\<rparr>,
              a \<mapsto> \<lparr>n_prev = Some b, n_next = ?nx, n_value = w\<rparr>)"], intro conjI owns_changeI [OF own])
          (use D cell seg new al ne fresh False snoc y in \<open>auto simp: listInsertNode_def new_node_def node_ops insert_cell_def header_def\<close>)
    qed
  qed
qed

lemma header_iff:
  "m = header l xs \<longleftrightarrow> l_head m = first_ptr xs None \<and> l_tail m = last_ptr None xs \<and> l_len m = of_nat (length xs) \<and>
    l_dup m = l_dup l \<and> l_free m = l_free l \<and> l_match m = l_match l"
  by (cases m; cases l) (auto simp: header_def)

lemma listInsertNode_spec:
  assumes inv: "list_inv F h l (xs @ (a, w) # ys)" and fresh: "fresh_node al"
  shows "listInsertNode al h l (Some a) v after = Some (h\<lparr>asked := asked h + 1\<rparr>, None) \<and> na_node al h = None \<or>
    (\<exists>b n N. na_node al h = Some (b, n) \<and> owns F N (insert_cell after xs (a, w) ys (b, v)) \<and>
      listInsertNode al h l (Some a) v after =
        Some (h\<lparr>asked := asked h + 1, nodes := N\<rparr>, Some (header l (insert_cell after xs (a, w) ys (b, v)))))"
proof (cases "na_node al h")
  case None
  then show ?thesis by (simp add: listInsertNode_def new_node_def)
next
  case (Some r)
  obtain b n where r: "r = (b, n)" by (cases r)
  have "nodes h b = None" using fresh Some r by (auto simp: fresh_node_def)
  from listInsertNode_link [OF inv this, of al n v after] show ?thesis using Some r by auto
qed

lemma len_le_one: "length xs < 2 ^ 64 \<Longrightarrow> (of_nat (length xs) :: 64 word) \<le> 1 \<longleftrightarrow> length xs \<le> 1"
  by (simp add: word_le_nat_alt len_unat)

lemma listRotateTailToHead_spec:
  assumes inv: "list_inv F h l (ys @ [(a, v)])"
  shows "\<exists>N. listRotateTailToHead h l = Some (h\<lparr>nodes := N\<rparr>, header l ((a, v) # ys)) \<and> owns F N ((a, v) # ys)"
proof -
  note D = list_invD(1-3) [OF inv]
  note own = list_invD(4) [OF inv]
  note cell = owns_cell [OF own]
  have seg: "dseg (nodes h) None (ys @ [(a, v)]) None" "distinct (map fst (ys @ [(a, v)]))"
    using own by (simp_all only: owns_def)
  have len: "l_len l \<le> 1 \<longleftrightarrow> ys = []"
    using D(3) len_le_one [OF list_invD(5) [OF inv]] by simp
  show ?thesis
  proof (cases ys)
    case Nil
    with own len list_invD(6) [OF inv] show ?thesis by (auto simp: listRotateTailToHead_def intro: exI [of _ "nodes h"])
  next
    case (Cons y zs)
    obtain b w where y: "y = (b, w)" by (cases y)
    show ?thesis
    proof (cases zs rule: rev_cases)
      case Nil
      show ?thesis
        by (rule exI [of _ "(nodes h)(b \<mapsto> \<lparr>n_prev = Some a, n_next = None, n_value = w\<rparr>,
              a \<mapsto> \<lparr>n_prev = None, n_next = Some b, n_value = v\<rparr>)"], intro conjI owns_changeI [OF own])
          (use D cell seg len Cons y Nil in \<open>auto simp: listRotateTailToHead_def node_ops header_iff Let_def\<close>)
    next
      case (snoc ms z)
      obtain c u where z: "z = (c, u)" by (cases z)
      show ?thesis
        by (rule exI [of _ "(nodes h)(c \<mapsto> \<lparr>n_prev = last_ptr (Some b) ms, n_next = None, n_value = u\<rparr>,
              b \<mapsto> \<lparr>n_prev = Some a, n_next = first_ptr ms (Some c), n_value = w\<rparr>,
              a \<mapsto> \<lparr>n_prev = None, n_next = Some b, n_value = v\<rparr>)"], intro conjI owns_changeI [OF own])
          (use D cell seg len Cons y snoc z in \<open>auto simp: listRotateTailToHead_def node_ops header_iff Let_def\<close>)
    qed
  qed
qed

lemma listRotateHeadToTail_spec:
  assumes inv: "list_inv F h l ((a, v) # ys)"
  shows "\<exists>N. listRotateHeadToTail h l = Some (h\<lparr>nodes := N\<rparr>, header l (ys @ [(a, v)])) \<and> owns F N (ys @ [(a, v)])"
proof -
  note D = list_invD(1-3) [OF inv]
  note own = list_invD(4) [OF inv]
  have own': "owns F (nodes h) ([] @ (a, v) # ys)" using own by simp
  note cell = owns_cell [OF own']
  have seg: "dseg (nodes h) None ((a, v) # ys) None" "distinct (map fst ((a, v) # ys))"
    using own by (simp_all only: owns_def)
  have len: "l_len l \<le> 1 \<longleftrightarrow> ys = []"
    using D(3) len_le_one [OF list_invD(5) [OF inv]] by simp
  show ?thesis
  proof (cases ys)
    case Nil
    with own len list_invD(6) [OF inv] show ?thesis by (auto simp: listRotateHeadToTail_def intro: exI [of _ "nodes h"])
  next
    case (Cons y zs)
    obtain b w where y: "y = (b, w)" by (cases y)
    show ?thesis
    proof (cases zs rule: rev_cases)
      case Nil
      show ?thesis
        by (rule exI [of _ "(nodes h)(b \<mapsto> \<lparr>n_prev = None, n_next = Some a, n_value = w\<rparr>,
              a \<mapsto> \<lparr>n_prev = Some b, n_next = None, n_value = v\<rparr>)"], intro conjI owns_changeI [OF own])
          (use D cell seg len Cons y Nil in \<open>auto simp: listRotateHeadToTail_def node_ops header_iff Let_def\<close>)
    next
      case (snoc ms z)
      obtain c u where z: "z = (c, u)" by (cases z)
      show ?thesis
        by (rule exI [of _ "(nodes h)(b \<mapsto> \<lparr>n_prev = None, n_next = first_ptr ms (Some c), n_value = w\<rparr>,
              c \<mapsto> \<lparr>n_prev = last_ptr (Some b) ms, n_next = Some a, n_value = u\<rparr>,
              a \<mapsto> \<lparr>n_prev = Some c, n_next = None, n_value = v\<rparr>)"], intro conjI owns_changeI [OF own])
          (use D cell seg len Cons y snoc z in \<open>auto simp: listRotateHeadToTail_def node_ops header_iff Let_def\<close>)
    qed
  qed
qed

lemma listRotate_empty:
  assumes "list_inv F h l []"
  shows "listRotateTailToHead h l = Some (h, l)" "listRotateHeadToTail h l = Some (h, l)"
  using list_invD(3) [OF assms] by (simp_all add: listRotateTailToHead_def listRotateHeadToTail_def)

subsection \<open>Emptying and releasing\<close>

lemma listEmpty_loop_run:
  "dseg N pr xs nx \<Longrightarrow> distinct (map fst xs) \<Longrightarrow>
    listEmpty_loop (length xs) fr (h\<lparr>nodes := N\<rparr>) (first_ptr xs nx) =
      Some (h\<lparr>freed := freed h @ (if fr then map snd xs else []), nodes := (\<lambda>b. if b \<in> addrs xs then None else N b)\<rparr>)"
proof (induction xs arbitrary: N pr h)
  case (Cons x xs)
  obtain a v where x: "x = (a, v)" by (cases x)
  let ?h = "if fr then h\<lparr>freed := freed h @ [v]\<rparr> else h"
  have upd: "(\<lambda>b. if b \<in> addrs xs then None else (N(a := None)) b) = (\<lambda>b. if b \<in> addrs (x # xs) then None else N b)"
    by (auto simp: x)
  have "dseg (N(a := None)) (Some a) xs nx" using Cons.prems x by auto
  moreover have "distinct (map fst xs)" using Cons.prems by simp
  ultimately have "listEmpty_loop (length xs) fr (?h\<lparr>nodes := N(a := None)\<rparr>) (first_ptr xs nx) =
      Some (?h\<lparr>freed := freed ?h @ (if fr then map snd xs else []), nodes := (\<lambda>b. if b \<in> addrs (x # xs) then None else N b)\<rparr>)"
    unfolding upd [symmetric] by (rule Cons.IH)
  then show ?case
    using Cons.prems by (cases fr) (simp_all add: x node_ops)
qed simp

lemma listEmpty_spec:
  assumes "list_inv F h l xs"
  shows "listEmpty h l = Some (h\<lparr>freed := freed h @ (if l_free l then map snd xs else []), nodes := F\<rparr>, header l [])"
proof -
  note D = list_invD [OF assms]
  have F: "(\<lambda>b. if b \<in> addrs xs then None else nodes h b) = F"
    using D(4) by (auto simp: owns_def fun_eq_iff)
  have "dseg (nodes h) None xs None" "distinct (map fst xs)" using D(4) by (simp_all add: owns_def)
  from listEmpty_loop_run [OF this, of "l_free l" h] show ?thesis
    using D(1,3) by (simp add: listEmpty_def len_unat [OF D(5)] F header_def)
qed

lemma listRelease_spec:
  assumes "list_inv F h l xs" and "0 < lists h"
  shows "listRelease h l = Some (h\<lparr>freed := freed h @ (if l_free l then map snd xs else []), nodes := F, lists := lists h - 1\<rparr>)"
  using assms(2) by (simp add: listRelease_def listEmpty_spec [OF assms(1)] free_list_def)

subsection \<open>Joining, indexing, searching\<close>

lemma listJoin_spec:
  assumes l: "list_inv G h l xs" and m: "list_inv H h m ys" and disj: "addrs xs \<inter> addrs ys = {}"
  shows "\<exists>N. listJoin h l m = Some (h\<lparr>nodes := N\<rparr>, header l (xs @ ys), header m []) \<and>
    owns (\<lambda>b. if b \<in> addrs ys then None else G b) N (xs @ ys)"
proof -
  note D = list_invD(1-3) [OF l] and E = list_invD(1-3) [OF m]
  have seg: "dseg (nodes h) None xs None" "dseg (nodes h) None ys None" "distinct (map fst xs)" "distinct (map fst ys)"
    using list_invD(4) [OF l] list_invD(4) [OF m] by (simp_all only: owns_def)
  have len: "l_len m = 0 \<longleftrightarrow> ys = []" using E(3) len_zero [OF list_invD(5) [OF m]] by simp
  have frame: "b \<notin> addrs xs \<Longrightarrow> nodes h b = G b" for b
    using list_invD(4) [OF l] by (auto simp: owns_def)
  have empty: "(a, v) \<in> set xs \<Longrightarrow> G a = None" for a v
    using list_invD(4) [OF l] by (force simp: owns_def)
  have ownI: "owns (\<lambda>b. if b \<in> addrs ys then None else G b) N (xs @ ys)"
    if "dseg N None (xs @ ys) None" and "\<And>b. b \<notin> addrs xs \<Longrightarrow> b \<notin> addrs ys \<Longrightarrow> N b = nodes h b" for N
    unfolding owns_def using seg(3,4) disj that frame empty by (intro conjI allI impI ballI) (auto simp: image_Un)
  show ?thesis
  proof (cases ys)
    case Nil
    then show ?thesis
      using ownI [of "nodes h"] seg len list_invD(6) [OF l] list_invD(6) [OF m]
      by (intro exI [of _ "nodes h"]) (simp add: listJoin_def)
  next
    case (Cons y zs)
    obtain b w where y: "y = (b, w)" by (cases y)
    show ?thesis
    proof (cases xs rule: rev_cases)
      case Nil
      show ?thesis
        by (rule exI [of _ "nodes h"], intro conjI ownI)
          (use D E seg len Cons y Nil in \<open>auto simp: listJoin_def node_ops header_iff\<close>)
    next
      case (snoc ws x)
      obtain a v where x: "x = (a, v)" by (cases x)
      show ?thesis
        by (rule exI [of _ "(nodes h)(b \<mapsto> \<lparr>n_prev = Some a, n_next = first_ptr zs None, n_value = w\<rparr>,
              a \<mapsto> \<lparr>n_prev = last_ptr None ws, n_next = Some b, n_value = v\<rparr>)"], intro conjI ownI)
          (use D E seg disj len Cons y snoc x in \<open>auto simp: listJoin_def node_ops header_iff\<close>)
    qed
  qed
qed

lemma listIndex_next_run:
  "dseg (nodes h) pr xs None \<Longrightarrow>
    listIndex_next i h (first_ptr xs None) = Some (if i < length xs then Some (fst (xs ! i)) else None)"
proof (induction xs arbitrary: i pr)
  case Nil
  then show ?case by (cases i) simp_all
next
  case (Cons x xs)
  then show ?case by (cases i; cases x) (auto simp: node_ops)
qed

lemma listIndex_prev_run:
  "dseg (nodes h) None xs nx \<Longrightarrow>
    listIndex_prev i h (last_ptr None xs) = Some (if i < length xs then Some (fst (rev xs ! i)) else None)"
proof (induction xs arbitrary: i nx rule: rev_induct)
  case Nil
  then show ?case by (cases i) simp_all
next
  case (snoc x xs)
  then show ?case by (cases i; cases x) (auto simp: node_ops)
qed

definition at_index :: "int \<Rightarrow> 'a list \<Rightarrow> nat option" where
  "at_index i xs =
    (if 0 \<le> i \<and> i < int (length xs) then Some (nat i)
     else if i < 0 \<and> - i \<le> int (length xs) then Some (nat (int (length xs) + i)) else None)"

lemma listIndex_spec:
  assumes "list_inv F h l xs" and "- (2 ^ 63) < i"
  shows "listIndex h l i = Some (map_option (\<lambda>k. fst (xs ! k)) (at_index i xs))"
proof -
  note D = list_invD [OF assms(1)]
  have seg: "dseg (nodes h) None xs None" using D(4) by (simp add: owns_def)
  show ?thesis
  proof (cases "i < 0")
    case True
    have "rev xs ! nat (- i - 1) = xs ! nat (int (length xs) + i)" if "- i \<le> int (length xs)"
    proof -
      have "length xs - Suc (nat (- i - 1)) = nat (int (length xs) + i)" using True that by linarith
      then show ?thesis using rev_nth [of "nat (- i - 1)" xs] True that by (simp add: nat_less_iff)
    qed
    moreover have "nat (- i - 1) < length xs \<longleftrightarrow> - i \<le> int (length xs)" using True by linarith
    ultimately show ?thesis
      using True assms(2) D(2) listIndex_prev_run [OF seg, of "nat (- i - 1)"]
      by (simp add: listIndex_def at_index_def in_signed_def)
  next
    case False
    then show ?thesis
      using D(1) listIndex_next_run [OF seg, of "nat i"] by (auto simp: listIndex_def at_index_def nat_less_iff)
  qed
qed

definition key_matches :: "'v adlist \<Rightarrow> 'v \<Rightarrow> 'v \<Rightarrow> bool" where
  "key_matches l key v = (case l_match l of Some f \<Rightarrow> f v key | None \<Rightarrow> key = v)"

lemma key_matches_fold: "(case l_match l of None \<Rightarrow> key = v | Some f \<Rightarrow> f v key) = key_matches l key v"
  by (simp add: key_matches_def)

lemma listSearchKey_loop_run:
  "dseg (nodes h) pr xs None \<Longrightarrow>
    listSearchKey_loop h l key \<lparr>i_next = first_ptr xs None, i_direction = AL_START_HEAD\<rparr> =
      Some (map_option fst (find (\<lambda>(a, v). key_matches l key v) xs))"
proof (induction xs arbitrary: pr)
  case Nil
  then show ?case by (subst listSearchKey_loop.simps) (simp add: listNext_def)
next
  case (Cons x xs)
  then show ?case
    by (subst listSearchKey_loop.simps; cases x) (auto simp: listNext_def node_ops key_matches_fold)
qed

lemma listSearchKey_spec:
  assumes "list_inv F h l xs"
  shows "listSearchKey h l key = Some (map_option fst (find (\<lambda>(a, v). key_matches l key v) xs))"
  using listSearchKey_loop_run [of h None xs l key] list_invD(1,4) [OF assms]
  by (simp add: listSearchKey_def listRewind_def owns_def)

subsection \<open>Duplication\<close>

definition dup_value :: "'v adlist \<Rightarrow> 'v \<Rightarrow> 'v option" where
  "dup_value l v = (case l_dup l of Some f \<Rightarrow> f v | None \<Rightarrow> Some v)"

text \<open>
  What duplication promises of the heap it leaves: on success a copy beside the untouched rest, otherwise the
  heap as it was, with every duplicate made handed to the free method, and a reason to give up.
\<close>

definition dup_blocked :: "'v node_alloc \<Rightarrow> (nat \<rightharpoonup> 'v listNode) \<Rightarrow> 'v adlist \<Rightarrow> 'v list \<Rightarrow> bool" where
  "dup_blocked al G l todo \<longleftrightarrow> None \<in> dup_value l ` set todo \<or> (\<exists>h. na_node al h = None \<and> (finite (dom G) \<longrightarrow> finite (dom (nodes h))))"

definition made :: "'v adlist \<Rightarrow> 'v list \<Rightarrow> 'v list" where
  "made l vs = (if l_dup l = None then [] else vs)"

definition dup_ok ::
    "'v node_alloc \<Rightarrow> (nat \<rightharpoonup> 'v listNode) \<Rightarrow> 'v lheap \<Rightarrow> 'v adlist \<Rightarrow> 'v list \<Rightarrow> 'v list \<Rightarrow> 'v lheap \<times> 'v adlist option \<Rightarrow> bool" where
  "dup_ok al G h l done todo res \<longleftrightarrow>
    (case res of
       (h', None) \<Rightarrow> nodes h' = G \<and> lists h' = lists h - 1 \<and> dup_blocked al G l todo \<and>
         (\<exists>vs. duped h' = duped h @ made l vs \<and> mset (freed h') = mset (freed h) + (if l_free l then mset (done @ vs) else {#}))
     | (h', Some m) \<Rightarrow> freed h' = freed h \<and> lists h' = lists h \<and>
         (\<exists>zs. m = header l zs \<and> list_inv G h' m zs \<and>
           (\<exists>vs. map Some vs = map (dup_value l) todo \<and> map snd zs = done @ vs \<and> duped h' = duped h @ made l vs)))"

lemma list_inv_finite: "list_inv F h l xs \<Longrightarrow> finite (dom F) \<longrightarrow> finite (dom (nodes h))"
proof
  assume inv: "list_inv F h l xs" and fin: "finite (dom F)"
  have "dom (nodes h) \<subseteq> addrs xs \<union> dom F"
    using list_invD(4) [OF inv] unfolding owns_def by (metis (no_types, lifting) Un_iff domIff subsetI)
  then show "finite (dom (nodes h))" using fin finite_subset by blast
qed

lemma list_inv_nodes: "nodes h' = nodes h \<Longrightarrow> list_inv F h' l xs = list_inv F h l xs"
  by (simp add: list_inv_def)

lemma dup_value_header [simp]: "dup_value (header l xs) = dup_value l"
  by (simp add: dup_value_def fun_eq_iff)

lemma dup_blocked_header [simp]: "dup_blocked al G (header l xs) = dup_blocked al G l" "made (header l xs) = made l"
  by (simp_all add: dup_blocked_def made_def fun_eq_iff)

lemma made_Cons: "made l (w # vs) = made l [w] @ made l vs"
  by (simp add: made_def)

lemma dup_ok_step:
  assumes "dup_ok al G h1 (header l zs) (done @ [w]) todo res" and "dup_value l v = Some w" and "freed h1 = freed h"
    and "lists h1 = lists h" and "duped h1 = duped h @ made l [w]"
  shows "dup_ok al G h l done (v # todo) res"
proof (cases res)
  case (Pair h' r)
  show ?thesis
  proof (cases r)
    case None
    from assms(1) None Pair obtain vs where "nodes h' = G" "lists h' = lists h1 - 1" "dup_blocked al G l todo" "duped h' = duped h1 @ made l vs"
      "mset (freed h') = mset (freed h1) + (if l_free l then mset ((done @ [w]) @ vs) else {#})"
      by (auto simp: dup_ok_def)
    then show ?thesis using None Pair assms(3-5) made_Cons [of l w vs]
      by (auto simp: dup_ok_def dup_blocked_def intro!: exI [of _ "w # vs"])
  next
    case (Some m)
    from assms(1) Some Pair obtain ws vs where "freed h' = freed h1" "lists h' = lists h1" "m = header l ws" "list_inv G h' m ws"
      "map Some vs = map (dup_value l) todo" "map snd ws = (done @ [w]) @ vs" "duped h' = duped h1 @ made l vs"
      by (auto simp: dup_ok_def)
    then show ?thesis using Some Pair assms(2-5) made_Cons [of l w vs]
      by (auto simp: dup_ok_def intro!: exI [of _ ws] exI [of _ "w # vs"])
  qed
qed

lemma call_dup_value:
  "call_dup l v h = (case dup_value l v of None \<Rightarrow> (h, None) | Some w \<Rightarrow> (h\<lparr>duped := duped h @ made l [w]\<rparr>, Some w))"
  by (simp add: call_dup_def dup_value_def made_def split: option.split)

lemma listDup_loop_ok:
  assumes fresh: "fresh_node al"
  shows "list_inv G h copy ys \<Longrightarrow> dseg G pr xs None \<Longrightarrow> length ys + length xs < 2 ^ 64 \<Longrightarrow> 0 < lists h \<Longrightarrow>
    \<exists>res. listDup_loop al h copy \<lparr>i_next = first_ptr xs None, i_direction = AL_START_HEAD\<rparr> = Some res \<and>
      dup_ok al G h copy (map snd ys) (map snd xs) res"
proof (induction xs arbitrary: h copy ys pr)
  case Nil
  then show ?case
    using list_invD(6) [OF Nil.prems(1)] by (subst listDup_loop.simps) (auto simp: listNext_def dup_ok_def made_def intro!: exI [of _ ys])
next
  case (Cons x xs)
  obtain a v where x: "x = (a, v)" by (cases x)
  have Ga: "G a = Some \<lparr>n_prev = pr, n_next = first_ptr xs None, n_value = v\<rparr>" and seg: "dseg G (Some a) xs None"
    using Cons.prems(2) x by simp_all
  have ha: "nodes h a = Some \<lparr>n_prev = pr, n_next = first_ptr xs None, n_value = v\<rparr>"
    using list_invD(4) [OF Cons.prems(1)] Ga unfolding owns_def by (metis option.distinct(1))
  have start: "listDup_loop al h copy \<lparr>i_next = first_ptr (x # xs) None, i_direction = AL_START_HEAD\<rparr> =
     (case dup_value copy v of
        None \<Rightarrow> do { h \<leftarrow> listRelease h copy; Some (h, None) }
      | Some w \<Rightarrow> do {
          (h, r) \<leftarrow> listAddNodeTail al (h\<lparr>duped := duped h @ made copy [w]\<rparr>) copy w;
          if r = None then do {
            h \<leftarrow> listRelease (free_value (l_free copy) w h) copy;
            Some (h, None)
          } else listDup_loop al h (the r) \<lparr>i_next = first_ptr xs None, i_direction = AL_START_HEAD\<rparr>
        })"
    by (subst listDup_loop.simps) (auto simp: listNext_def node_ops ha x call_dup_value case_prod_unfold split: option.split cong: if_cong)
  show ?case
  proof (cases "dup_value copy v")
    case None
    then show ?thesis unfolding start using listRelease_spec [OF Cons.prems(1,4)] x
      by (auto simp: dup_ok_def dup_blocked_def made_def intro!: exI [of _ "[]"])
  next
    case (Some w)
    let ?h0 = "h\<lparr>duped := duped h @ made copy [w]\<rparr>"
    have inv0: "list_inv G ?h0 copy ys" using Cons.prems(1) by (simp add: list_inv_def)
    consider (fail) "listAddNodeTail al ?h0 copy w = Some (?h0\<lparr>asked := asked h + 1\<rparr>, None)" "na_node al ?h0 = None"
      | (ok) b N where "owns G N (ys @ [(b, w)])"
        "listAddNodeTail al ?h0 copy w = Some (?h0\<lparr>asked := asked h + 1, nodes := N\<rparr>, Some (header copy (ys @ [(b, w)])))"
      using listAddNodeTail_spec [OF inv0 fresh, of w] by auto
    then show ?thesis
    proof cases
      case fail
      let ?h = "free_value (l_free copy) w (?h0\<lparr>asked := asked h + 1\<rparr>)"
      have "list_inv G ?h copy ys" "0 < lists ?h" using Cons.prems(1,4) by (simp_all add: list_inv_def free_value_def)
      note rel = listRelease_spec [OF this]
      have "dup_blocked al G copy (map snd (x # xs))"
        using fail(2) list_inv_finite [OF inv0] unfolding dup_blocked_def by blast
      then show ?thesis unfolding start
        using fail(1) Some rel by (auto simp: dup_ok_def free_value_def intro!: exI [of _ "[w]"])
    next
      case (ok b N)
      let ?h = "?h0\<lparr>asked := asked h + 1, nodes := N\<rparr>"
      have "list_inv G ?h (header copy (ys @ [(b, w)])) (ys @ [(b, w)])"
        using ok(1) Cons.prems(3) by (intro list_invI) simp_all
      from Cons.IH [OF this seg] Cons.prems(3,4) obtain res where
        "listDup_loop al ?h (header copy (ys @ [(b, w)])) \<lparr>i_next = first_ptr xs None, i_direction = AL_START_HEAD\<rparr> = Some res"
        "dup_ok al G ?h (header copy (ys @ [(b, w)])) (map snd ys @ [w]) (map snd xs) res"
        by auto
      then show ?thesis unfolding start using ok(2) Some dup_ok_step [of al G ?h copy _ "map snd ys" w "map snd xs" res v h] x by auto
    qed
  qed
qed

subsection \<open>Sequences of commands\<close>

datatype 'v lcmd = AddHead 'v | AddTail 'v | InsertAt int 'v bool | DelAt int | RotateTail | RotateHead | Clear

definition keep_list :: "'v adlist \<Rightarrow> 'v lheap \<times> 'v adlist option \<Rightarrow> 'v lheap \<times> 'v adlist" where
  "keep_list l r = (fst r, case snd r of None \<Rightarrow> l | Some l' \<Rightarrow> l')"

text \<open>A client call: positions are resolved by \<^verbatim>\<open>listIndex\<close>, and nothing happens outside the list.\<close>

fun lcmd_run :: "'v node_alloc \<Rightarrow> 'v lheap \<times> 'v adlist \<Rightarrow> 'v lcmd \<Rightarrow> ('v lheap \<times> 'v adlist) option" where
  "lcmd_run al (h, l) (AddHead v) = map_option (keep_list l) (listAddNodeHead al h l v)"
| "lcmd_run al (h, l) (AddTail v) = map_option (keep_list l) (listAddNodeTail al h l v)"
| "lcmd_run al (h, l) (InsertAt i v after) = do {
     p \<leftarrow> listIndex h l i;
     if p = None then Some (h, l) else map_option (keep_list l) (listInsertNode al h l p v after)
   }"
| "lcmd_run al (h, l) (DelAt i) = do {
     p \<leftarrow> listIndex h l i;
     if p = None then Some (h, l) else listDelNode h l p
   }"
| "lcmd_run al (h, l) RotateTail = listRotateTailToHead h l"
| "lcmd_run al (h, l) RotateHead = listRotateHeadToTail h l"
| "lcmd_run al (h, l) Clear = listEmpty h l"

fun lcmds_run :: "'v node_alloc \<Rightarrow> 'v lheap \<times> 'v adlist \<Rightarrow> 'v lcmd list \<Rightarrow> ('v lheap \<times> 'v adlist) option" where
  "lcmds_run al s [] = Some s"
| "lcmds_run al s (c # cs) = do { s \<leftarrow> lcmd_run al s c; lcmds_run al s cs }"

text \<open>The same commands on the sequence of values, with the values given up.\<close>

fun lcmd_spec :: "'v lcmd \<Rightarrow> 'v list \<Rightarrow> 'v list \<times> 'v list" where
  "lcmd_spec (AddHead v) vs = (v # vs, [])"
| "lcmd_spec (AddTail v) vs = (vs @ [v], [])"
| "lcmd_spec (InsertAt i v after) vs =
    (case at_index i vs of
       None \<Rightarrow> (vs, [])
     | Some k \<Rightarrow> let k = (if after then k + 1 else k) in (take k vs @ v # drop k vs, []))"
| "lcmd_spec (DelAt i) vs =
    (case at_index i vs of None \<Rightarrow> (vs, []) | Some k \<Rightarrow> (take k vs @ drop (k + 1) vs, [vs ! k]))"
| "lcmd_spec RotateTail vs = (if vs = [] then (vs, []) else (last vs # butlast vs, []))"
| "lcmd_spec RotateHead vs = (rotate1 vs, [])"
| "lcmd_spec Clear vs = ([], vs)"

fun lcmds_spec :: "'v lcmd list \<Rightarrow> 'v list \<Rightarrow> 'v list \<times> 'v list" where
  "lcmds_spec [] vs = (vs, [])"
| "lcmds_spec (c # cs) vs = (let (ws, out) = lcmd_spec c vs; (ws', out') = lcmds_spec cs ws in (ws', out @ out'))"

text \<open>\<^verbatim>\<open>listIndex\<close> negates its argument: the smallest \<^verbatim>\<open>long\<close> is not a valid one.\<close>

fun lcmd_ok :: "'v lcmd \<Rightarrow> bool" where
  "lcmd_ok (InsertAt i v after) \<longleftrightarrow> in_i64 i \<and> i \<noteq> - (2 ^ 63)"
| "lcmd_ok (DelAt i) \<longleftrightarrow> in_i64 i \<and> i \<noteq> - (2 ^ 63)"
| "lcmd_ok c \<longleftrightarrow> True"

text \<open>An allocator that grants every request on a heap with finitely many live nodes.\<close>

definition total_node :: "'v node_alloc \<Rightarrow> bool" where
  "total_node al \<longleftrightarrow> fresh_node al \<and> (\<forall>h. finite (dom (nodes h)) \<longrightarrow> na_node al h \<noteq> None)"

definition first_fit :: "'v listNode \<Rightarrow> 'v node_alloc" where
  "first_fit n =
    \<lparr>na_node = (\<lambda>h. if \<exists>a. nodes h a = None then Some (LEAST a. nodes h a = None, n) else None), na_struct = (\<lambda>h. True)\<rparr>"

lemma total_first_fit: "total_node (first_fit n)"
proof -
  have "\<exists>a. nodes h a = None" if "finite (dom (nodes h))" for h :: "'a lheap"
    using ex_new_if_finite [OF infinite_UNIV_nat that] by (auto simp: dom_def)
  then show ?thesis by (auto simp: total_node_def fresh_node_def first_fit_def intro: LeastI_ex split: if_splits)
qed

lemma total_node_grants:
  assumes "total_node al" and "list_inv F h l xs" and "finite (dom F)"
  shows "fresh_node al" "na_node al h \<noteq> None"
  using assms(1) list_inv_finite [OF assms(2)] assms(3) by (simp_all add: total_node_def)

definition lcmd_result :: "(nat \<rightharpoonup> 'v listNode) \<Rightarrow> 'v lheap \<Rightarrow> 'v adlist \<Rightarrow> 'v list \<times> 'v list \<Rightarrow> 'v lheap \<times> 'v adlist \<Rightarrow> bool" where
  "lcmd_result F h l spec res \<longleftrightarrow>
    (\<exists>xs. list_inv F (fst res) (snd res) xs \<and> snd res = header l xs \<and> map snd xs = fst spec \<and>
      freed (fst res) = freed h @ (if l_free l then snd spec else []))"

lemma lcmd_resultI:
  assumes "owns F N xs" and "length xs < 2 ^ 64" and "nodes h' = N" and "map snd xs = fst spec"
    and "freed h' = freed h @ (if l_free l then snd spec else [])"
  shows "lcmd_result F h l spec (h', header l xs)"
  using assms unfolding lcmd_result_def by (intro exI [of _ xs]) auto

lemma at_index_map [simp]: "at_index i (map f xs) = at_index i xs"
  by (simp add: at_index_def)

lemma at_index_less: "at_index i xs = Some k \<Longrightarrow> k < length xs"
  by (auto simp: at_index_def split: if_splits)

lemma lcmd_self:
  assumes "list_inv F h l xs"
  shows "lcmd_result F h l (map snd xs, []) (h, l)"
  using lcmd_resultI [OF list_invD(4,5) [OF assms], of h "(map snd xs, [])" h l] list_invD(6) [OF assms] by simp

text \<open>The cell at a position of the list.\<close>

lemma listIndex_cell:
  assumes inv: "list_inv F h l xs" and i: "in_i64 i" "i \<noteq> - (2 ^ 63)"
  obtains "listIndex h l i = Some None" "at_index i xs = None"
  | k a w where "listIndex h l i = Some (Some a)" "at_index i xs = Some k" "k < length xs"
      "xs = take k xs @ (a, w) # drop (k + 1) xs"
proof -
  have idx: "listIndex h l i = Some (map_option (\<lambda>k. fst (xs ! k)) (at_index i xs))"
    using listIndex_spec [OF inv, of i] i by (simp add: in_i64_iff)
  show thesis
  proof (cases "at_index i xs")
    case None
    with idx that(1) show ?thesis by simp
  next
    case (Some k)
    have k: "k < length xs" using at_index_less [OF Some] .
    have "xs = take k xs @ (fst (xs ! k), snd (xs ! k)) # drop (k + 1) xs" using id_take_nth_drop [OF k] by simp
    from that(2) [OF _ Some k this] idx Some show ?thesis by simp
  qed
qed

lemma lcmd_insert:
  assumes al: "total_node al" and inv: "list_inv F h l xs" and fin: "finite (dom F)" and i: "in_i64 i" "i \<noteq> - (2 ^ 63)" and len: "length xs + 1 < 2 ^ 64"
  shows "\<exists>res. lcmd_run al (h, l) (InsertAt i v after) = Some res \<and>
    lcmd_result F h l (lcmd_spec (InsertAt i v after) (map snd xs)) res"
proof (cases rule: listIndex_cell [OF inv i])
  case 1
  with lcmd_self [OF inv] show ?thesis by auto
next
  case (2 k a w)
  let ?ys = "\<lambda>b. insert_cell after (take k xs) (a, w) (drop (k + 1) xs) (b, v)"
  from total_node_grants [OF al inv fin] listInsertNode_spec [of F h l "take k xs" a w "drop (k + 1) xs" al v after] inv 2(4)
  obtain b N where own: "owns F N (?ys b)"
    and run: "listInsertNode al h l (Some a) v after = Some (h\<lparr>asked := asked h + 1, nodes := N\<rparr>, Some (header l (?ys b)))"
    by auto
  have len': "length (?ys b) < 2 ^ 64" using len 2(3) by (simp add: insert_cell_def)
  have w: "w = map snd xs ! k" using 2(3,4) by (metis nth_append_length length_take min_absorb2 less_imp_le nth_map snd_conv)
  have "map snd (?ys b) = fst (lcmd_spec (InsertAt i v after) (map snd xs))"
    using 2(2,3) w Cons_nth_drop_Suc [OF 2(3), symmetric]
    by (simp add: insert_cell_def take_map drop_map take_Suc_conv_app_nth Let_def)
  from lcmd_resultI [OF own len' _ this, of "h\<lparr>asked := asked h + 1, nodes := N\<rparr>" h l] show ?thesis
    using run 2(1,2) by (simp add: keep_list_def Let_def)
qed

lemma lcmd_delete:
  assumes inv: "list_inv F h l xs" and i: "in_i64 i" "i \<noteq> - (2 ^ 63)"
  shows "\<exists>res. lcmd_run al (h, l) (DelAt i) = Some res \<and> lcmd_result F h l (lcmd_spec (DelAt i) (map snd xs)) res"
proof (cases rule: listIndex_cell [OF inv i])
  case 1
  with lcmd_self [OF inv] show ?thesis by auto
next
  case (2 k a w)
  let ?ys = "take k xs @ drop (k + 1) xs"
  from listDelNode_spec [of F h l "take k xs" a w "drop (k + 1) xs"] inv 2(4)
  obtain N where own: "owns F N ?ys" and run: "listDelNode h l (Some a) =
      Some (h\<lparr>freed := freed h @ (if l_free l then [w] else []), nodes := N\<rparr>, header l ?ys)"
    by auto
  have len': "length ?ys < 2 ^ 64" using list_invD(5) [OF inv] 2(3) by simp
  have w: "w = map snd xs ! k" using 2(3,4) by (metis nth_append_length length_take min_absorb2 less_imp_le nth_map snd_conv)
  have spec: "lcmd_spec (DelAt i) (map snd xs) = (map snd ?ys, [w])"
    using 2(2,3) w by (simp add: take_map drop_map)
  have "lcmd_result F h l (map snd ?ys, [w])
      (h\<lparr>freed := freed h @ (if l_free l then [w] else []), nodes := N\<rparr>, header l ?ys)"
    by (rule lcmd_resultI [OF own len']) simp_all
  then show ?thesis unfolding spec using run 2(1) by simp
qed

lemma lcmd_rotate:
  assumes inv: "list_inv F h l xs" and c: "c = RotateTail \<or> c = RotateHead"
  shows "\<exists>res. lcmd_run al (h, l) c = Some res \<and> lcmd_result F h l (lcmd_spec c (map snd xs)) res"
proof (cases "xs = []")
  case True
  with c listRotate_empty [OF inv [unfolded True]] lcmd_self [OF inv] show ?thesis by auto
next
  case False
  then obtain a v ys where t: "xs = ys @ [(a, v)]" by (metis rev_exhaust prod.exhaust)
  from False obtain b w zs where d: "xs = (b, w) # zs" by (metis list.exhaust prod.exhaust)
  show ?thesis using c
  proof
    assume "c = RotateTail"
    with listRotateTailToHead_spec [OF inv [unfolded t]] list_invD(5) [OF inv] show ?thesis
      unfolding t by (auto intro!: lcmd_resultI simp: butlast_append)
  next
    assume "c = RotateHead"
    with listRotateHeadToTail_spec [OF inv [unfolded d]] list_invD(5) [OF inv] show ?thesis
      unfolding d by (auto intro!: lcmd_resultI)
  qed
qed

lemma owns_Nil: "owns F F []"
  by (simp add: owns_def)

lemma lcmd_run_result:
  assumes al: "total_node al" and inv: "list_inv F h l xs" and fin: "finite (dom F)" and ok: "lcmd_ok c"
    and len: "length xs + 1 < 2 ^ 64"
  shows "\<exists>res. lcmd_run al (h, l) c = Some res \<and> lcmd_result F h l (lcmd_spec c (map snd xs)) res"
proof -
  note fresh = total_node_grants(1) [OF al inv fin] and tot = total_node_grants(2) [OF al inv fin]
  show ?thesis
  proof (cases c)
    case (AddHead v)
    from listAddNodeHead_spec [OF inv fresh, of v] tot show ?thesis
      using len AddHead by (auto simp: keep_list_def intro!: lcmd_resultI)
  next
    case (AddTail v)
    from listAddNodeTail_spec [OF inv fresh, of v] tot show ?thesis
      using len AddTail by (auto simp: keep_list_def intro!: lcmd_resultI)
  next
    case (InsertAt i v after)
    show ?thesis unfolding InsertAt by (rule lcmd_insert [OF al inv fin _ _ len]) (use ok InsertAt in simp_all)
  next
    case (DelAt i)
    show ?thesis unfolding DelAt by (rule lcmd_delete [OF inv]) (use ok DelAt in simp_all)
  next
    case Clear
    then show ?thesis using listEmpty_spec [OF inv] owns_Nil by (auto intro!: lcmd_resultI)
  qed (use lcmd_rotate [OF inv] in blast)+
qed

lemma lcmd_spec_length: "length (fst (lcmd_spec c vs)) \<le> length vs + 1"
  by (cases "(c, vs)" rule: lcmd_spec.cases) (auto simp: Let_def split: option.splits)

lemma lcmds_run_result:
  assumes al: "total_node al" and fin: "finite (dom F)"
  shows "list_inv F h l xs \<Longrightarrow> list_all lcmd_ok cs \<Longrightarrow> length xs + length cs < 2 ^ 64 \<Longrightarrow>
    \<exists>res. lcmds_run al (h, l) cs = Some res \<and> lcmd_result F h l (lcmds_spec cs (map snd xs)) res"
proof (induction cs arbitrary: h l xs)
  case Nil
  then show ?case using lcmd_self [OF Nil(1)] by simp
next
  case (Cons c cs)
  from lcmd_run_result [OF al Cons.prems(1) fin, of c] Cons.prems(2,3) obtain h1 l1 ys where
    run: "lcmd_run al (h, l) c = Some (h1, l1)" and inv: "list_inv F h1 l1 ys" "l1 = header l ys"
    and vals: "map snd ys = fst (lcmd_spec c (map snd xs))"
    and free: "freed h1 = freed h @ (if l_free l then snd (lcmd_spec c (map snd xs)) else [])"
    by (auto simp: lcmd_result_def)
  have "length ys + length cs < 2 ^ 64"
    using lcmd_spec_length [of c "map snd xs"] Cons.prems(3) arg_cong [OF vals, of length] by simp
  from Cons.IH [OF inv(1) _ this] Cons.prems(2) obtain res where
    rest: "lcmds_run al (h1, l1) cs = Some res" "lcmd_result F h1 l1 (lcmds_spec cs (map snd ys)) res" by auto
  from rest(2) have "lcmd_result F h l (lcmds_spec (c # cs) (map snd xs)) res"
    using vals free unfolding lcmd_result_def inv(2) by (auto simp: case_prod_unfold Let_def)
  with run rest(1) show ?case by simp
qed

subsection \<open>Iteration with removal\<close>

text \<open>
  The usage pattern that the comment of \<^verbatim>\<open>listNext\<close> documents, from either end: walk the list and remove some
  of the elements returned.
\<close>

partial_function (option) list_sweep ::
  "('v \<Rightarrow> bool) \<Rightarrow> 'v lheap \<Rightarrow> 'v adlist \<Rightarrow> listIter \<Rightarrow> ('v lheap \<times> 'v adlist) option" where
  "list_sweep P h l iter = do {
     (iter, node) \<leftarrow> listNext h iter;
     if node = None then Some (h, l)
     else do {
       n \<leftarrow> get_node h node;
       (h, l) \<leftarrow> (if P (n_value n) then listDelNode h l node else Some (h, l));
       list_sweep P h l iter
     }
   }"

lemma list_sweep_run:
  "list_inv F h l (ks @ xs) \<Longrightarrow>
    \<exists>h' ys. list_sweep P h l \<lparr>i_next = first_ptr xs None, i_direction = AL_START_HEAD\<rparr> = Some (h', header l (ks @ ys)) \<and>
      list_inv F h' (header l (ks @ ys)) (ks @ ys) \<and> ys = filter (\<lambda>x. \<not> P (snd x)) xs \<and>
      freed h' = freed h @ (if l_free l then filter P (map snd xs) else [])"
proof (induction xs arbitrary: h l ks)
  case Nil
  then show ?case using list_invD(6) [OF Nil] by (subst list_sweep.simps) (auto simp: listNext_def)
next
  case (Cons x xs)
  obtain a v where x: "x = (a, v)" by (cases x)
  note own = list_invD(4) [OF Cons.prems [unfolded x]]
  have step: "list_sweep P h l \<lparr>i_next = first_ptr (x # xs) None, i_direction = AL_START_HEAD\<rparr> = do {
      (h, l) \<leftarrow> (if P v then listDelNode h l (Some a) else Some (h, l));
      list_sweep P h l \<lparr>i_next = first_ptr xs None, i_direction = AL_START_HEAD\<rparr>
    }"
    using owns_cell(1) [OF own] by (subst list_sweep.simps) (simp add: listNext_def node_ops x)
  show ?case
  proof (cases "P v")
    case True
    from listDelNode_spec [OF Cons.prems [unfolded x]] obtain M where
      del: "listDelNode h l (Some a) = Some (h\<lparr>freed := freed h @ (if l_free l then [v] else []), nodes := M\<rparr>, header l (ks @ xs))"
      and M: "owns F M (ks @ xs)" by blast
    have "list_inv F (h\<lparr>freed := freed h @ (if l_free l then [v] else []), nodes := M\<rparr>) (header l (ks @ xs)) (ks @ xs)"
      using M list_invD(5) [OF Cons.prems] by (intro list_invI) simp_all
    from Cons.IH [OF this] show ?thesis unfolding step using True x by (auto simp: del)
  next
    case False
    from Cons.IH [of h l "ks @ [x]"] Cons.prems show ?thesis unfolding step using False x by auto
  qed
qed

lemma listDup_ok:
  assumes fresh: "fresh_node al" and inv: "list_inv F h l xs" and struct: "na_struct al h"
  shows "\<exists>res. listDup al h l = Some res \<and> dup_ok al (nodes h) (h\<lparr>lists := lists h + 1, asked := asked h + 1\<rparr>) l [] (map snd xs) res"
proof -
  let ?h = "h\<lparr>lists := lists h + 1, asked := asked h + 1\<rparr>"
  have copy: "\<lparr>l_head = None, l_tail = None, l_dup = l_dup l, l_free = l_free l, l_match = l_match l, l_len = 0\<rparr> = header l []"
    by (simp add: header_iff)
  have "list_inv (nodes h) ?h (header l []) []" using owns_Nil by (intro list_invI) simp_all
  moreover have "dseg (nodes h) None xs None" "length ([] :: (nat \<times> 'a) list) + length xs < 2 ^ 64"
    using list_invD(4,5) [OF inv] by (simp_all add: owns_def)
  ultimately obtain res where
    "listDup_loop al ?h (header l []) \<lparr>i_next = first_ptr xs None, i_direction = AL_START_HEAD\<rparr> = Some res"
    "dup_ok al (nodes h) ?h (header l []) [] (map snd xs) res"
    using listDup_loop_ok [OF fresh, of "nodes h" ?h "header l []" "[]" None xs] by auto
  moreover from this(2) have "dup_ok al (nodes h) ?h l [] (map snd xs) res"
    by (cases res; cases "snd res") (auto simp: dup_ok_def)
  ultimately show ?thesis
    using struct list_invD(1) [OF inv] by (simp add: listDup_def listCreate_def new_list_def listRewind_def copy)
qed

lemma listDup_no_struct: "\<not> na_struct al h \<Longrightarrow> listDup al h l = Some (h\<lparr>asked := asked h + 1\<rparr>, None)"
  by (simp add: listDup_def listCreate_def new_list_def)

text \<open>Without a method to duplicate values, a failing copy hands values of the original to the free method.\<close>

lemma listDup_frees_shared:
  assumes "fresh_node al" and "list_inv F h l ((a, v) # xs)" and "na_struct al h" and "l_dup l = None" and "l_free l"
    and "na_node al (h\<lparr>lists := lists h + 1, asked := asked h + 1\<rparr>) = None"
  shows "\<exists>h'. listDup al h l = Some (h', None) \<and> nodes h' = nodes h \<and> freed h' = freed h @ [v]"
proof -
  have v: "l_head l = Some a" "nodes h a = Some \<lparr>n_prev = None, n_next = first_ptr xs None, n_value = v\<rparr>"
    using list_invD(1) [OF assms(2)] list_invD(4) [OF assms(2)] by (simp_all add: owns_def)
  show ?thesis using assms(3-6) v
    by (simp add: listDup_def listCreate_def new_list_def listRewind_def, subst listDup_loop.simps)
      (simp add: listNext_def node_ops call_dup_def listAddNodeTail_def new_node_def free_value_def listRelease_def listEmpty_def free_list_def)
qed

subsection \<open>Properties\<close>

text \<open>C21: Any sequence of additions, insertions, deletions, rotations and clearings on a well-formed list runs without
  touching a dead or foreign node, leaves a well-formed list whose values are those the same commands give on
  a functional list, leaves the rest of the heap as it was (deleted nodes are gone), and hands exactly the
  removed values, in order, to the free method.\<close>

theorem list_commands_refine:
  assumes "total_node al" and "finite (dom F)" and "list_inv F h l xs"
    and "list_all lcmd_ok cs" and "length xs + length cs < 2 ^ 64"
  shows "\<exists>h' l' ys. lcmds_run al (h, l) cs = Some (h', l') \<and> list_inv F h' l' ys \<and>
    map snd ys = fst (lcmds_spec cs (map snd xs)) \<and>
    freed h' = freed h @ (if l_free l then snd (lcmds_spec cs (map snd xs)) else [])"
  using lcmds_run_result [OF assms] by (auto simp: lcmd_result_def)

definition no_list :: "nat adlist" where
  "no_list = \<lparr>l_head = None, l_tail = None, l_dup = None, l_free = True, l_match = None, l_len = 0\<rparr>"

definition no_heap :: "nat lheap" where
  "no_heap = \<lparr>nodes = Map.empty, freed = [], duped = [], lists = 1, iters = 0, asked = 1\<rparr>"

text \<open>A list of two cells, with a method that duplicates a number by counting up.\<close>

definition two_list :: "nat adlist" where
  "two_list = \<lparr>l_head = Some 1, l_tail = Some 2, l_dup = Some (\<lambda>v. Some (v + 1)), l_free = True, l_match = None, l_len = 2\<rparr>"

definition two_heap :: "nat lheap" where
  "two_heap = \<lparr>nodes = [1 \<mapsto> \<lparr>n_prev = None, n_next = Some 2, n_value = 10\<rparr>, 2 \<mapsto> \<lparr>n_prev = Some 1, n_next = None, n_value = 20\<rparr>],
    freed = [], duped = [], lists = 1, iters = 0, asked = 3\<rparr>"

lemma list_inv_two_list: "list_inv Map.empty two_heap two_list [(1, 10), (2, 20)]"
  by (simp add: list_inv_def owns_def header_def two_list_def two_heap_def)

lemma list_inv_no_list: "list_inv Map.empty no_heap no_list []"
  by (simp add: list_inv_def owns_def header_def no_list_def no_heap_def)

theorem list_commands_refine_witness:
  "\<exists>h' l' ys. lcmds_run (first_fit \<lparr>n_prev = None, n_next = None, n_value = 7\<rparr>) (no_heap, no_list)
      [AddTail 1, AddHead 2, AddTail 3, InsertAt (-1) 4 False, RotateTail, DelAt 1] = Some (h', l') \<and>
    list_inv Map.empty h' l' ys \<and> map snd ys = [3, 1, 4] \<and> freed h' = [2]"
  using list_commands_refine [OF total_first_fit, of Map.empty no_heap no_list "[]"
      "[AddTail 1, AddHead 2, AddTail 3, InsertAt (-1) 4 False, RotateTail, DelAt 1]"] list_inv_no_list
  by (simp add: at_index_def no_heap_def no_list_def in_i64_iff)

text \<open>C22: \<open>listDup\<close> of a well-formed list always returns and never changes the nodes that were there. On success it returns a
  well-formed list, in one more list structure, of the duplicated values with the same methods. It gives up only
  when a duplication or an allocation fails; then it returns \<^verbatim>\<open>NULL\<close>, the nodes and the list structure of the partial
  copy are freed, and exactly the duplicates that the method made, each once, are handed to the free method, if there is one.
  The list must have a method to duplicate values if it has one to free them.\<close>

theorem listDup_leaves_no_trace:
  assumes "fresh_node al" and "list_inv F h l xs" and "l_free l \<longrightarrow> l_dup l \<noteq> None"
  shows "(\<exists>h' zs. listDup al h l = Some (h', Some (header l zs)) \<and> list_inv (nodes h) h' (header l zs) zs \<and>
      map Some (map snd zs) = map (dup_value l) (map snd xs) \<and> freed h' = freed h \<and> lists h' = lists h + 1 \<and>
      duped h' = duped h @ (if l_dup l = None then [] else map snd zs)) \<or>
    (\<exists>h' vs. listDup al h l = Some (h', None) \<and> nodes h' = nodes h \<and> lists h' = lists h \<and> duped h' = duped h @ vs \<and>
      mset (freed h') = mset (freed h) + (if l_free l then mset vs else {#}) \<and>
      (\<not> na_struct al h \<or> None \<in> dup_value l ` set (map snd xs) \<or>
        (\<exists>h''. na_node al h'' = None \<and> (finite (dom (nodes h)) \<longrightarrow> finite (dom (nodes h''))))))"
proof (cases "na_struct al h")
  case True
  obtain res where r: "listDup al h l = Some res" "dup_ok al (nodes h) (h\<lparr>lists := lists h + 1, asked := asked h + 1\<rparr>) l [] (map snd xs) res"
    using listDup_ok [OF assms(1,2) True] by blast
  obtain h' m where res: "res = (h', m)" by (cases res)
  show ?thesis
  proof (cases m)
    case None
    obtain vs where "nodes h' = nodes h" "lists h' = lists h" "dup_blocked al (nodes h) l (map snd xs)" "duped h' = duped h @ made l vs"
        "mset (freed h') = mset (freed h) + (if l_free l then mset vs else {#})"
      using r(2) by (auto simp: dup_ok_def res None)
    moreover have "(if l_free l then mset vs else {#}) = (if l_free l then mset (made l vs) else {#})" using assms(3) by (auto simp: made_def)
    ultimately show ?thesis using r(1) unfolding res None dup_blocked_def by (intro disjI2 exI [of _ h'] exI [of _ "made l vs"]) simp
  next
    case (Some c)
    then show ?thesis using r unfolding res by (intro disjI1) (auto simp: dup_ok_def made_def)
  qed
qed (use listDup_no_struct [of al h l] in \<open>intro disjI2 exI [of _ "h\<lparr>asked := asked h + 1\<rparr>"] exI [of _ "[]"], simp\<close>)

theorem listDup_leaves_no_trace_witness:
  "\<exists>h' zs. listDup (first_fit \<lparr>n_prev = None, n_next = None, n_value = 7\<rparr>) two_heap two_list = Some (h', Some (header two_list zs)) \<and>
    list_inv (nodes two_heap) h' (header two_list zs) zs \<and> map snd zs = [11, 21] \<and> lists h' = 2 \<and> duped h' = [11, 21]"
proof -
  let ?al = "first_fit \<lparr>n_prev = None, n_next = None, n_value = 7 :: nat\<rparr>"
  have al: "total_node ?al" "na_struct ?al two_heap" by (rule total_first_fit) (simp add: first_fit_def)
  have l: "l_free two_list \<longrightarrow> l_dup two_list \<noteq> None" "None \<notin> dup_value two_list ` set (map snd [(1 :: nat, 10), (2, 20)])"
    by (simp_all add: two_list_def dup_value_def)
  have fin: "finite (dom (nodes two_heap))" by (simp add: two_heap_def)
  have "\<not> (\<exists>h''. na_node ?al h'' = None \<and> (finite (dom (nodes two_heap)) \<longrightarrow> finite (dom (nodes h''))))"
    using al(1) fin unfolding total_node_def by blast
  with listDup_leaves_no_trace [OF total_node_grants(1) [OF al(1) list_inv_two_list] list_inv_two_list l(1)] al(2) l(2)
  obtain h' zs where "listDup ?al two_heap two_list = Some (h', Some (header two_list zs))" "list_inv (nodes two_heap) h' (header two_list zs) zs"
      "map Some (map snd zs) = map (dup_value two_list) (map snd [(1 :: nat, 10), (2, 20)])" "lists h' = lists two_heap + 1"
      "duped h' = duped two_heap @ (if l_dup two_list = None then [] else map snd zs)"
    by auto
  moreover from this(3) have "map Some (map snd zs) = map Some [11, 21]" by (simp add: two_list_def dup_value_def)
  then have "map snd zs = [11, 21]" by (simp only: inj_map_eq_map inj_Some)
  ultimately show ?thesis by (auto simp: two_heap_def two_list_def)
qed

text \<open>C37: Walking a list with \<open>listNext\<close> while removing returned elements with \<open>listDelNode\<close> ends, visits every element,
  removes exactly the chosen ones and leaves a well-formed list of the others in their order.\<close>

theorem list_sweep_filters:
  assumes "list_inv F h l xs"
  shows "\<exists>h'. list_sweep P h l (listRewind l) = Some (h', header l (filter (\<lambda>x. \<not> P (snd x)) xs)) \<and>
    list_inv F h' (header l (filter (\<lambda>x. \<not> P (snd x)) xs)) (filter (\<lambda>x. \<not> P (snd x)) xs) \<and>
    freed h' = freed h @ (if l_free l then filter P (map snd xs) else [])"
  using list_sweep_run [of F h l "[]" xs P] assms list_invD(1) [OF assms] by (auto simp: listRewind_def)

theorem list_sweep_filters_witness:
  "\<exists>h'. list_sweep (\<lambda>v. v = 10) two_heap two_list (listRewind two_list) = Some (h', header two_list [(2, 20)]) \<and>
    list_inv Map.empty h' (header two_list [(2, 20)]) [(2, 20)] \<and> freed h' = [10]"
  using list_sweep_filters [OF list_inv_two_list, of "\<lambda>v. v = 10"] by (simp add: two_heap_def two_list_def)

end
