(* ===== verification/Redis_Dict.thy ===== *)
theory Redis_Dict
  imports Redis_Prelude "HOL-Library.Multiset"
begin

text \<open>
  The hash table of \<^verbatim>\<open>src/dict.c\<close> with incremental rehashing. Keys, values and entries are 64-bit pointers, with the
  tag bits of entry pointers as the code has them; the value union is its 64 bits. The chain behind a
  bucket is the list of the entry pointers on it, so that a \<^verbatim>\<open>dictEntry *\<close> used as a cursor is the rest of a chain and
  \<^verbatim>\<open>NULL\<close> is the empty list; the other fields of an entry are in the store. Accesses to entries that are not live or
  to buckets outside a table, failed assertions and exhausted memory are \<open>None\<close>.

  The state holds one dictionary, the store, the values given to the destructors and the global resize policy.
  The functions of \<^verbatim>\<open>dictType\<close> depend on their pointer arguments only. The bucket arrays are fields of the
  dictionary, so releasing one is resetting its fields. The progress callback of \<^verbatim>\<open>_dictClear\<close> is not modelled, and the
  number of buckets \<^verbatim>\<open>dictRehashMilliseconds\<close> reports is not bounded by \<^verbatim>\<open>INT_MAX\<close>.
\<close>

unbundle bit_operations_syntax

type_synonym ref = "64 word"

subsection \<open>Data\<close>

datatype dictResizeEnable = DICT_RESIZE_ENABLE | DICT_RESIZE_AVOID | DICT_RESIZE_FORBID

datatype dentry = DictEntry ref ref | DictEntryNoValue ref

text \<open>
  \<^verbatim>\<open>expandAllowed\<close> takes the bytes to allocate and the two operands of the used ratio.
\<close>

record dictType =
  hashFunction :: "ref \<Rightarrow> 64 word"
  keyDup :: "(ref \<Rightarrow> ref) option"
  valDup :: "(ref \<Rightarrow> ref) option"
  keyCompare :: "(ref \<Rightarrow> ref \<Rightarrow> bool) option"
  keyDestructor :: bool
  valDestructor :: bool
  expandAllowed :: "(64 word \<Rightarrow> 64 word \<Rightarrow> 64 word \<Rightarrow> bool) option"
  no_value :: bool
  keys_are_odd :: bool
  dictEntryMetadataBytes :: "64 word"

text \<open>A table is its address and its buckets.\<close>

record dict =
  dtype :: dictType
  ht_table :: "nat \<Rightarrow> (ref \<times> ref list list) option"
  ht_used :: "nat \<Rightarrow> 64 word"
  rehashidx :: int
  pauserehash :: "16 word"
  ht_size_exp :: "nat \<Rightarrow> int"

record dstate = dict +
  store :: "ref \<rightharpoonup> dentry"
  freedKeys :: "ref list"
  freedVals :: "ref list"
  dict_can_resize :: dictResizeEnable

text \<open>
  The allocator: address and indeterminate value bits of a new entry, or exhausted memory; and the address of a
  new table of the given number of bytes.
\<close>

record denv =
  new_entry :: "dstate \<Rightarrow> (ref \<times> 64 word) option"
  new_table :: "dstate \<Rightarrow> 64 word \<Rightarrow> ref option"

definition dict_force_resize_ratio :: "64 word" where
  "dict_force_resize_ratio = 5"

definition DICT_HT_INITIAL_EXP :: nat where
  "DICT_HT_INITIAL_EXP = 2"

definition DICT_HT_INITIAL_SIZE :: "64 word" where
  "DICT_HT_INITIAL_SIZE = push_bit DICT_HT_INITIAL_EXP 1"

definition DICTHT_SIZE :: "int \<Rightarrow> 64 word" where
  "DICTHT_SIZE e = (if e = -1 then 0 else push_bit (nat e) 1)"

definition DICTHT_SIZE_MASK :: "int \<Rightarrow> 64 word" where
  "DICTHT_SIZE_MASK e = (if e = -1 then 0 else DICTHT_SIZE e - 1)"

definition dictHashKey :: "('a) dict_scheme \<Rightarrow> ref \<Rightarrow> 64 word" where
  "dictHashKey d key = hashFunction (dtype d) key"

definition dictCompareKeys :: "('a) dict_scheme \<Rightarrow> ref \<Rightarrow> ref \<Rightarrow> bool" where
  "dictCompareKeys d key1 key2 = (case keyCompare (dtype d) of Some f \<Rightarrow> f key1 key2 | None \<Rightarrow> key1 = key2)"

definition dictSlots :: "('a) dict_scheme \<Rightarrow> 64 word" where
  "dictSlots d = DICTHT_SIZE (ht_size_exp d 0) + DICTHT_SIZE (ht_size_exp d 1)"

definition dictSize :: "('a) dict_scheme \<Rightarrow> 64 word" where
  "dictSize d = ht_used d 0 + ht_used d 1"

definition dictIsRehashing :: "('a) dict_scheme \<Rightarrow> bool" where
  "dictIsRehashing d \<longleftrightarrow> rehashidx d \<noteq> -1"

definition dictPauseRehashing :: "('a) dict_scheme \<Rightarrow> ('a) dict_scheme" where
  "dictPauseRehashing d = d\<lparr>pauserehash := pauserehash d + 1\<rparr>"

definition dictResumeRehashing :: "('a) dict_scheme \<Rightarrow> ('a) dict_scheme" where
  "dictResumeRehashing d = d\<lparr>pauserehash := pauserehash d - 1\<rparr>"

text \<open>Buckets.\<close>

definition bucket :: "('a) dict_scheme \<Rightarrow> nat \<Rightarrow> nat \<Rightarrow> ref list option" where
  "bucket d t i = do {
     (a, T) \<leftarrow> ht_table d t;
     if i < length T then Some (T ! i) else None
   }"

definition set_bucket :: "('a) dict_scheme \<Rightarrow> nat \<Rightarrow> nat \<Rightarrow> ref list \<Rightarrow> ('a) dict_scheme option" where
  "set_bucket d t i c = do {
     (a, T) \<leftarrow> ht_table d t;
     if i < length T then Some (d\<lparr>ht_table := (ht_table d)(t := Some (a, T[i := c]))\<rparr>) else None
   }"

definition add_used :: "nat \<Rightarrow> 64 word \<Rightarrow> ('a) dict_scheme \<Rightarrow> ('a) dict_scheme" where
  "add_used t n d = d\<lparr>ht_used := (ht_used d)(t := ht_used d t + n)\<rparr>"

definition udiv :: "64 word \<Rightarrow> 64 word \<Rightarrow> 64 word option" where
  "udiv a b = (if b = 0 then None else Some (a div b))"

definition check :: "bool \<Rightarrow> unit option" where
  "check b = (if b then Some () else None)"

subsection \<open>Entry pointers\<close>

definition ENTRY_PTR_MASK :: "64 word" where
  "ENTRY_PTR_MASK = 7"

definition ENTRY_PTR_NORMAL :: "64 word" where
  "ENTRY_PTR_NORMAL = 0"

definition ENTRY_PTR_NO_VALUE :: "64 word" where
  "ENTRY_PTR_NO_VALUE = 2"

definition entryIsKey :: "ref \<Rightarrow> bool" where
  "entryIsKey de \<longleftrightarrow> de AND 1 \<noteq> 0"

definition entryIsNormal :: "ref \<Rightarrow> bool" where
  "entryIsNormal de \<longleftrightarrow> de AND ENTRY_PTR_MASK = ENTRY_PTR_NORMAL"

definition entryIsNoValue :: "ref \<Rightarrow> bool" where
  "entryIsNoValue de \<longleftrightarrow> de AND ENTRY_PTR_MASK = ENTRY_PTR_NO_VALUE"

definition entryHasValue :: "ref \<Rightarrow> bool" where
  "entryHasValue de \<longleftrightarrow> entryIsNormal de"

definition encodeMaskedPtr :: "ref \<Rightarrow> 64 word \<Rightarrow> ref option" where
  "encodeMaskedPtr p bits = do {
     _ \<leftarrow> check (p AND ENTRY_PTR_MASK = 0);
     Some (p OR bits)
   }"

definition decodeMaskedPtr :: "ref \<Rightarrow> ref option" where
  "decodeMaskedPtr de = do {
     _ \<leftarrow> check (\<not> entryIsKey de);
     Some (de AND NOT ENTRY_PTR_MASK)
   }"

text \<open>The fields behind an entry pointer, read with the layout its tag calls for.\<close>

definition decodeEntryNoValue :: "dstate \<Rightarrow> ref \<Rightarrow> dentry option" where
  "decodeEntryNoValue s de = do {
     p \<leftarrow> decodeMaskedPtr de;
     e \<leftarrow> store s p;
     case e of DictEntryNoValue k \<Rightarrow> Some e | DictEntry k v \<Rightarrow> None
   }"

definition normal_entry :: "dstate \<Rightarrow> ref \<Rightarrow> (ref \<times> 64 word) option" where
  "normal_entry s de = do {
     e \<leftarrow> store s de;
     case e of DictEntry k v \<Rightarrow> Some (k, v) | DictEntryNoValue k \<Rightarrow> None
   }"

definition dictGetKey :: "dstate \<Rightarrow> ref \<Rightarrow> ref option" where
  "dictGetKey s de =
    (if entryIsKey de then Some de
     else if entryIsNoValue de then do {
       e \<leftarrow> decodeEntryNoValue s de;
       case e of DictEntryNoValue k \<Rightarrow> Some k | DictEntry k v \<Rightarrow> None
     }
     else map_option fst (normal_entry s de))"

definition dictGetVal :: "dstate \<Rightarrow> ref \<Rightarrow> 64 word option" where
  "dictGetVal s de = do {
     _ \<leftarrow> check (entryHasValue de);
     map_option snd (normal_entry s de)
   }"

definition dictGetNext :: "dstate \<Rightarrow> ref list \<Rightarrow> ref list option" where
  "dictGetNext s c =
    (case c of
       [] \<Rightarrow> None
     | de # next \<Rightarrow>
         if entryIsKey de then Some []
         else if entryIsNoValue de then do { _ \<leftarrow> decodeEntryNoValue s de; Some next }
         else do { _ \<leftarrow> normal_entry s de; Some next })"

definition dictSetNext :: "dstate \<Rightarrow> ref \<Rightarrow> ref list \<Rightarrow> ref list option" where
  "dictSetNext s de next = do {
     _ \<leftarrow> check (\<not> entryIsKey de);
     if entryIsNoValue de then do { _ \<leftarrow> decodeEntryNoValue s de; Some (de # next) }
     else do { _ \<leftarrow> normal_entry s de; Some (de # next) }
   }"

definition createEntryNoValue :: "denv \<Rightarrow> dstate \<Rightarrow> ref \<Rightarrow> ref list \<Rightarrow> (dstate \<times> ref list) option" where
  "createEntryNoValue env s key next = do {
     (a, junk) \<leftarrow> new_entry env s;
     Some (s\<lparr>store := (store s)(a \<mapsto> DictEntryNoValue key)\<rparr>, (a OR ENTRY_PTR_NO_VALUE) # next)
   }"

definition zfree_entry :: "dstate \<Rightarrow> ref \<Rightarrow> dstate option" where
  "zfree_entry s de = do {
     p \<leftarrow> decodeMaskedPtr de;
     _ \<leftarrow> store s p;
     Some (s\<lparr>store := (store s)(p := None)\<rparr>)
   }"

lemma dictGetNext_length: "dictGetNext s (de # c) = Some n \<Longrightarrow> length n \<le> length c"
  by (auto simp: dictGetNext_def split: if_splits bind_splits)

subsection \<open>Values\<close>

definition set_normal :: "dstate \<Rightarrow> ref \<Rightarrow> (ref \<Rightarrow> 64 word \<Rightarrow> dentry) \<Rightarrow> dstate option" where
  "set_normal s de f = do {
     (k, v) \<leftarrow> normal_entry s de;
     Some (s\<lparr>store := (store s)(de \<mapsto> f k v)\<rparr>)
   }"

definition dictSetKey :: "dstate \<Rightarrow> ref \<Rightarrow> ref \<Rightarrow> dstate option" where
  "dictSetKey s de key = do {
     _ \<leftarrow> check (\<not> no_value (dtype s));
     set_normal s de (\<lambda>k v. DictEntry (case keyDup (dtype s) of Some f \<Rightarrow> f key | None \<Rightarrow> key) v)
   }"

definition dictSetVal :: "dstate \<Rightarrow> ref \<Rightarrow> ref \<Rightarrow> dstate option" where
  "dictSetVal s de val = do {
     _ \<leftarrow> check (entryHasValue de);
     set_normal s de (\<lambda>k v. DictEntry k (case valDup (dtype s) of Some f \<Rightarrow> f val | None \<Rightarrow> val))
   }"

definition dictSetSignedIntegerVal :: "dstate \<Rightarrow> ref \<Rightarrow> int \<Rightarrow> dstate option" where
  "dictSetSignedIntegerVal s de val = do {
     _ \<leftarrow> check (entryHasValue de);
     set_normal s de (\<lambda>k v. DictEntry k (word_of_int val))
   }"

definition dictSetUnsignedIntegerVal :: "dstate \<Rightarrow> ref \<Rightarrow> 64 word \<Rightarrow> dstate option" where
  "dictSetUnsignedIntegerVal s de val = do {
     _ \<leftarrow> check (entryHasValue de);
     set_normal s de (\<lambda>k v. DictEntry k val)
   }"

definition dictGetSignedIntegerVal :: "dstate \<Rightarrow> ref \<Rightarrow> int option" where
  "dictGetSignedIntegerVal s de = map_option sint (dictGetVal s de)"

definition dictGetUnsignedIntegerVal :: "dstate \<Rightarrow> ref \<Rightarrow> 64 word option" where
  "dictGetUnsignedIntegerVal s de = dictGetVal s de"

text \<open>The signed increment is undefined when it leaves the range.\<close>

definition dictIncrSignedIntegerVal :: "dstate \<Rightarrow> ref \<Rightarrow> int \<Rightarrow> (dstate \<times> int) option" where
  "dictIncrSignedIntegerVal s de val = do {
     old \<leftarrow> dictGetSignedIntegerVal s de;
     _ \<leftarrow> check (in_i64 (old + val));
     s \<leftarrow> dictSetSignedIntegerVal s de (old + val);
     Some (s, old + val)
   }"

definition dictIncrUnsignedIntegerVal :: "dstate \<Rightarrow> ref \<Rightarrow> 64 word \<Rightarrow> (dstate \<times> 64 word) option" where
  "dictIncrUnsignedIntegerVal s de val = do {
     old \<leftarrow> dictGetUnsignedIntegerVal s de;
     s \<leftarrow> dictSetUnsignedIntegerVal s de (old + val);
     Some (s, old + val)
   }"

subsection \<open>Creation and resizing\<close>

definition dictReset :: "nat \<Rightarrow> ('a) dict_scheme \<Rightarrow> ('a) dict_scheme" where
  "dictReset htidx d =
    d\<lparr>ht_table := (ht_table d)(htidx := None), ht_size_exp := (ht_size_exp d)(htidx := -1), ht_used := (ht_used d)(htidx := 0)\<rparr>"

definition dictInit :: "dictType \<Rightarrow> ('a) dict_scheme \<Rightarrow> ('a) dict_scheme" where
  "dictInit type d = (dictReset 1 (dictReset 0 d))\<lparr>dtype := type, rehashidx := -1, pauserehash := 0\<rparr>"

text \<open>The new structure is uninitialised before \<^verbatim>\<open>_dictInit\<close>.\<close>

definition dictCreate :: "dictType \<Rightarrow> ('a) dict_scheme \<Rightarrow> ('a) dict_scheme" where
  "dictCreate type junk = dictInit type junk"

function dictNextExp_loop :: "64 word \<Rightarrow> nat \<Rightarrow> nat option" where
  "dictNextExp_loop sz e =
    (if e \<ge> 64 then None
     else if push_bit e 1 \<ge> sz then Some e
     else dictNextExp_loop sz (e + 1))"
  by pat_completeness auto

termination dictNextExp_loop
  by (relation "measure (\<lambda>(sz, e). 64 - e)") auto

declare dictNextExp_loop.simps [simp del]

definition LONG_MAX :: "64 word" where
  "LONG_MAX = 2 ^ 63 - 1"

definition dictNextExp :: "64 word \<Rightarrow> nat option" where
  "dictNextExp sz = (if sz \<ge> LONG_MAX then Some 63 else dictNextExp_loop sz DICT_HT_INITIAL_EXP)"

text \<open>
  The result is \<^verbatim>\<open>DICT_OK\<close> or not, and the value of \<^verbatim>\<open>*malloc_failed\<close>; \<open>try\<close> says that the pointer is not \<^verbatim>\<open>NULL\<close>.
\<close>

definition dictExpand_at :: "denv \<Rightarrow> dstate \<Rightarrow> 64 word \<Rightarrow> bool \<Rightarrow> (dstate \<times> bool \<times> bool) option" where
  "dictExpand_at env s sz try =
    (if dictIsRehashing s \<or> ht_used s 0 > sz then Some (s, False, False)
     else do {
       e \<leftarrow> dictNextExp sz;
       let newsize = (push_bit e 1 :: 64 word);
       if newsize < sz \<or> newsize * 8 < newsize then Some (s, False, False)
       else if int e = ht_size_exp s 0 then Some (s, False, False)
       else (case new_table env s (newsize * 8) of
           None \<Rightarrow> if try then Some (s, False, True) else None
         | Some a \<Rightarrow>
             let T = Some (a, replicate (unat newsize) []) in
             if ht_table s 0 = None then
               Some (s\<lparr>ht_size_exp := (ht_size_exp s)(0 := int e), ht_used := (ht_used s)(0 := 0),
                 ht_table := (ht_table s)(0 := T)\<rparr>, True, False)
             else
               Some (s\<lparr>ht_size_exp := (ht_size_exp s)(1 := int e), ht_used := (ht_used s)(1 := 0),
                 ht_table := (ht_table s)(1 := T), rehashidx := 0\<rparr>, True, False))
     })"

definition dictExpand :: "denv \<Rightarrow> dstate \<Rightarrow> 64 word \<Rightarrow> (dstate \<times> bool) option" where
  "dictExpand env s sz = map_option (\<lambda>(s, ok, failed). (s, ok)) (dictExpand_at env s sz False)"

definition dictTryExpand :: "denv \<Rightarrow> dstate \<Rightarrow> 64 word \<Rightarrow> (dstate \<times> bool) option" where
  "dictTryExpand env s sz = map_option (\<lambda>(s, ok, failed). (s, \<not> failed)) (dictExpand_at env s sz True)"

definition dictResize :: "denv \<Rightarrow> dstate \<Rightarrow> (dstate \<times> bool) option" where
  "dictResize env s =
    (if dict_can_resize s \<noteq> DICT_RESIZE_ENABLE \<or> dictIsRehashing s then Some (s, False)
     else
       let minimal = ht_used s 0;
           minimal = (if minimal < DICT_HT_INITIAL_SIZE then DICT_HT_INITIAL_SIZE else minimal)
       in dictExpand env s minimal)"

definition dictTypeExpandAllowed :: "dstate \<Rightarrow> bool option" where
  "dictTypeExpandAllowed s =
    (case expandAllowed (dtype s) of
       None \<Rightarrow> Some True
     | Some f \<Rightarrow> do {
         e \<leftarrow> dictNextExp (ht_used s 0 + 1);
         Some (f (DICTHT_SIZE (int e) * 8) (ht_used s 0) (DICTHT_SIZE (ht_size_exp s 0)))
       })"

definition dictExpandIfNeeded :: "denv \<Rightarrow> dstate \<Rightarrow> (dstate \<times> bool) option" where
  "dictExpandIfNeeded env s =
    (if dictIsRehashing s then Some (s, True)
     else if DICTHT_SIZE (ht_size_exp s 0) = 0 then dictExpand env s DICT_HT_INITIAL_SIZE
     else do {
       allowed \<leftarrow> dictTypeExpandAllowed s;
       if \<not> allowed then Some (s, True)
       else do {
         ratio \<leftarrow> udiv (ht_used s 0) (DICTHT_SIZE (ht_size_exp s 0));
         if (dict_can_resize s = DICT_RESIZE_ENABLE \<and> ht_used s 0 \<ge> DICTHT_SIZE (ht_size_exp s 0)) \<or>
            (dict_can_resize s \<noteq> DICT_RESIZE_FORBID \<and> ratio > dict_force_resize_ratio)
         then dictExpand env s (ht_used s 0 + 1)
         else Some (s, True)
       }
     })"

subsection \<open>Rehashing\<close>

text \<open>The inner loop over empty buckets; the flag says that the budget ran out.\<close>

function rehash_skip :: "dstate \<Rightarrow> int \<Rightarrow> (dstate \<times> int \<times> bool) option" where
  "rehash_skip s empty_visits =
    (if rehashidx s < 0 then None
     else case bucket s 0 (nat (rehashidx s)) of
       None \<Rightarrow> None
     | Some c \<Rightarrow>
         if c = [] then
           (let s = s\<lparr>rehashidx := rehashidx s + 1\<rparr>; empty_visits = empty_visits - 1 in
            if empty_visits = 0 then Some (s, empty_visits, True) else rehash_skip s empty_visits)
         else Some (s, empty_visits, False))"
  by pat_completeness auto

termination rehash_skip
  by (relation "measure (\<lambda>(s, ev). length (snd (the (ht_table s 0))) - nat (rehashidx s))")
    (auto simp: bucket_def split: bind_splits if_splits)

declare rehash_skip.simps [simp del]

text \<open>The entry that goes to the destination bucket, by kind of entry and of type.\<close>

definition rehash_place :: "denv \<Rightarrow> dstate \<Rightarrow> ref \<Rightarrow> ref \<Rightarrow> ref list \<Rightarrow> (dstate \<times> ref list) option" where
  "rehash_place env s de key dst =
    (if no_value (dtype s) then
       if keys_are_odd (dtype s) \<and> dst = [] then do {
         _ \<leftarrow> check (entryIsKey key);
         s \<leftarrow> (if \<not> entryIsKey de then zfree_entry s de else Some s);
         Some (s, [key])
       }
       else if entryIsKey de then createEntryNoValue env s key dst
       else do {
         _ \<leftarrow> check (entryIsNoValue de);
         c \<leftarrow> dictSetNext s de dst;
         Some (s, c)
       }
     else do {
       c \<leftarrow> dictSetNext s de dst;
       Some (s, c)
     })"

text \<open>One entry of the bucket, and the loop over the bucket.\<close>

definition rehash_one :: "denv \<Rightarrow> dstate \<Rightarrow> ref \<Rightarrow> dstate option" where
  "rehash_one env s de = do {
     key \<leftarrow> dictGetKey s de;
     let h = (if ht_size_exp s 1 > ht_size_exp s 0 then dictHashKey s key AND DICTHT_SIZE_MASK (ht_size_exp s 1)
              else word_of_int (rehashidx s) AND DICTHT_SIZE_MASK (ht_size_exp s 1));
     dst \<leftarrow> bucket s 1 (unat h);
     (s, c) \<leftarrow> rehash_place env s de key dst;
     s \<leftarrow> set_bucket s 1 (unat h) c;
     Some (add_used 1 1 (add_used 0 (- 1) s))
   }"

function rehash_chain :: "denv \<Rightarrow> dstate \<Rightarrow> ref list \<Rightarrow> dstate option" where
  "rehash_chain env s [] = Some s"
| "rehash_chain env s (de # next) =
    (case dictGetNext s (de # next) of
       None \<Rightarrow> None
     | Some nextde \<Rightarrow> (case rehash_one env s de of None \<Rightarrow> None | Some s \<Rightarrow> rehash_chain env s nextde))"
  by pat_completeness auto

termination rehash_chain
  by (relation "measure (\<lambda>(env, s, c). length c)") (auto dest: dictGetNext_length)

declare rehash_chain.simps(2) [simp del]

primrec rehash_loop :: "nat \<Rightarrow> denv \<Rightarrow> dstate \<Rightarrow> int \<Rightarrow> (dstate \<times> bool) option" where
  "rehash_loop 0 env s empty_visits = Some (s, False)"
| "rehash_loop (Suc n) env s empty_visits =
    (if ht_used s 0 = 0 then Some (s, False)
     else do {
       _ \<leftarrow> check (DICTHT_SIZE (ht_size_exp s 0) > word_of_int (rehashidx s));
       (s, empty_visits, out) \<leftarrow> rehash_skip s empty_visits;
       if out then Some (s, True)
       else do {
         de \<leftarrow> bucket s 0 (nat (rehashidx s));
         s \<leftarrow> rehash_chain env s de;
         s \<leftarrow> set_bucket s 0 (nat (rehashidx s)) [];
         rehash_loop n env (s\<lparr>rehashidx := rehashidx s + 1\<rparr>) empty_visits
       }
     })"

text \<open>While a child process is alive, tables of similar size are left alone.\<close>

definition rehash_near :: "dstate \<Rightarrow> bool option" where
  "rehash_near s =
    (let s0 = DICTHT_SIZE (ht_size_exp s 0); s1 = DICTHT_SIZE (ht_size_exp s 1) in
     if dict_can_resize s = DICT_RESIZE_AVOID then
       (if s1 > s0 then map_option (\<lambda>q. q < dict_force_resize_ratio) (udiv s1 s0)
        else if s1 < s0 then map_option (\<lambda>q. q < dict_force_resize_ratio) (udiv s0 s1)
        else Some False)
     else Some False)"

text \<open>The second component is the returned flag: more buckets to move.\<close>

definition dictRehash :: "denv \<Rightarrow> dstate \<Rightarrow> nat \<Rightarrow> (dstate \<times> bool) option" where
  "dictRehash env s n =
    (if int n * 10 \<ge> 2 ^ 31 then None
     else if dict_can_resize s = DICT_RESIZE_FORBID \<or> \<not> dictIsRehashing s then Some (s, False)
     else do {
       near \<leftarrow> rehash_near s;
       if near then Some (s, False)
       else do {
         (s, out) \<leftarrow> rehash_loop n env s (int n * 10);
         if out then Some (s, True)
         else if ht_used s 0 = 0 then
           (let s = s\<lparr>ht_table := (ht_table s)(0 := ht_table s 1), ht_used := (ht_used s)(0 := ht_used s 1),
                ht_size_exp := (ht_size_exp s)(0 := ht_size_exp s 1)\<rparr>
            in Some ((dictReset 1 s)\<lparr>rehashidx := -1\<rparr>, False))
         else Some (s, True)
       }
     })"

text \<open>The clock is read once before the loop and once after each call that leaves work.\<close>

partial_function (option) rehash_ms_loop ::
  "denv \<Rightarrow> (nat \<Rightarrow> int) \<Rightarrow> int \<Rightarrow> nat \<Rightarrow> dstate \<Rightarrow> int \<Rightarrow> (dstate \<times> int) option" where
  "rehash_ms_loop env clock ms tick s rehashes = do {
     (s, more) \<leftarrow> dictRehash env s 100;
     if \<not> more then Some (s, rehashes)
     else if clock tick - clock 0 > ms then Some (s, rehashes + 100)
     else rehash_ms_loop env clock ms (tick + 1) s (rehashes + 100)
   }"

definition dictRehashMilliseconds :: "denv \<Rightarrow> (nat \<Rightarrow> int) \<Rightarrow> dstate \<Rightarrow> int \<Rightarrow> (dstate \<times> int) option" where
  "dictRehashMilliseconds env clock s ms =
    (if sint (pauserehash s) > 0 then Some (s, 0) else rehash_ms_loop env clock ms 1 s 0)"

definition dictRehashStep :: "denv \<Rightarrow> dstate \<Rightarrow> dstate option" where
  "dictRehashStep env s = (if pauserehash s = 0 then map_option fst (dictRehash env s 1) else Some s)"

abbreviation step_if_rehashing :: "denv \<Rightarrow> dstate \<Rightarrow> dstate option" where
  "step_if_rehashing env s \<equiv> (if dictIsRehashing s then dictRehashStep env s else Some s)"

subsection \<open>Lookup\<close>

definition key_eq :: "('a) dict_scheme \<Rightarrow> ref \<Rightarrow> ref \<Rightarrow> bool" where
  "key_eq d key he_key \<longleftrightarrow> key = he_key \<or> dictCompareKeys d key he_key"

text \<open>The loop along a chain: the entry that has the key, as a cursor.\<close>

function chain_find :: "dstate \<Rightarrow> (ref \<Rightarrow> bool) \<Rightarrow> ref list \<Rightarrow> ref list option" where
  "chain_find s P [] = Some []"
| "chain_find s P (he # next) =
    (case dictGetKey s he of
       None \<Rightarrow> None
     | Some he_key \<Rightarrow>
         if P he_key then Some (he # next)
         else (case dictGetNext s (he # next) of None \<Rightarrow> None | Some he \<Rightarrow> chain_find s P he))"
  by pat_completeness auto

termination chain_find
  by (relation "measure (\<lambda>(s, P, c). length c)") (auto dest: dictGetNext_length)

declare chain_find.simps(2) [simp del]

definition hash_index :: "dstate \<Rightarrow> 64 word \<Rightarrow> nat \<Rightarrow> nat" where
  "hash_index s h t = unat (h AND DICTHT_SIZE_MASK (ht_size_exp s t))"

text \<open>The loop over the tables: table, bucket and cursor of the entry, or the last table and bucket looked at.\<close>

definition tables_find :: "dstate \<Rightarrow> (ref \<Rightarrow> bool) \<Rightarrow> 64 word \<Rightarrow> (nat \<times> nat \<times> ref list) option" where
  "tables_find s P h = do {
     c \<leftarrow> bucket s 0 (hash_index s h 0);
     r \<leftarrow> chain_find s P c;
     if r \<noteq> [] \<or> \<not> dictIsRehashing s then Some (0, hash_index s h 0, r)
     else do {
       c \<leftarrow> bucket s 1 (hash_index s h 1);
       r \<leftarrow> chain_find s P c;
       Some (1, hash_index s h 1, r)
     }
   }"

definition ptr_of :: "ref list \<Rightarrow> ref option" where
  "ptr_of c = (case c of [] \<Rightarrow> None | de # next \<Rightarrow> Some de)"

definition dictFind :: "denv \<Rightarrow> dstate \<Rightarrow> ref \<Rightarrow> (dstate \<times> ref option) option" where
  "dictFind env s key =
    (if dictSize s = 0 then Some (s, None)
     else do {
       s \<leftarrow> step_if_rehashing env s;
       (t, i, c) \<leftarrow> tables_find s (key_eq s key) (dictHashKey s key);
       Some (s, ptr_of c)
     })"

text \<open>An absent key gives \<^verbatim>\<open>NULL\<close>, which a stored value may also be.\<close>

definition dictFetchValue :: "denv \<Rightarrow> dstate \<Rightarrow> ref \<Rightarrow> (dstate \<times> ref) option" where
  "dictFetchValue env s key = do {
     (s, he) \<leftarrow> dictFind env s key;
     case he of
       None \<Rightarrow> Some (s, 0)
     | Some he \<Rightarrow> do { v \<leftarrow> dictGetVal s he; Some (s, v) }
   }"

definition dictGetHash :: "dstate \<Rightarrow> ref \<Rightarrow> 64 word" where
  "dictGetHash s key = dictHashKey s key"

definition dictFindEntryByPtrAndHash :: "dstate \<Rightarrow> ref \<Rightarrow> 64 word \<Rightarrow> ref option option" where
  "dictFindEntryByPtrAndHash s oldptr hash =
    (if dictSize s = 0 then Some None
     else do {
       (t, i, c) \<leftarrow> tables_find s (\<lambda>he_key. oldptr = he_key) hash;
       Some (ptr_of c)
     })"

subsection \<open>Insertion\<close>

text \<open>The position is a table and a bucket; the second result is \<^verbatim>\<open>*existing\<close>.\<close>

definition dictFindPositionForInsert :: "denv \<Rightarrow> dstate \<Rightarrow> ref \<Rightarrow> (dstate \<times> (nat \<times> nat) option \<times> ref option) option" where
  "dictFindPositionForInsert env s key = do {
     let hash = dictHashKey s key;
     s \<leftarrow> step_if_rehashing env s;
     (s, ok) \<leftarrow> dictExpandIfNeeded env s;
     if \<not> ok then Some (s, None, None)
     else do {
       (t, idx, c) \<leftarrow> tables_find s (key_eq s key) hash;
       if c \<noteq> [] then Some (s, None, ptr_of c)
       else Some (s, Some (if dictIsRehashing s then 1 else 0, idx), None)
     }
   }"

definition dictInsertAtPosition :: "denv \<Rightarrow> dstate \<Rightarrow> ref \<Rightarrow> nat \<times> nat \<Rightarrow> (dstate \<times> ref) option" where
  "dictInsertAtPosition env s key position = do {
     let (t, idx) = position;
     let htidx = (if dictIsRehashing s then 1 else 0);
     _ \<leftarrow> check (t = htidx \<and> idx \<le> unat (DICTHT_SIZE_MASK (ht_size_exp s htidx)));
     let metasize = dictEntryMetadataBytes (dtype s);
     next \<leftarrow> bucket s t idx;
     (s, c) \<leftarrow>
       (if no_value (dtype s) then do {
          _ \<leftarrow> check (metasize = 0);
          if keys_are_odd (dtype s) \<and> next = [] then do {
            _ \<leftarrow> check (entryIsKey key);
            Some (s, [key])
          } else createEntryNoValue env s key next
        } else do {
          (a, junk) \<leftarrow> new_entry env s;
          _ \<leftarrow> check (entryIsNormal a);
          Some (s\<lparr>store := (store s)(a \<mapsto> DictEntry key junk)\<rparr>, a # next)
        });
     s \<leftarrow> set_bucket s t idx c;
     Some (add_used htidx 1 s, hd c)
   }"

definition dictAddRaw :: "denv \<Rightarrow> dstate \<Rightarrow> ref \<Rightarrow> (dstate \<times> ref option \<times> ref option) option" where
  "dictAddRaw env s key = do {
     (s, position, existing) \<leftarrow> dictFindPositionForInsert env s key;
     case position of
       None \<Rightarrow> Some (s, None, existing)
     | Some position \<Rightarrow> do {
         (s, entry) \<leftarrow>
           dictInsertAtPosition env s (case keyDup (dtype s) of Some f \<Rightarrow> f key | None \<Rightarrow> key) position;
         Some (s, Some entry, existing)
       }
   }"

definition dictAdd :: "denv \<Rightarrow> dstate \<Rightarrow> ref \<Rightarrow> ref \<Rightarrow> (dstate \<times> bool) option" where
  "dictAdd env s key val = do {
     (s, entry, existing) \<leftarrow> dictAddRaw env s key;
     case entry of
       None \<Rightarrow> Some (s, False)
     | Some entry \<Rightarrow> do {
         s \<leftarrow> (if \<not> no_value (dtype s) then dictSetVal s entry val else Some s);
         Some (s, True)
       }
   }"

text \<open>When \<^verbatim>\<open>dictAddRaw\<close> neither adds nor finds an entry, the code reads through \<^verbatim>\<open>NULL\<close>.\<close>

definition dictReplace :: "denv \<Rightarrow> dstate \<Rightarrow> ref \<Rightarrow> ref \<Rightarrow> (dstate \<times> bool) option" where
  "dictReplace env s key val = do {
     (s, entry, existing) \<leftarrow> dictAddRaw env s key;
     case entry of
       Some entry \<Rightarrow> do {
         s \<leftarrow> dictSetVal s entry val;
         Some (s, True)
       }
     | None \<Rightarrow> do {
         existing \<leftarrow> existing;
         oldval \<leftarrow> dictGetVal s existing;
         s \<leftarrow> dictSetVal s existing val;
         Some (if valDestructor (dtype s) then s\<lparr>freedVals := freedVals s @ [oldval]\<rparr> else s, False)
       }
   }"

definition dictAddOrFind :: "denv \<Rightarrow> dstate \<Rightarrow> ref \<Rightarrow> (dstate \<times> ref option) option" where
  "dictAddOrFind env s key = do {
     (s, entry, existing) \<leftarrow> dictAddRaw env s key;
     Some (s, if entry \<noteq> None then entry else existing)
   }"

subsection \<open>Removal\<close>

definition dictFreeKey :: "dstate \<Rightarrow> ref \<Rightarrow> dstate option" where
  "dictFreeKey s entry =
    (if keyDestructor (dtype s) then do {
       k \<leftarrow> dictGetKey s entry;
       Some (s\<lparr>freedKeys := freedKeys s @ [k]\<rparr>)
     } else Some s)"

definition dictFreeVal :: "dstate \<Rightarrow> ref \<Rightarrow> dstate option" where
  "dictFreeVal s entry =
    (if valDestructor (dtype s) then do {
       v \<leftarrow> dictGetVal s entry;
       Some (s\<lparr>freedVals := freedVals s @ [v]\<rparr>)
     } else Some s)"

definition dictFreeUnlinkedEntry :: "dstate \<Rightarrow> ref option \<Rightarrow> dstate option" where
  "dictFreeUnlinkedEntry s he =
    (case he of
       None \<Rightarrow> Some s
     | Some he \<Rightarrow> do {
         s \<leftarrow> dictFreeKey s he;
         s \<leftarrow> dictFreeVal s he;
         if \<not> entryIsKey he then zfree_entry s he else Some s
       })"

text \<open>The chain without the entry that has the key.\<close>

function chain_unlink :: "dstate \<Rightarrow> (ref \<Rightarrow> bool) \<Rightarrow> ref list \<Rightarrow> (ref list \<times> ref option) option" where
  "chain_unlink s P [] = Some ([], None)"
| "chain_unlink s P (he # next) =
    (case dictGetKey s he of
       None \<Rightarrow> None
     | Some he_key \<Rightarrow>
         (case dictGetNext s (he # next) of
            None \<Rightarrow> None
          | Some n \<Rightarrow>
              if P he_key then Some (n, Some he)
              else (case chain_unlink s P n of
                  None \<Rightarrow> None
                | Some (n', None) \<Rightarrow> Some (he # next, None)
                | Some (n', Some r) \<Rightarrow> map_option (\<lambda>c. (c, Some r)) (dictSetNext s he n'))))"
  by pat_completeness auto

termination chain_unlink
  by (relation "measure (\<lambda>(s, P, c). length c)") (auto dest: dictGetNext_length)

declare chain_unlink.simps(2) [simp del]

definition unlink_in :: "dstate \<Rightarrow> ref \<Rightarrow> nat \<Rightarrow> bool \<Rightarrow> (dstate \<times> ref option) option" where
  "unlink_in s key t nofree = do {
     let idx = hash_index s (dictHashKey s key) t;
     c \<leftarrow> bucket s t idx;
     (c, he) \<leftarrow> chain_unlink s (key_eq s key) c;
     case he of
       None \<Rightarrow> Some (s, None)
     | Some he \<Rightarrow> do {
         s \<leftarrow> set_bucket s t idx c;
         s \<leftarrow> (if \<not> nofree then dictFreeUnlinkedEntry s (Some he) else Some s);
         Some (add_used t (- 1) s, Some he)
       }
   }"

definition dictGenericDelete :: "denv \<Rightarrow> dstate \<Rightarrow> ref \<Rightarrow> bool \<Rightarrow> (dstate \<times> ref option) option" where
  "dictGenericDelete env s key nofree =
    (if dictSize s = 0 then Some (s, None)
     else do {
       s \<leftarrow> step_if_rehashing env s;
       (s, he) \<leftarrow> unlink_in s key 0 nofree;
       if he \<noteq> None \<or> \<not> dictIsRehashing s then Some (s, he)
       else unlink_in s key 1 nofree
     })"

definition dictDelete :: "denv \<Rightarrow> dstate \<Rightarrow> ref \<Rightarrow> (dstate \<times> bool) option" where
  "dictDelete env s key = map_option (\<lambda>(s, he). (s, he \<noteq> None)) (dictGenericDelete env s key False)"

definition dictUnlink :: "denv \<Rightarrow> dstate \<Rightarrow> ref \<Rightarrow> (dstate \<times> ref option) option" where
  "dictUnlink env s key = dictGenericDelete env s key True"

text \<open>\<^verbatim>\<open>plink\<close> is a table, a bucket and the number of links to follow on its chain.\<close>

definition dictTwoPhaseUnlinkFind :: "denv \<Rightarrow> dstate \<Rightarrow> ref \<Rightarrow> (dstate \<times> (ref \<times> nat \<times> nat \<times> nat) option) option" where
  "dictTwoPhaseUnlinkFind env s key =
    (if dictSize s = 0 then Some (s, None)
     else do {
       s \<leftarrow> step_if_rehashing env s;
       (t, i, c) \<leftarrow> tables_find s (key_eq s key) (dictHashKey s key);
       case c of
         [] \<Rightarrow> Some (s, None)
       | he # next \<Rightarrow> do {
           whole \<leftarrow> bucket s t i;
           Some (dictPauseRehashing s, Some (he, t, i, length whole - length c))
         }
     })"

definition dictTwoPhaseUnlinkFree :: "dstate \<Rightarrow> (ref \<times> nat \<times> nat \<times> nat) option \<Rightarrow> dstate option" where
  "dictTwoPhaseUnlinkFree s found =
    (case found of
       None \<Rightarrow> Some s
     | Some (he, t, i, n) \<Rightarrow> do {
         let s = add_used t (- 1) s;
         c \<leftarrow> bucket s t i;
         _ \<leftarrow> check (n < length c \<and> c ! n = he);
         next \<leftarrow> dictGetNext s (drop n c);
         s \<leftarrow> set_bucket s t i (take n c @ next);
         s \<leftarrow> dictFreeUnlinkedEntry s (Some he);
         Some (dictResumeRehashing s)
       })"

text \<open>Clearing: the chain of a bucket, and the loop over the buckets.\<close>

function clear_chain :: "nat \<Rightarrow> dstate \<Rightarrow> ref list \<Rightarrow> dstate option" where
  "clear_chain t s [] = Some s"
| "clear_chain t s (he # next) =
    (case dictGetNext s (he # next) of
       None \<Rightarrow> None
     | Some nextHe \<Rightarrow>
         (case dictFreeUnlinkedEntry s (Some he) of
            None \<Rightarrow> None
          | Some s \<Rightarrow> clear_chain t (add_used t (- 1) s) nextHe))"
  by pat_completeness auto

termination clear_chain
  by (relation "measure (\<lambda>(t, s, c). length c)") (auto dest: dictGetNext_length)

declare clear_chain.simps(2) [simp del]

lemma clear_chain_size_exp: "clear_chain t s c = Some s' \<Longrightarrow> ht_size_exp s' = ht_size_exp s"
proof (induction t s c rule: clear_chain.induct)
  case (2 t s he rest)
  have free: "dictFreeUnlinkedEntry s (Some he) = Some s1 \<Longrightarrow> ht_size_exp s1 = ht_size_exp s" for s1
    by (auto simp: dictFreeUnlinkedEntry_def dictFreeKey_def dictFreeVal_def zfree_entry_def
        split: bind_splits if_splits)
  from "2.prems" obtain c s1 where "dictGetNext s (he # rest) = Some c" "dictFreeUnlinkedEntry s (Some he) = Some s1"
    "clear_chain t (add_used t (- 1) s1) c = Some s'"
    by (auto simp: clear_chain.simps(2) split: option.splits)
  from "2.IH" [OF this] free [OF this(2)] show ?case by (simp add: add_used_def)
qed simp

function clear_loop :: "nat \<Rightarrow> dstate \<Rightarrow> nat \<Rightarrow> dstate option" where
  "clear_loop t s i =
    (if i < unat (DICTHT_SIZE (ht_size_exp s t)) \<and> ht_used s t > 0 then
       (case Option.bind (bucket s t i) (clear_chain t s) of
          None \<Rightarrow> None
        | Some s \<Rightarrow> clear_loop t s (i + 1))
     else Some s)"
  by pat_completeness auto

termination clear_loop
proof (relation "measure (\<lambda>(t, s, i). unat (DICTHT_SIZE (ht_size_exp s t)) - i)", goal_cases)
  case (2 t s i s')
  then have "ht_size_exp s' = ht_size_exp s" by (auto dest: clear_chain_size_exp split: bind_splits)
  with 2 show ?case by (auto intro: diff_less_mono2)
qed simp

declare clear_loop.simps [simp del]

definition dictClear :: "dstate \<Rightarrow> nat \<Rightarrow> dstate option" where
  "dictClear s htidx = map_option (dictReset htidx) (clear_loop htidx s 0)"

definition dictRelease :: "dstate \<Rightarrow> dstate option" where
  "dictRelease s = Option.bind (dictClear s 0) (\<lambda>s. dictClear s 1)"

definition dictEmpty :: "dstate \<Rightarrow> dstate option" where
  "dictEmpty s = do {
     s \<leftarrow> dictClear s 0;
     s \<leftarrow> dictClear s 1;
     Some (s\<lparr>rehashidx := -1, pauserehash := 0\<rparr>)
   }"

definition dictSetResizeEnabled :: "dictResizeEnable \<Rightarrow> dstate \<Rightarrow> dstate" where
  "dictSetResizeEnabled enable s = s\<lparr>dict_can_resize := enable\<rparr>"

definition dictMemUsage :: "dstate \<Rightarrow> 64 word" where
  "dictMemUsage s = dictSize s * 24 + dictSlots s * 8"

subsection \<open>Iterators\<close>

record dictIterator =
  it_index :: int
  it_table :: nat
  it_safe :: bool
  it_entry :: "ref list"
  it_nextEntry :: "ref list"
  it_fingerprint :: "64 word"

definition fingerprint_mix :: "64 word \<Rightarrow> 64 word \<Rightarrow> 64 word" where
  "fingerprint_mix hash n =
    (let hash = hash + n;
         hash = NOT hash + push_bit 21 hash;
         hash = hash XOR drop_bit 24 hash;
         hash = (hash + push_bit 3 hash) + push_bit 8 hash;
         hash = hash XOR drop_bit 14 hash;
         hash = (hash + push_bit 2 hash) + push_bit 4 hash;
         hash = hash XOR drop_bit 28 hash
     in hash + push_bit 31 hash)"

definition dictFingerprint :: "dstate \<Rightarrow> 64 word" where
  "dictFingerprint s =
    (let addr = (\<lambda>t. case ht_table s t of None \<Rightarrow> 0 | Some (a, T) \<Rightarrow> a)
     in foldl fingerprint_mix 0
       [addr 0, word_of_int (ht_size_exp s 0), ht_used s 0, addr 1, word_of_int (ht_size_exp s 1), ht_used s 1])"

text \<open>The fingerprint of a new iterator is uninitialised.\<close>

definition dictInitIterator :: "64 word \<Rightarrow> dictIterator" where
  "dictInitIterator junk =
    \<lparr>it_index = -1, it_table = 0, it_safe = False, it_entry = [], it_nextEntry = [], it_fingerprint = junk\<rparr>"

definition dictInitSafeIterator :: "64 word \<Rightarrow> dictIterator" where
  "dictInitSafeIterator junk = (dictInitIterator junk)\<lparr>it_safe := True\<rparr>"

definition dictResetIterator :: "dstate \<Rightarrow> dictIterator \<Rightarrow> dstate option" where
  "dictResetIterator s iter =
    (if \<not> (it_index iter = -1 \<and> it_table iter = 0) then
       if it_safe iter then Some (dictResumeRehashing s)
       else do { _ \<leftarrow> check (it_fingerprint iter = dictFingerprint s); Some s }
     else Some s)"

partial_function (option) dictNext :: "dstate \<Rightarrow> dictIterator \<Rightarrow> (dstate \<times> dictIterator \<times> ref option) option" where
  "dictNext s iter = do {
     (s, iter, end_reached) \<leftarrow>
       (if it_entry iter = [] then do {
          let begin_now = (it_index iter = -1 \<and> it_table iter = 0);
          let s' = (if begin_now \<and> it_safe iter then dictPauseRehashing s else s);
          let iter = (if begin_now \<and> \<not> it_safe iter then iter\<lparr>it_fingerprint := dictFingerprint s\<rparr> else iter);
          let iter = iter\<lparr>it_index := it_index iter + 1\<rparr>;
          let past = (it_index iter \<ge> sint (DICTHT_SIZE (ht_size_exp s (it_table iter))));
          if past \<and> \<not> (dictIsRehashing s \<and> it_table iter = 0) then Some (s', iter, True)
          else do {
            let iter = (if past then iter\<lparr>it_table := it_table iter + 1, it_index := 0\<rparr> else iter);
            c \<leftarrow> bucket s' (it_table iter) (nat (it_index iter));
            Some (s', iter\<lparr>it_entry := c\<rparr>, False)
          }
        } else Some (s, iter\<lparr>it_entry := it_nextEntry iter\<rparr>, False));
     if end_reached then Some (s, iter, None)
     else if it_entry iter \<noteq> [] then do {
       next \<leftarrow> dictGetNext s (it_entry iter);
       Some (s, iter\<lparr>it_nextEntry := next\<rparr>, ptr_of (it_entry iter))
     }
     else dictNext s iter
   }"

subsection \<open>Random entries\<close>

text \<open>
  \<open>rnd n\<close> is the result of the \<open>n\<close>-th call of \<^verbatim>\<open>randomULong\<close>; the loops draw until they hit a bucket in use.
\<close>

partial_function (option) random_bucket :: "dstate \<Rightarrow> (nat \<Rightarrow> 64 word) \<Rightarrow> nat \<Rightarrow> ref list option" where
  "random_bucket s rnd n = do {
     he \<leftarrow>
       (if dictIsRehashing s then do {
          let s0 = DICTHT_SIZE (ht_size_exp s 0);
          let slots = dictSlots s - word_of_int (rehashidx s);
          _ \<leftarrow> check (slots \<noteq> 0);
          let h = word_of_int (rehashidx s) + rnd n mod slots;
          if h \<ge> s0 then bucket s 1 (unat (h - s0)) else bucket s 0 (unat h)
        } else bucket s 0 (unat (rnd n AND DICTHT_SIZE_MASK (ht_size_exp s 0))));
     if he = [] then random_bucket s rnd (n + 1) else Some he
   }"

function chain_length :: "dstate \<Rightarrow> ref list \<Rightarrow> nat option" where
  "chain_length s [] = Some 0"
| "chain_length s (he # next) =
    (case dictGetNext s (he # next) of None \<Rightarrow> None | Some c \<Rightarrow> map_option Suc (chain_length s c))"
  by pat_completeness auto

termination chain_length
  by (relation "measure (\<lambda>(s, c). length c)") (auto dest: dictGetNext_length)

declare chain_length.simps(2) [simp del]

primrec chain_walk :: "nat \<Rightarrow> dstate \<Rightarrow> ref list \<Rightarrow> ref list option" where
  "chain_walk 0 s he = Some he"
| "chain_walk (Suc n) s he = Option.bind (dictGetNext s he) (chain_walk n s)"

definition dictGetRandomKey :: "denv \<Rightarrow> (nat \<Rightarrow> 64 word) \<Rightarrow> nat \<Rightarrow> dstate \<Rightarrow> (dstate \<times> ref option) option" where
  "dictGetRandomKey env rnd random s =
    (if dictSize s = 0 then Some (s, None)
     else do {
       s \<leftarrow> step_if_rehashing env s;
       orighe \<leftarrow> random_bucket s rnd 0;
       listlen \<leftarrow> chain_length s orighe;
       _ \<leftarrow> check (listlen \<noteq> 0);
       he \<leftarrow> chain_walk (random mod listlen) s orighe;
       Some (s, ptr_of he)
     })"

text \<open>The state of \<^verbatim>\<open>dictGetSomeKeys\<close>: position, run of empty buckets, entries seen, the array and the random numbers drawn.\<close>

record somekeys =
  sk_i :: "64 word"
  sk_emptylen :: "64 word"
  sk_stored :: "64 word"
  sk_des :: "ref list"
  sk_n :: nat

definition sk_put :: "somekeys \<Rightarrow> 64 word \<Rightarrow> ref \<Rightarrow> somekeys option" where
  "sk_put k i he = do {
     _ \<leftarrow> check (unat i < length (sk_des k));
     Some (k\<lparr>sk_des := (sk_des k)[unat i := he]\<rparr>)
   }"

function sk_chain :: "dstate \<Rightarrow> (nat \<Rightarrow> 64 word) \<Rightarrow> 64 word \<Rightarrow> somekeys \<Rightarrow> ref list \<Rightarrow> somekeys option" where
  "sk_chain s rnd cnt k [] = Some k"
| "sk_chain s rnd cnt k (he # next) =
    (case (if sk_stored k < cnt then sk_put k (sk_stored k) he
           else
             let r = rnd (sk_n k) mod (sk_stored k + 1); k = k\<lparr>sk_n := sk_n k + 1\<rparr>
             in if r < cnt then sk_put k r he else Some k) of
       None \<Rightarrow> None
     | Some k \<Rightarrow>
         (case dictGetNext s (he # next) of
            None \<Rightarrow> None
          | Some he \<Rightarrow> sk_chain s rnd cnt (k\<lparr>sk_stored := sk_stored k + 1\<rparr>) he))"
  by pat_completeness auto

termination sk_chain
  by (relation "measure (\<lambda>(s, rnd, cnt, k, c). length c)") (auto dest: dictGetNext_length)

declare sk_chain.simps(2) [simp del]

text \<open>The body for one table; the flag is the jump to the end.\<close>

definition sk_table ::
  "dstate \<Rightarrow> (nat \<Rightarrow> 64 word) \<Rightarrow> 64 word \<Rightarrow> 64 word \<Rightarrow> nat \<Rightarrow> nat \<Rightarrow> somekeys \<Rightarrow> (somekeys \<times> bool) option" where
  "sk_table s rnd cnt maxsizemask tables j k =
    (let behind = (tables = 2 \<and> j = 0 \<and> sk_i k < word_of_int (rehashidx s)) in
     if behind \<and> \<not> (sk_i k \<ge> DICTHT_SIZE (ht_size_exp s 1)) then Some (k, False)
     else
       let k = (if behind then k\<lparr>sk_i := word_of_int (rehashidx s)\<rparr> else k) in
       if sk_i k \<ge> DICTHT_SIZE (ht_size_exp s j) then Some (k, False)
       else do {
         he \<leftarrow> bucket s j (unat (sk_i k));
         if he = [] then
           let k = k\<lparr>sk_emptylen := sk_emptylen k + 1\<rparr> in
           Some (if sk_emptylen k \<ge> 5 \<and> sk_emptylen k > cnt
             then (k\<lparr>sk_i := rnd (sk_n k) AND maxsizemask, sk_emptylen := 0, sk_n := sk_n k + 1\<rparr>, False)
             else (k, False))
         else do {
           k \<leftarrow> sk_chain s rnd cnt (k\<lparr>sk_emptylen := 0\<rparr>) he;
           Some (k, sk_stored k \<ge> cnt)
         }
       })"

primrec sk_loop ::
  "nat \<Rightarrow> dstate \<Rightarrow> (nat \<Rightarrow> 64 word) \<Rightarrow> 64 word \<Rightarrow> 64 word \<Rightarrow> nat \<Rightarrow> somekeys \<Rightarrow> somekeys option" where
  "sk_loop 0 s rnd cnt maxsizemask tables k = Some k"
| "sk_loop (Suc maxsteps) s rnd cnt maxsizemask tables k =
    (if \<not> sk_stored k < cnt then Some k
     else do {
       (k, done) \<leftarrow> sk_table s rnd cnt maxsizemask tables 0 k;
       (k, done) \<leftarrow> (if \<not> done \<and> tables = 2 then sk_table s rnd cnt maxsizemask tables 1 k else Some (k, done));
       if done then Some k
       else sk_loop maxsteps s rnd cnt maxsizemask tables (k\<lparr>sk_i := (sk_i k + 1) AND maxsizemask\<rparr>)
     })"

primrec sk_rehash :: "nat \<Rightarrow> denv \<Rightarrow> dstate \<Rightarrow> dstate option" where
  "sk_rehash 0 env s = Some s"
| "sk_rehash (Suc j) env s = (if dictIsRehashing s then Option.bind (dictRehashStep env s) (sk_rehash j env) else Some s)"

definition dictGetSomeKeys ::
  "denv \<Rightarrow> (nat \<Rightarrow> 64 word) \<Rightarrow> dstate \<Rightarrow> ref list \<Rightarrow> 32 word \<Rightarrow> (dstate \<times> ref list \<times> 32 word) option" where
  "dictGetSomeKeys env rnd s des cnt = do {
     let cnt = (if dictSize s < ucast cnt then ucast (dictSize s) else cnt);
     let maxsteps = unat (cnt * 10);
     s \<leftarrow> sk_rehash (unat cnt) env s;
     let tables = (if dictIsRehashing s then 2 else 1);
     let m0 = DICTHT_SIZE_MASK (ht_size_exp s 0);
     let m1 = DICTHT_SIZE_MASK (ht_size_exp s 1);
     let maxsizemask = (if tables > 1 \<and> m0 < m1 then m1 else m0);
     k \<leftarrow> sk_loop maxsteps s rnd (ucast cnt) maxsizemask tables
       \<lparr>sk_i = rnd 0 AND maxsizemask, sk_emptylen = 0, sk_stored = 0, sk_des = des, sk_n = 1\<rparr>;
     Some (s, sk_des k, if sk_stored k > ucast cnt then cnt else ucast (sk_stored k))
   }"

definition GETFAIR_NUM_ENTRIES :: nat where
  "GETFAIR_NUM_ENTRIES = 15"

definition dictGetFairRandomKey ::
  "denv \<Rightarrow> (nat \<Rightarrow> 64 word) \<Rightarrow> nat \<Rightarrow> ref \<Rightarrow> dstate \<Rightarrow> (dstate \<times> ref option) option" where
  "dictGetFairRandomKey env rnd rand junk s = do {
     (s, entries, cnt) \<leftarrow>
       dictGetSomeKeys env rnd s (replicate GETFAIR_NUM_ENTRIES junk) (of_nat GETFAIR_NUM_ENTRIES);
     if cnt = 0 then dictGetRandomKey env rnd rand s
     else Some (s, Some (entries ! (rand mod unat cnt)))
   }"

subsection \<open>Scanning\<close>

text \<open>
  Reallocation of the bucket of a scan: a granted request moves the entry to the new address.
\<close>

record dictDefragFunctions =
  defragAlloc :: "dstate \<Rightarrow> ref \<Rightarrow> ref option"
  defragKey :: "(ref \<Rightarrow> ref option) option"
  defragVal :: "(ref \<Rightarrow> ref option) option"

definition move_entry :: "dictDefragFunctions \<Rightarrow> dstate \<Rightarrow> ref \<Rightarrow> (dstate \<times> ref option) option" where
  "move_entry f s a =
    (case defragAlloc f s a of
       None \<Rightarrow> Some (s, None)
     | Some b \<Rightarrow> do {
         e \<leftarrow> store s a;
         Some (s\<lparr>store := (store s)(a := None, b \<mapsto> e)\<rparr>, Some b)
       })"

definition or_else :: "ref option \<Rightarrow> ref \<Rightarrow> ref" where
  "or_else new old = (case new of None \<Rightarrow> old | Some r \<Rightarrow> r)"

definition defrag_one :: "dictDefragFunctions \<Rightarrow> dstate \<Rightarrow> ref \<Rightarrow> (dstate \<times> ref) option" where
  "defrag_one f s de = do {
     newkey \<leftarrow> (case defragKey f of None \<Rightarrow> Some None | Some g \<Rightarrow> map_option g (dictGetKey s de));
     newval \<leftarrow> (case defragVal f of None \<Rightarrow> Some None | Some g \<Rightarrow> map_option g (dictGetVal s de));
     if entryIsKey de then do {
       let r = or_else newkey de;
       _ \<leftarrow> check (entryIsKey r);
       Some (s, r)
     }
     else if entryIsNoValue de then do {
       p \<leftarrow> decodeMaskedPtr de;
       k \<leftarrow> dictGetKey s de;
       (s, new) \<leftarrow> move_entry f s p;
       newde \<leftarrow> (case new of None \<Rightarrow> Some de | Some b \<Rightarrow> encodeMaskedPtr b ENTRY_PTR_NO_VALUE);
       Some (s\<lparr>store := (store s)(or_else new p \<mapsto> DictEntryNoValue (or_else newkey k))\<rparr>, newde)
     }
     else do {
       _ \<leftarrow> check (entryIsNormal de);
       (s, new) \<leftarrow> move_entry f s de;
       let de = or_else new de;
       (k, v) \<leftarrow> normal_entry s de;
       Some (s\<lparr>store := (store s)(de \<mapsto> DictEntry (or_else newkey k) (or_else newval v))\<rparr>, de)
     }
   }"

primrec defrag_chain :: "dictDefragFunctions \<Rightarrow> ref list \<Rightarrow> dstate \<Rightarrow> (dstate \<times> ref list) option" where
  "defrag_chain f [] s = Some (s, [])"
| "defrag_chain f (de # next) s = do {
     (s, r) \<leftarrow> defrag_one f s de;
     if entryIsKey r then Some (s, [r])
     else do {
       (s, c) \<leftarrow> defrag_chain f next s;
       Some (s, r # c)
     }
   }"

definition dictDefragBucket :: "dictDefragFunctions \<Rightarrow> dstate \<Rightarrow> nat \<Rightarrow> nat \<Rightarrow> dstate option" where
  "dictDefragBucket f s t i = do {
     c \<leftarrow> bucket s t i;
     (s, c) \<leftarrow> defrag_chain f c s;
     set_bucket s t i c
   }"

text \<open>Bit reversal: swap halves, quarters, and so on.\<close>

definition rev_step :: "nat \<Rightarrow> 64 word \<times> 64 word \<Rightarrow> 64 word \<times> 64 word" where
  "rev_step sh vm =
    (let (v, msk) = vm; msk = msk XOR push_bit sh msk
     in ((drop_bit sh v AND msk) OR (push_bit sh v AND NOT msk), msk))"

function rev_loop :: "nat \<Rightarrow> 64 word \<times> 64 word \<Rightarrow> 64 word \<times> 64 word" where
  "rev_loop sh vm = (let sh = sh div 2 in if sh > 0 then rev_loop sh (rev_step sh vm) else vm)"
  by pat_completeness auto

termination rev_loop
  by (relation "measure fst") auto

declare rev_loop.simps [simp del]

definition dict_rev :: "64 word \<Rightarrow> 64 word" where
  "dict_rev v = fst (rev_loop 64 (v, NOT 0))"

definition next_cursor :: "64 word \<Rightarrow> 64 word \<Rightarrow> 64 word" where
  "next_cursor v m = dict_rev (dict_rev (v OR NOT m) + 1)"

text \<open>The calls of the scan function: the entries in the order they are passed.\<close>

function emit_chain :: "dstate \<Rightarrow> ref list \<Rightarrow> ref list option" where
  "emit_chain s [] = Some []"
| "emit_chain s (de # next) =
    (case dictGetNext s (de # next) of None \<Rightarrow> None | Some n \<Rightarrow> map_option ((#) de) (emit_chain s n))"
  by pat_completeness auto

termination emit_chain
  by (relation "measure (\<lambda>(s, c). length c)") (auto dest: dictGetNext_length)

declare emit_chain.simps(2) [simp del]

definition scan_bucket :: "dictDefragFunctions option \<Rightarrow> dstate \<Rightarrow> nat \<Rightarrow> nat \<Rightarrow> (dstate \<times> ref list) option" where
  "scan_bucket f s t i = do {
     s \<leftarrow> (case f of None \<Rightarrow> Some s | Some f \<Rightarrow> dictDefragBucket f s t i);
     c \<leftarrow> bucket s t i;
     out \<leftarrow> emit_chain s c;
     Some (s, out)
   }"

partial_function (option) scan_big ::
  "dictDefragFunctions option \<Rightarrow> dstate \<Rightarrow> nat \<Rightarrow> 64 word \<Rightarrow> 64 word \<Rightarrow> 64 word \<Rightarrow> ref list \<Rightarrow> (dstate \<times> 64 word \<times> ref list) option" where
  "scan_big f s htidx1 m0 m1 v out = do {
     (s, out1) \<leftarrow> scan_bucket f s htidx1 (unat (v AND m1));
     let v = next_cursor v m1;
     if v AND (m0 XOR m1) \<noteq> 0 then scan_big f s htidx1 m0 m1 v (out @ out1)
     else Some (s, v, out @ out1)
   }"

definition dictScanDefrag :: "dictDefragFunctions option \<Rightarrow> dstate \<Rightarrow> 64 word \<Rightarrow> (dstate \<times> 64 word \<times> ref list) option" where
  "dictScanDefrag f s v =
    (if dictSize s = 0 then Some (s, 0, [])
     else do {
       let s = dictPauseRehashing s;
       (s, v, out) \<leftarrow>
         (if \<not> dictIsRehashing s then do {
            let m0 = DICTHT_SIZE_MASK (ht_size_exp s 0);
            (s, out) \<leftarrow> scan_bucket f s 0 (unat (v AND m0));
            Some (s, next_cursor v m0, out)
          } else do {
            let (htidx0, htidx1) =
              (if DICTHT_SIZE (ht_size_exp s 0) > DICTHT_SIZE (ht_size_exp s 1) then (1, 0) else (0, 1));
            let m0 = DICTHT_SIZE_MASK (ht_size_exp s htidx0);
            let m1 = DICTHT_SIZE_MASK (ht_size_exp s htidx1);
            (s, out) \<leftarrow> scan_bucket f s htidx0 (unat (v AND m0));
            scan_big f s htidx1 m0 m1 v out
          });
       Some (dictResumeRehashing s, v, out)
     })"

definition dictScan :: "dstate \<Rightarrow> 64 word \<Rightarrow> (dstate \<times> 64 word \<times> ref list) option" where
  "dictScan s v = dictScanDefrag None s v"

end
