(* ===== verification/Redis_Dict_Inv.thy ===== *)
theory Redis_Dict_Inv
  imports Redis_Dict
begin

text \<open>
  The invariant of the hash table and its contents as a multiset of keys and values, with the proof that every
  operation keeps the one and changes the other as it should.
\<close>

subsection \<open>Entry pointers and the store\<close>

definition addr :: "ref \<Rightarrow> ref" where
  "addr r = r AND NOT ENTRY_PTR_MASK"

lemma ENTRY_PTR_MASK_eq: "ENTRY_PTR_MASK = mask 3"
  by (simp add: ENTRY_PTR_MASK_def mask_eq_exp_minus_1)

lemma bit_entry_mask: "bit ENTRY_PTR_MASK n \<longleftrightarrow> n < 3"
  by (auto simp: ENTRY_PTR_MASK_eq bit_mask_iff)

lemma bit_two: "bit (2 :: 64 word) n \<longleftrightarrow> n = 1"
  using bit_exp_iff [of 1 n, where ?'a = "64 word"] by auto

lemma entryIsKey_bit: "entryIsKey r \<longleftrightarrow> bit r 0"
  by (simp add: entryIsKey_def and_one_eq bit_0 mod_2_eq_odd)

lemma ref_eq_iff: "r = q \<longleftrightarrow> (\<forall>n. bit r n = bit q n)" for r q :: ref
  by (auto intro: bit_word_eqI)

lemma all_less_3: "(\<forall>n<3. P n) \<longleftrightarrow> P 0 \<and> P 1 \<and> P (2 :: nat)"
  by (auto simp: numeral_3_eq_3 less_Suc_eq numeral_2_eq_2)

lemma normal_bits: "entryIsNormal r \<longleftrightarrow> (\<forall>n<3. \<not> bit r n)"
  unfolding entryIsNormal_def ENTRY_PTR_NORMAL_def ref_eq_iff bit_and_iff bit_entry_mask by auto

lemma novalue_bits: "entryIsNoValue r \<longleftrightarrow> (\<forall>n<3. bit r n \<longleftrightarrow> n = 1)"
proof -
  have "entryIsNoValue r \<longleftrightarrow> (\<forall>n. (bit r n \<and> n < 3) = (n = 1))"
    unfolding entryIsNoValue_def ENTRY_PTR_NO_VALUE_def ref_eq_iff bit_and_iff bit_entry_mask bit_two ..
  also have "\<dots> \<longleftrightarrow> (\<forall>n<3. bit r n \<longleftrightarrow> n = 1)"
    by (metis one_less_numeral_iff semiring_norm(77))
  finally show ?thesis .
qed

lemma bit_addr: "bit (addr r) n \<longleftrightarrow> bit r n \<and> \<not> n < 3"
  unfolding addr_def bit_and_iff bit_not_iff bit_entry_mask using bit_imp_le_length [of r n] by auto

lemma normal_tag [simp]:
  assumes "entryIsNormal r"
  shows "\<not> entryIsKey r" "\<not> entryIsNoValue r" "addr r = r" "entryHasValue r"
proof -
  show "addr r = r" using assms unfolding ref_eq_iff bit_addr normal_bits by blast
qed (use assms in \<open>auto simp: normal_bits novalue_bits all_less_3 entryIsKey_bit entryHasValue_def\<close>)

lemma novalue_tag [simp]:
  assumes "entryIsNoValue r"
  shows "\<not> entryIsKey r" "\<not> entryIsNormal r"
  using assms by (auto simp: normal_bits novalue_bits all_less_3 entryIsKey_bit)

lemma tagged [simp]:
  assumes "entryIsNormal a"
  shows "entryIsNoValue (a OR ENTRY_PTR_NO_VALUE)" "addr (a OR ENTRY_PTR_NO_VALUE) = a"
proof -
  show "entryIsNoValue (a OR ENTRY_PTR_NO_VALUE)"
    using assms unfolding normal_bits novalue_bits ENTRY_PTR_NO_VALUE_def bit_or_iff bit_two by blast
  show "addr (a OR ENTRY_PTR_NO_VALUE) = a"
    using assms unfolding ref_eq_iff bit_addr normal_bits ENTRY_PTR_NO_VALUE_def bit_or_iff bit_two by auto
qed

lemma decode_addr: "\<not> entryIsKey r \<Longrightarrow> decodeMaskedPtr r = Some (addr r)"
  by (simp add: decodeMaskedPtr_def check_def addr_def)

text \<open>What a reference on a chain may be, for a type and a store.\<close>

definition key_ok :: "dictType \<Rightarrow> ref \<Rightarrow> bool" where
  "key_ok ty k \<longleftrightarrow> (no_value ty \<and> keys_are_odd ty \<longrightarrow> entryIsKey k)"

definition ref_ok :: "dictType \<Rightarrow> (ref \<rightharpoonup> dentry) \<Rightarrow> ref \<Rightarrow> bool" where
  "ref_ok ty st r \<longleftrightarrow>
    (if entryIsKey r then no_value ty \<and> keys_are_odd ty
     else if no_value ty then entryIsNoValue r \<and> (\<exists>k. st (addr r) = Some (DictEntryNoValue k) \<and> key_ok ty k)
     else entryIsNormal r \<and> (\<exists>k v. st (addr r) = Some (DictEntry k v)))"

definition ent :: "(ref \<rightharpoonup> dentry) \<Rightarrow> ref \<Rightarrow> ref \<times> 64 word option" where
  "ent st r =
    (if entryIsKey r then (r, None)
     else case st (addr r) of
       Some (DictEntry k v) \<Rightarrow> (k, Some v)
     | Some (DictEntryNoValue k) \<Rightarrow> (k, None)
     | None \<Rightarrow> (0, None))"

text \<open>The addresses of the allocated entries among the references.\<close>

definition cells :: "ref list \<Rightarrow> ref list" where
  "cells rs = map addr (filter (\<lambda>r. \<not> entryIsKey r) rs)"

lemma cells_simps [simp]:
  "cells [] = []" "entryIsKey r \<Longrightarrow> cells (r # rs) = cells rs" "\<not> entryIsKey r \<Longrightarrow> cells (r # rs) = addr r # cells rs"
  by (simp_all add: cells_def)

lemma addr_in_cells: "q \<in> set rs \<Longrightarrow> \<not> entryIsKey q \<Longrightarrow> addr q \<in> set (cells rs)"
  by (auto simp: cells_def)

definition heap_ok :: "dictType \<Rightarrow> ref set \<Rightarrow> (ref \<rightharpoonup> dentry) \<Rightarrow> ref list \<Rightarrow> bool" where
  "heap_ok ty X st rs \<longleftrightarrow>
    (\<forall>r \<in> set rs. ref_ok ty st r) \<and> distinct (cells rs) \<and> dom st = set (cells rs) \<union> X \<and> X \<inter> set (cells rs) = {}"

lemma ref_ok_cases:
  assumes "ref_ok ty st r"
  obtains (key) "entryIsKey r" "no_value ty" "keys_are_odd ty"
  | (novalue) k where "no_value ty" "entryIsNoValue r" "st (addr r) = Some (DictEntryNoValue k)" "key_ok ty k"
  | (normal) k v where "\<not> no_value ty" "entryIsNormal r" "st r = Some (DictEntry k v)"
proof (cases "entryIsKey r")
  case True
  then show thesis using assms key by (simp add: ref_ok_def)
next
  case False
  show thesis
  proof (cases "no_value ty")
    case True
    then show thesis using assms False novalue by (auto simp: ref_ok_def)
  next
    case no: False
    then show thesis using assms False normal by (auto simp: ref_ok_def)
  qed
qed

lemmas entry_ops = dictGetKey_def dictGetNext_def dictSetNext_def dictGetVal_def zfree_entry_def ent_def check_def
  decodeEntryNoValue_def normal_entry_def decode_addr

lemma ref_ok_ops:
  assumes "ref_ok (dtype s) (store s) r"
  shows "dictGetKey s r = Some (fst (ent (store s) r))"
    and "dictGetNext s (r # c) = Some (if entryIsKey r then [] else c)"
    and "\<not> entryIsKey r \<Longrightarrow> dictSetNext s r c = Some (r # c)"
    and "\<not> no_value (dtype s) \<Longrightarrow> dictGetVal s r = snd (ent (store s) r)"
    and "\<not> entryIsKey r \<Longrightarrow> zfree_entry s r = Some (s\<lparr>store := (store s)(addr r := None)\<rparr>)"
  by (cases rule: ref_ok_cases [OF assms]; simp add: entry_ops)+

lemma ref_ok_key: "ref_ok ty st r \<Longrightarrow> key_ok ty (fst (ent st r))"
  by (erule ref_ok_cases) (simp_all add: ent_def key_ok_def)

lemma ref_ok_cong: "(\<not> entryIsKey r \<Longrightarrow> st' (addr r) = st (addr r)) \<Longrightarrow> ref_ok ty st' r = ref_ok ty st r"
  by (cases "entryIsKey r") (simp_all add: ref_ok_def)

lemma ent_cong: "(\<not> entryIsKey r \<Longrightarrow> st' (addr r) = st (addr r)) \<Longrightarrow> ent st' r = ent st r"
  by (auto simp: ent_def)

text \<open>The four ways the store and the references change.\<close>

lemma heap_ok_perm:
  assumes ok: "heap_ok ty X st rs" and m: "mset rs' = mset rs"
  shows "heap_ok ty X st rs'"
proof -
  have "mset (cells rs') = mset (cells rs)" by (simp add: m cells_def)
  then have "set (cells rs') = set (cells rs)" "distinct (cells rs') = distinct (cells rs)"
    by (rule mset_eq_setD, rule mset_eq_imp_distinct_iff)
  moreover have "set rs' = set rs" using m by (rule mset_eq_setD)
  ultimately show ?thesis using ok by (simp add: heap_ok_def)
qed

lemma heap_ok_free:
  assumes ok: "heap_ok ty X st (r # rs)" and r: "\<not> entryIsKey r"
  shows "heap_ok ty X (st(addr r := None)) rs" and "q \<in> set rs \<Longrightarrow> ent (st(addr r := None)) q = ent st q"
proof -
  have other: "\<not> entryIsKey q \<Longrightarrow> (st(addr r := None)) (addr q) = st (addr q)" if "q \<in> set rs" for q
    using ok r addr_in_cells [OF that] by (auto simp: heap_ok_def)
  show "ent (st(addr r := None)) q = ent st q" if "q \<in> set rs"
    by (rule ent_cong, rule other [OF that])
  have "ref_ok ty (st(addr r := None)) q" if "q \<in> set rs" for q
    using ref_ok_cong [of q "st(addr r := None)" st ty, OF other [OF that]] ok that by (simp add: heap_ok_def)
  moreover have "dom (st(addr r := None)) = set (cells rs) \<union> X"
    using ok r by (auto simp: heap_ok_def)
  ultimately show "heap_ok ty X (st(addr r := None)) rs" using ok r by (simp add: heap_ok_def)
qed

lemma heap_ok_new:
  assumes ok: "heap_ok ty X st rs" and new: "st (addr r) = None" and r: "\<not> entryIsKey r" "ref_ok ty (st(addr r \<mapsto> e)) r"
  shows "heap_ok ty X (st(addr r \<mapsto> e)) (r # rs)" and "q \<in> set rs \<Longrightarrow> ent (st(addr r \<mapsto> e)) q = ent st q"
proof -
  have out: "addr r \<notin> set (cells rs)" "addr r \<notin> X" using ok new by (auto simp: heap_ok_def)
  have other: "\<not> entryIsKey q \<Longrightarrow> (st(addr r \<mapsto> e)) (addr q) = st (addr q)" if "q \<in> set rs" for q
    using out addr_in_cells [OF that] by auto
  show "ent (st(addr r \<mapsto> e)) q = ent st q" if "q \<in> set rs"
    by (rule ent_cong, rule other [OF that])
  have "ref_ok ty (st(addr r \<mapsto> e)) q" if "q \<in> set rs" for q
    using ref_ok_cong [of q "st(addr r \<mapsto> e)" st ty, OF other [OF that]] ok that by (simp add: heap_ok_def)
  then show "heap_ok ty X (st(addr r \<mapsto> e)) (r # rs)"
    using ok r out by (auto simp: heap_ok_def)
qed

lemma heap_ok_key:
  assumes "entryIsKey k"
  shows "heap_ok ty X st (k # rs) \<longleftrightarrow> heap_ok ty X st rs \<and> no_value ty \<and> keys_are_odd ty"
  using assms by (auto simp: heap_ok_def ref_ok_def)

text \<open>Unlinking an entry leaves it in the store.\<close>

lemma heap_ok_unlink:
  assumes "heap_ok ty X st (r # rs)" and "\<not> entryIsKey r"
  shows "heap_ok ty (insert (addr r) X) st rs"
  using assms by (auto simp: heap_ok_def)

lemma heap_ok_ref: "heap_ok ty X st rs \<Longrightarrow> r \<in> set rs \<Longrightarrow> ref_ok ty st r"
  by (simp add: heap_ok_def)

text \<open>A change of the value of one entry.\<close>

lemma heap_ok_upd:
  assumes "heap_ok ty X st rs" and "r \<in> set rs" and "\<not> no_value ty" and "st r = Some (DictEntry k v)"
  shows "heap_ok ty X (st(r \<mapsto> DictEntry k' v')) rs"
    and "ent (st(r \<mapsto> DictEntry k' v')) r = (k', Some v')"
    and "q \<in> set rs \<Longrightarrow> q \<noteq> r \<Longrightarrow> ent (st(r \<mapsto> DictEntry k' v')) q = ent st q"
proof -
  have all: "entryIsNormal q" if "q \<in> set rs" for q
    using heap_ok_ref [OF assms(1) that] assms(3) by (auto elim: ref_ok_cases)
  note r = all [OF assms(2)]
  show "ent (st(r \<mapsto> DictEntry k' v')) r = (k', Some v')" using r by (simp add: ent_def)
  show "ent (st(r \<mapsto> DictEntry k' v')) q = ent st q" if "q \<in> set rs" "q \<noteq> r"
    using all [OF that(1)] that(2) by (simp add: ent_def)
  have "dom (st(r \<mapsto> DictEntry k' v')) = dom st" using assms(4) by auto
  moreover have "ref_ok ty (st(r \<mapsto> DictEntry k' v')) q" if "q \<in> set rs" for q
  proof (cases "q = r")
    case True
    then show ?thesis using r assms(3) by (simp add: ref_ok_def)
  next
    case False
    then have "(st(r \<mapsto> DictEntry k' v')) (addr q) = st (addr q)" using all [OF that] by simp
    then show ?thesis using heap_ok_ref [OF assms(1) that] ref_ok_cong by blast
  qed
  ultimately show "heap_ok ty X (st(r \<mapsto> DictEntry k' v')) rs"
    using assms(1) unfolding heap_ok_def by simp
qed

subsection \<open>Tables\<close>

definition tab :: "('a) dict_scheme \<Rightarrow> nat \<Rightarrow> ref list list" where
  "tab s t = (case ht_table s t of None \<Rightarrow> [] | Some (a, T) \<Rightarrow> T)"

definition put :: "nat \<Rightarrow> nat \<Rightarrow> ref list \<Rightarrow> ('a) dict_scheme \<Rightarrow> ('a) dict_scheme" where
  "put t i c s = s\<lparr>ht_table := (ht_table s)(t := map_option (apsnd (\<lambda>T. T[i := c])) (ht_table s t))\<rparr>"

definition refs :: "('a) dict_scheme \<Rightarrow> ref list" where
  "refs s = concat (tab s 0) @ concat (tab s 1)"

definition ents :: "dstate \<Rightarrow> (ref \<times> 64 word option) multiset" where
  "ents s = image_mset (ent (store s)) (mset (refs s))"

lemma tab_put [simp]: "tab (put t i c s) u = (if u = t then (tab s t)[i := c] else tab s u)"
  by (auto simp: tab_def put_def split: option.split)

lemma put_fields [simp]:
  "dtype (put t i c s) = dtype s" "ht_used (put t i c s) = ht_used s" "rehashidx (put t i c s) = rehashidx s"
  "pauserehash (put t i c s) = pauserehash s" "ht_size_exp (put t i c s) = ht_size_exp s"
  "ht_table (put t i c s) u = None \<longleftrightarrow> ht_table s u = None"
  by (simp_all add: put_def)

lemma put_dstate_fields [simp]:
  "store (put t i c s) = store s" "freedKeys (put t i c s) = freedKeys s" "freedVals (put t i c s) = freedVals s"
  "dict_can_resize (put t i c s) = dict_can_resize s"
  by (simp_all add: put_def)

lemma put_put [simp]: "put t i c (put t i d s) = put t i c s"
  by (cases "ht_table s t") (auto simp: put_def apsnd_def map_prod_def)

lemma put_swap: "t \<noteq> u \<Longrightarrow> put t i c (put u j d s) = put u j d (put t i c s)"
  by (cases s) (auto simp: put_def fun_eq_iff)

lemma put_same: "i < length (tab s t) \<Longrightarrow> tab s t ! i = c \<Longrightarrow> put t i c s = s"
  by (cases s; cases "ht_table s t") (auto simp: put_def tab_def fun_eq_iff apsnd_def map_prod_def)

lemma bucket_tab: "i < length (tab s t) \<Longrightarrow> bucket s t i = Some (tab s t ! i)"
  by (auto simp: bucket_def tab_def split: option.splits)

lemma set_bucket_put: "i < length (tab s t) \<Longrightarrow> set_bucket s t i c = Some (put t i c s)"
  by (auto simp: set_bucket_def put_def tab_def split: option.splits)

lemma mset_concat_update:
  "i < length T \<Longrightarrow> mset (concat (T[i := c])) + mset (T ! i) = mset (concat T) + mset c"
proof (induction T arbitrary: i)
  case (Cons x T)
  then show ?case by (cases i) (auto simp: algebra_simps)
qed simp

lemma length_concat_update:
  "i < length T \<Longrightarrow> length (concat (T[i := c])) + length (T ! i) = length (concat T) + length c"
  using arg_cong [OF mset_concat_update, of i T size c] by simp

lemma mset_refs_put:
  assumes "t = 0 \<or> t = 1" and "i < length (tab s t)"
  shows "mset (refs (put t i c s)) + mset (tab s t ! i) = mset (refs s) + mset c"
  using assms mset_concat_update [OF assms(2), of c] by (auto simp: refs_def algebra_simps)

lemma mset_refs_put_Cons:
  assumes "t = 0 \<or> t = 1" and "i < length (tab s t)"
  shows "mset (refs (put t i (r # c) s)) = add_mset r (mset (refs (put t i c s)))"
proof -
  have "mset (refs (put t i (r # c) s)) + mset (tab s t ! i) = add_mset r (mset (refs (put t i c s))) + mset (tab s t ! i)"
    using mset_refs_put [OF assms, of "r # c"] mset_refs_put [OF assms, of c] by simp
  then show ?thesis by simp
qed

definition chain_ok :: "ref list \<Rightarrow> bool" where
  "chain_ok c \<longleftrightarrow> (\<forall>r \<in> set (butlast c). \<not> entryIsKey r)"

lemma chain_ok_simps [simp]:
  "chain_ok []" "chain_ok [r]" "chain_ok (r # q # c) \<longleftrightarrow> \<not> entryIsKey r \<and> chain_ok (q # c)"
  by (auto simp: chain_ok_def)

lemma chain_ok_Cons: "chain_ok (r # c) \<longleftrightarrow> (c = [] \<or> \<not> entryIsKey r) \<and> chain_ok c"
  by (cases c) auto

definition table_ok :: "dictType \<Rightarrow> (ref \<rightharpoonup> dentry) \<Rightarrow> nat \<Rightarrow> ref list list \<Rightarrow> bool" where
  "table_ok ty st e T \<longleftrightarrow> length T = 2 ^ e \<and>
    (\<forall>i<length T. chain_ok (T ! i) \<and> (\<forall>r \<in> set (T ! i). unat (hashFunction ty (fst (ent st r))) mod 2 ^ e = i))"

lemma table_ok_update:
  assumes "table_ok ty st e T" and "i < length T" and "chain_ok c"
    and "\<And>r. r \<in> set c \<Longrightarrow> unat (hashFunction ty (fst (ent st' r))) mod 2 ^ e = i"
    and "\<And>j r. j < length T \<Longrightarrow> j \<noteq> i \<Longrightarrow> r \<in> set (T ! j) \<Longrightarrow> ent st' r = ent st r"
  shows "table_ok ty st' e (T[i := c])"
  unfolding table_ok_def
proof (intro conjI allI impI ballI)
  show "length (T[i := c]) = 2 ^ e" using assms(1) by (simp add: table_ok_def)
  fix j assume "j < length (T[i := c])"
  then have j: "j < length T" by simp
  show "chain_ok (T[i := c] ! j)" using assms(1,3) j by (cases "j = i") (auto simp: table_ok_def)
  fix r assume "r \<in> set (T[i := c] ! j)"
  then show "unat (hashFunction ty (fst (ent st' r))) mod 2 ^ e = j"
    using assms(1,2,4,5) j by (cases "j = i") (auto simp: table_ok_def)
qed

lemma table_ok_cong:
  assumes "table_ok ty st e T" and "\<And>r. r \<in> set (concat T) \<Longrightarrow> fst (ent st' r) = fst (ent st r)"
  shows "table_ok ty st' e T"
proof -
  have "fst (ent st' r) = fst (ent st r)" if "i < length T" "r \<in> set (T ! i)" for i r
    using that nth_mem [OF that(1)] by (intro assms(2)) auto
  then show ?thesis using assms(1) unfolding table_ok_def by auto
qed

text \<open>The invariant: \<open>X\<close> are the addresses of live entries outside the dictionary.\<close>

definition tab_inv :: "dstate \<Rightarrow> nat \<Rightarrow> bool" where
  "tab_inv s t \<longleftrightarrow>
    (case ht_table s t of
       None \<Rightarrow> ht_size_exp s t = -1
     | Some (a, T) \<Rightarrow> \<exists>e\<le>60. ht_size_exp s t = int e \<and> table_ok (dtype s) (store s) e T)"

definition rehash_inv :: "dstate \<Rightarrow> bool" where
  "rehash_inv s \<longleftrightarrow>
    (if rehashidx s = -1 then ht_table s 1 = None
     else ht_table s 0 \<noteq> None \<and> ht_table s 1 \<noteq> None \<and> 0 \<le> rehashidx s \<and> rehashidx s \<le> int (length (tab s 0)) \<and>
       (\<forall>i<nat (rehashidx s). tab s 0 ! i = []))"

definition used_inv :: "dstate \<Rightarrow> bool" where
  "used_inv s \<longleftrightarrow> unat (ht_used s 0) = length (concat (tab s 0)) \<and> unat (ht_used s 1) = length (concat (tab s 1))"

definition dict_inv :: "ref set \<Rightarrow> dstate \<Rightarrow> bool" where
  "dict_inv X s \<longleftrightarrow> heap_ok (dtype s) X (store s) (refs s) \<and> tab_inv s 0 \<and> tab_inv s 1 \<and> used_inv s \<and> rehash_inv s"

lemma tab_invE:
  assumes "tab_inv s t" and "ht_table s t \<noteq> None"
  obtains e where "e \<le> 60" "ht_size_exp s t = int e" "table_ok (dtype s) (store s) e (tab s t)" "length (tab s t) = 2 ^ e"
  using assms by (auto simp: tab_inv_def tab_def table_ok_def)

lemma DICTHT_SIZE_nat: "DICTHT_SIZE (int e) = push_bit e 1"
  by (simp add: DICTHT_SIZE_def)

lemma unat_DICTHT_SIZE: "e < 64 \<Longrightarrow> unat (DICTHT_SIZE (int e)) = 2 ^ e"
proof -
  assume "e < 64"
  then have "(2 :: nat) ^ e < 2 ^ 64" by (rule power_strict_increasing) simp
  then show ?thesis unfolding DICTHT_SIZE_nat unsigned_push_bit_eq by (simp add: take_bit_eq_mod push_bit_eq_mult)
qed

lemma DICTHT_SIZE_MASK_nat: "DICTHT_SIZE_MASK (int e) = mask e"
  by (simp add: DICTHT_SIZE_MASK_def DICTHT_SIZE_nat push_bit_eq_mult mask_eq_exp_minus_1)

lemma unat_and_mask: "unat (h AND DICTHT_SIZE_MASK (int e)) = unat h mod 2 ^ e"
  unfolding DICTHT_SIZE_MASK_nat take_bit_eq_mask [symmetric] unsigned_take_bit_eq
  by (rule take_bit_eq_mod)

lemma table_index: "table_ok ty st e T \<Longrightarrow> unat h mod 2 ^ e < length T"
  by (simp add: table_ok_def)

subsection \<open>Rehashing\<close>

definition env_ok :: "denv \<Rightarrow> bool" where
  "env_ok env \<longleftrightarrow> (\<forall>s a j. new_entry env s = Some (a, j) \<longrightarrow> store s a = None \<and> entryIsNormal a)"

text \<open>Memory for entries and tables is granted up to generous bounds.\<close>

definition roomy :: "denv \<Rightarrow> bool" where
  "roomy env \<longleftrightarrow> env_ok env \<and> (\<forall>s. card (dom (store s)) < 2 ^ 40 \<longrightarrow> new_entry env s \<noteq> None) \<and>
    (\<forall>s n. unat n \<le> 2 ^ 50 \<longrightarrow> new_table env s n \<noteq> None)"

definition small :: "ref set \<Rightarrow> dstate \<Rightarrow> bool" where
  "small X s \<longleftrightarrow> finite X \<and> size (ents s) + card X < 2 ^ 40"

lemma length_cells: "length (cells rs) \<le> length rs"
  by (simp add: cells_def)

lemma heap_ok_card:
  assumes "heap_ok ty X st rs" and "finite X"
  shows "card (dom st) \<le> length rs + card X"
proof -
  have "dom st = set (cells rs) \<union> X" using assms(1) by (simp add: heap_ok_def)
  then have "card (dom st) \<le> card (set (cells rs)) + card X" by (simp add: card_Un_le)
  also have "\<dots> \<le> length rs + card X" using card_length [of "cells rs"] length_cells [of rs] by simp
  finally show ?thesis .
qed

lemma size_ents: "size (ents s) = length (refs s)"
  by (simp add: ents_def)

lemma roomy_new_entry:
  assumes "roomy env" and "heap_ok ty X (store s) rs" and "finite X" and "length rs + card X < 2 ^ 40"
  obtains a j where "new_entry env s = Some (a, j)" "store s a = None" "entryIsNormal a"
proof -
  have "card (dom (store s)) < 2 ^ 40" using heap_ok_card [OF assms(2,3)] assms(4) by linarith
  then obtain a j where "new_entry env s = Some (a, j)" using assms(1) unfolding roomy_def by (metis option.exhaust surj_pair)
  then show thesis using that assms(1) unfolding roomy_def env_ok_def by blast
qed

lemma rehash_place_ok:
  assumes env: "roomy env" and ok: "heap_ok (dtype s) X (store s) (de # rs)" and fin: "finite X"
    and len: "length (de # rs) + card X < 2 ^ 40" and k: "k = fst (ent (store s) de)"
  shows "\<exists>st r. rehash_place env s de k dst = Some (s\<lparr>store := st\<rparr>, r # dst) \<and>
    heap_ok (dtype s) X st (r # rs) \<and> ent st r = ent (store s) de \<and> (\<forall>q \<in> set rs. ent st q = ent (store s) q) \<and>
    (dst = [] \<or> \<not> entryIsKey r)"
proof -
  have ref: "ref_ok (dtype s) (store s) de" using ok by (simp add: heap_ok_def)
  note ops = ref_ok_ops [OF ref]
  have self: ?thesis if "rehash_place env s de k dst = Some (s, de # dst)" "dst = [] \<or> \<not> entryIsKey de"
    using that ok by (intro exI [of _ "store s"] exI [of _ de]) simp
  show ?thesis
  proof (cases "no_value (dtype s)")
    case False
    then have "\<not> entryIsKey de" using ref by (auto elim: ref_ok_cases)
    then show ?thesis using self ops(3) False by (simp add: rehash_place_def)
  next
    case nv: True
    show ?thesis
    proof (cases "keys_are_odd (dtype s) \<and> dst = []")
      case odd: True
      then have ik: "entryIsKey k" using ref_ok_key [OF ref] nv k by (simp add: key_ok_def)
      show ?thesis
      proof (cases "entryIsKey de")
        case True
        then have "k = de" using k by (simp add: ent_def)
        then show ?thesis using self nv odd True by (simp add: rehash_place_def check_def)
      next
        case False
        have "snd (ent (store s) de) = None" using ref nv False by (auto simp: ent_def elim: ref_ok_cases)
        then have "ent (store s) de = (k, None)" using k by (simp add: prod_eq_iff)
        moreover have "rehash_place env s de k dst = Some (s\<lparr>store := (store s)(addr de := None)\<rparr>, k # dst)"
          using nv odd ik False ops(5) [OF False] by (simp add: rehash_place_def check_def)
        ultimately show ?thesis
          using heap_ok_free [OF ok False] heap_ok_key [OF ik] nv odd ik
          by (intro exI [of _ "(store s)(addr de := None)"] exI [of _ k]) (simp add: ent_def)
      qed
    next
      case nodd: False
      show ?thesis
      proof (cases "entryIsKey de")
        case False
        then have "entryIsNoValue de" using ref nv by (auto elim: ref_ok_cases)
        then show ?thesis using self nv nodd False ops(3) by (auto simp: rehash_place_def check_def)
      next
        case True
        then have odd: "keys_are_odd (dtype s)" and kd: "k = de" using ref k by (auto elim: ref_ok_cases simp: ent_def)
        have ok': "heap_ok (dtype s) X (store s) rs" using ok heap_ok_key [OF True] by blast
        obtain a j where a: "new_entry env s = Some (a, j)" "store s a = None" "entryIsNormal a"
          using roomy_new_entry [OF env ok' fin] len by auto
        let ?r = "a OR ENTRY_PTR_NO_VALUE" and ?st = "(store s)(a \<mapsto> DictEntryNoValue k)"
        have r: "\<not> entryIsKey ?r" "addr ?r = a" "ref_ok (dtype s) ?st ?r"
          using a(3) nv True kd by (simp_all add: ref_ok_def key_ok_def)
        have "rehash_place env s de k dst = Some (s\<lparr>store := ?st\<rparr>, ?r # dst)"
          using nv nodd True odd a(1) by (auto simp: rehash_place_def createEntryNoValue_def)
        then show ?thesis
          using heap_ok_new [OF ok', of ?r "DictEntryNoValue k"] r a(2) True kd
          by (intro exI [of _ ?st] exI [of _ ?r]) (simp add: ent_def)
      qed
    qed
  qed
qed

definition frame :: "dstate \<Rightarrow> dstate \<Rightarrow> bool" where
  "frame s s' \<longleftrightarrow> dtype s' = dtype s \<and> pauserehash s' = pauserehash s \<and>
    freedKeys s' = freedKeys s \<and> freedVals s' = freedVals s \<and> dict_can_resize s' = dict_can_resize s"

lemma frame_refl [simp]: "frame s s"
  by (simp add: frame_def)

lemma frame_trans [trans]: "frame s s' \<Longrightarrow> frame s' s'' \<Longrightarrow> frame s s''"
  by (simp add: frame_def)

lemma used_inc: "unat (w :: 64 word) < 2 ^ 60 \<Longrightarrow> unat (w + 1) = unat w + 1"
  by (simp add: unat_word_ariths)

lemma used_dec: "unat (w :: 64 word) = Suc n \<Longrightarrow> unat (w + (- 1)) = n"
  by (metis add_uminus_conv_diff diff_Suc_1 nat.distinct(1) unat_0 unat_minus_one)

lemma add_used_fields [simp]:
  "dtype (add_used t n s) = dtype s" "rehashidx (add_used t n s) = rehashidx s" "pauserehash (add_used t n s) = pauserehash s"
  "ht_size_exp (add_used t n s) = ht_size_exp s" "ht_table (add_used t n s) = ht_table s" "tab (add_used t n s) = tab s"
  "ht_used (add_used t n s) u = (if u = t then ht_used s t + n else ht_used s u)" "refs (add_used t n s) = refs s"
  by (simp_all add: add_used_def tab_def refs_def fun_eq_iff)

lemma add_used_dstate_fields [simp]:
  "store (add_used t n s) = store s" "freedKeys (add_used t n s) = freedKeys s" "freedVals (add_used t n s) = freedVals s"
  "dict_can_resize (add_used t n s) = dict_can_resize s"
  by (simp_all add: add_used_def)

lemma store_upd_fields [simp]: "tab (s\<lparr>store := st\<rparr>) = tab s" "refs (s\<lparr>store := st\<rparr>) = refs s"
  by (simp_all add: tab_def refs_def fun_eq_iff)

lemma put_add_used: "put t i c (add_used u n s) = add_used u n (put t i c s)"
  by (simp add: put_def add_used_def)

lemma put_store: "put t i c (s\<lparr>store := st\<rparr>) = (put t i c s)\<lparr>store := st\<rparr>" for s :: dstate
  by (simp add: put_def)

text \<open>The destination of an entry of the bucket being moved.\<close>

lemma rehash_index:
  assumes i: "rehashidx s = int i" and exps: "ht_size_exp s 0 = int e0" "ht_size_exp s 1 = int e1"
    and e: "e0 \<le> 60" and pos: "unat (dictHashKey s k) mod 2 ^ e0 = i"
  shows "unat (if ht_size_exp s 1 > ht_size_exp s 0 then dictHashKey s k AND DICTHT_SIZE_MASK (ht_size_exp s 1)
      else word_of_int (rehashidx s) AND DICTHT_SIZE_MASK (ht_size_exp s 1)) = unat (dictHashKey s k) mod 2 ^ e1"
proof (cases "e0 < e1")
  case True
  then show ?thesis using exps by (simp add: unat_and_mask)
next
  case False
  have "i < 2 ^ e0" using pos by auto
  also have "(2 :: nat) ^ e0 < 2 ^ 64" by (rule power_strict_increasing) (use e in simp_all)
  finally have "unat (word_of_int (int i) :: 64 word) = i" by (simp add: unat_of_nat)
  moreover have "unat (dictHashKey s k) mod 2 ^ e1 = i mod 2 ^ e1"
    using pos False by (metis mod_mod_cancel le_imp_power_dvd linorder_not_le)
  ultimately show ?thesis using False exps i by (simp add: unat_and_mask)
qed

lemma refs_two_puts:
  assumes "i < length (tab s 0)" and "h < length (tab s 1)"
  shows "mset (refs (put 0 i c (put 1 h (r # tab s 1 ! h) s))) = add_mset r (mset (refs (put 0 i c s)))"
proof -
  have "put 1 h (tab s 1 ! h) (put 0 i c s) = put 0 i c s" by (rule put_same) (use assms in simp_all)
  moreover have "put 0 i c (put 1 h (r # tab s 1 ! h) s) = put 1 h (r # tab s 1 ! h) (put 0 i c s)"
    by (rule put_swap) simp
  ultimately show ?thesis
    using mset_refs_put_Cons [of 1 h "put 0 i c s" r "tab s 1 ! h"] assms by simp
qed

lemma in_refs: "x \<in> set (refs s) \<longleftrightarrow> x \<in> set (concat (tab s 0)) \<or> x \<in> set (concat (tab s 1))"
  by (simp add: refs_def)

lemma in_concat: "i < length T \<Longrightarrow> x \<in> set (T ! i) \<Longrightarrow> x \<in> set (concat T)"
  by (auto intro: nth_mem)

text \<open>The tables after the move of the first entry of the bucket.\<close>

lemma moved_tables:
  assumes T0: "table_ok ty st0 e0 (T0[i := de # c])" "i < length T0" and T1: "table_ok ty st0 e1 T1" "h < length T1"
    and er: "fst (ent st r) = fst (ent st0 de)" and h: "h = unat (hashFunction ty (fst (ent st0 de))) mod 2 ^ e1"
    and eq: "\<And>q. q \<in> set (concat (T0[i := c])) \<or> q \<in> set (concat T1) \<Longrightarrow> ent st q = ent st0 q"
    and last: "T1 ! h = [] \<or> \<not> entryIsKey r"
  shows "table_ok ty st e0 (T0[i := c])" and "table_ok ty st e1 (T1[h := r # T1 ! h])"
proof -
  have chain: "chain_ok (de # c)" "\<And>q. q \<in> set c \<Longrightarrow> unat (hashFunction ty (fst (ent st0 q))) mod 2 ^ e0 = i"
    using T0 by (auto simp: table_ok_def)
  have "table_ok ty st e0 ((T0[i := de # c])[i := c])"
  proof (rule table_ok_update [OF T0(1)])
    show "chain_ok c" using chain(1) by (simp add: chain_ok_Cons)
    show "unat (hashFunction ty (fst (ent st q))) mod 2 ^ e0 = i" if "q \<in> set c" for q
      using chain(2) [OF that] eq [of q] in_concat [of i "T0[i := c]" q] T0(2) that by simp
    show "ent st q = ent st0 q" if "j < length (T0[i := de # c])" "j \<noteq> i" "q \<in> set (T0[i := de # c] ! j)" for j q
      using eq [of q] in_concat [of j "T0[i := c]" q] that by simp
  qed (use T0(2) in simp)
  then show "table_ok ty st e0 (T0[i := c])" by simp
  show "table_ok ty st e1 (T1[h := r # T1 ! h])"
  proof (rule table_ok_update [OF T1])
    show "chain_ok (r # T1 ! h)" using T1 last by (auto simp: chain_ok_Cons table_ok_def)
    show "unat (hashFunction ty (fst (ent st q))) mod 2 ^ e1 = h" if "q \<in> set (r # T1 ! h)" for q
      using that er h eq [of q] in_concat [OF T1(2), of q] T1 by (auto simp: table_ok_def)
    show "ent st q = ent st0 q" if "j < length T1" "j \<noteq> h" "q \<in> set (T1 ! j)" for j q
      using eq [of q] in_concat [OF that(1,3)] by simp
  qed
qed

lemma tab_invI: "e \<le> 60 \<Longrightarrow> ht_size_exp s t = int e \<Longrightarrow> table_ok (dtype s) (store s) e (tab s t) \<Longrightarrow> ht_table s t \<noteq> None \<Longrightarrow> tab_inv s t"
  by (auto simp: tab_inv_def tab_def)

lemma moved_inv:
  fixes s :: dstate
  defines "s' \<equiv> \<lambda>h r st. add_used 1 1 (add_used 0 (- 1) (put 1 h (r # tab s 1 ! h) (s\<lparr>store := st\<rparr>)))"
  assumes inv: "dict_inv X (put 0 i (de # c) s)" and sm: "small X (put 0 i (de # c) s)"
    and i: "rehashidx s = int i" "i < length (tab s 0)"
    and e1: "ht_size_exp s 1 = int e1" and h: "h = unat (dictHashKey s (fst (ent (store s) de))) mod 2 ^ e1"
    and heap: "heap_ok (dtype s) X st (r # refs (put 0 i c s))" and er: "ent st r = ent (store s) de"
    and eq: "\<And>q. q \<in> set (refs (put 0 i c s)) \<Longrightarrow> ent st q = ent (store s) q"
    and last: "tab s 1 ! h = [] \<or> \<not> entryIsKey r"
  shows "dict_inv X (put 0 i c (s' h r st))" and "ents (put 0 i c (s' h r st)) = ents (put 0 i (de # c) s)"
proof -
  let ?s = "put 0 i (de # c) s" and ?n = "put 0 i c (s' h r st)"
  have used: "used_inv ?s" and reh: "rehash_inv ?s" and t0: "tab_inv ?s 0" and t1: "tab_inv ?s 1"
    using inv by (simp_all add: dict_inv_def)
  have live: "ht_table s 0 \<noteq> None" "ht_table s 1 \<noteq> None" using reh i(1) by (auto simp: rehash_inv_def)
  obtain e0 where e0: "e0 \<le> 60" "ht_size_exp s 0 = int e0" "table_ok (dtype s) (store s) e0 ((tab s 0)[i := de # c])"
    using tab_invE [OF t0] live(1) by auto
  have ok1: "table_ok (dtype s) (store s) e1 (tab s 1)" "e1 \<le> 60" using tab_invE [OF t1] live(2) e1 by auto
  have hl: "h < length (tab s 1)" using ok1 h by (simp add: table_ok_def)
  have refs: "mset (refs ?n) = add_mset r (mset (refs (put 0 i c s)))"
    using refs_two_puts [OF i(2) hl, of c r] by (simp add: s'_def put_add_used put_store)
  have tabs: "table_ok (dtype s) st e0 ((tab s 0)[i := c])" "table_ok (dtype s) st e1 ((tab s 1)[h := r # tab s 1 ! h])"
    using moved_tables [OF e0(3) i(2) ok1(1) hl, of st r] er h eq last by (auto simp: in_refs dictHashKey_def)
  have len0: "length (concat ((tab s 0)[i := de # c])) = Suc (length (concat ((tab s 0)[i := c])))"
    using length_concat_update [OF i(2), of "de # c"] length_concat_update [OF i(2), of c] by simp
  have len1: "length (concat ((tab s 1)[h := r # tab s 1 ! h])) = Suc (length (concat (tab s 1)))"
    using length_concat_update [OF hl, of "r # tab s 1 ! h"] by simp
  have lt: "unat (ht_used s 1) < 2 ^ 60" using sm used by (simp add: small_def size_ents refs_def used_inv_def)
  have u: "unat (ht_used s 0 + (- 1)) = length (concat ((tab s 0)[i := c]))"
    "unat (ht_used s 1 + 1) = length (concat ((tab s 1)[h := r # tab s 1 ! h]))"
    using used used_dec [of "ht_used s 0"] used_inc [OF lt] len0 len1 by (simp_all add: used_inv_def)
  have "heap_ok (dtype s) X st (refs ?n)" by (rule heap_ok_perm [OF heap]) (simp add: refs)
  then show "dict_inv X ?n"
    unfolding dict_inv_def
  proof (intro conjI)
    show "tab_inv ?n 0" "tab_inv ?n 1"
      by (rule tab_invI [of e0], use e0 tabs live in \<open>simp_all add: s'_def\<close>)
        (rule tab_invI [of e1], use e1 ok1 tabs live in \<open>simp_all add: s'_def\<close>)
    show "used_inv ?n" using u by (simp add: used_inv_def s'_def)
    show "rehash_inv ?n" using reh i by (auto simp: rehash_inv_def s'_def)
  qed (simp add: s'_def)
  have "image_mset (ent st) (mset (refs (put 0 i c s))) = image_mset (ent (store s)) (mset (refs (put 0 i c s)))"
    by (rule image_mset_cong) (use eq in simp)
  moreover have "store ?n = st" by (simp add: s'_def)
  ultimately show "ents ?n = ents ?s"
    using refs er mset_refs_put_Cons [of 0 i s de c] i(2) by (simp add: ents_def)
qed

lemma rehash_one_ok:
  assumes env: "roomy env" and inv: "dict_inv X (put 0 i (de # c) s)" and sm: "small X (put 0 i (de # c) s)"
    and i: "rehashidx s = int i" "i < length (tab s 0)"
  shows "\<exists>s'. rehash_one env s de = Some s' \<and> dict_inv X (put 0 i c s') \<and> ents (put 0 i c s') = ents (put 0 i (de # c) s) \<and>
    frame s s' \<and> rehashidx s' = rehashidx s \<and> ht_size_exp s' = ht_size_exp s \<and> ht_table s' 0 = ht_table s 0"
proof -
  let ?s = "put 0 i (de # c) s" and ?st = "store s" and ?rs = "refs (put 0 i c s)"
  have heap: "heap_ok (dtype s) X ?st (refs ?s)" and used: "used_inv ?s" and reh: "rehash_inv ?s"
    and t0: "tab_inv ?s 0" and t1: "tab_inv ?s 1"
    using inv by (simp_all add: dict_inv_def)
  have live: "ht_table s 0 \<noteq> None" "ht_table s 1 \<noteq> None" using reh i(1) by (auto simp: rehash_inv_def)
  obtain e0 where e0: "e0 \<le> 60" "ht_size_exp s 0 = int e0" "table_ok (dtype s) ?st e0 ((tab s 0)[i := de # c])"
    using tab_invE [OF t0] live(1) by auto
  obtain e1 where e1: "e1 \<le> 60" "ht_size_exp s 1 = int e1" "table_ok (dtype s) ?st e1 (tab s 1)"
    using tab_invE [OF t1] live(2) by auto
  have perm: "mset (de # ?rs) = mset (refs ?s)" using mset_refs_put_Cons [of 0 i s de c] i(2) by simp
  note heap1 = heap_ok_perm [OF heap perm]
  have len: "length (de # ?rs) + card X < 2 ^ 40" and fin: "finite X"
    using sm perm [THEN arg_cong, of size] by (simp_all add: small_def size_ents)
  obtain k v where k: "ent ?st de = (k, v)" by (cases "ent ?st de")
  have ref: "ref_ok (dtype s) ?st de" using heap1 by (simp add: heap_ok_def)
  have pos: "unat (dictHashKey s k) mod 2 ^ e0 = i"
    using e0(3) i(2) k by (auto simp: table_ok_def dictHashKey_def)
  define h where "h = unat (dictHashKey s k) mod 2 ^ e1"
  have h: "h < length (tab s 1)" using e1(3) by (simp add: h_def table_ok_def)
  obtain st r where place: "rehash_place env s de k (tab s 1 ! h) = Some (s\<lparr>store := st\<rparr>, r # tab s 1 ! h)"
    and heap2: "heap_ok (dtype s) X st (r # ?rs)" and er: "ent st r = (k, v)"
    and eq: "\<And>q. q \<in> set ?rs \<Longrightarrow> ent st q = ent ?st q" and last: "tab s 1 ! h = [] \<or> \<not> entryIsKey r"
    using rehash_place_ok [OF env heap1 fin len, of k "tab s 1 ! h"] k by auto
  define s' where "s' = add_used 1 1 (add_used 0 (- 1) (put 1 h (r # tab s 1 ! h) (s\<lparr>store := st\<rparr>)))"
  have run: "rehash_one env s de = Some s'"
    using ref_ok_ops(1) [OF ref] k rehash_index [OF i(1) e0(2) e1(2) e0(1) pos] place h
    by (simp add: rehash_one_def Let_def bucket_tab set_bucket_put h_def [symmetric] s'_def)
  have e: "ent st r = ent (store s) de" and h': "h = unat (dictHashKey s (fst (ent (store s) de))) mod 2 ^ e1"
    using er k by (simp_all add: h_def)
  note moved = moved_inv [OF inv sm i e1(2) h' heap2 e eq last, folded s'_def]
  then show ?thesis using run by (auto simp: s'_def frame_def put_def)
qed

lemma bucket_chain:
  assumes "dict_inv X s" and "t = 0 \<or> t = 1" and "i < length (tab s t)"
  shows "chain_ok (tab s t ! i)" and "r \<in> set (tab s t ! i) \<Longrightarrow> ref_ok (dtype s) (store s) r"
proof -
  have "ht_table s t \<noteq> None" using assms(3) by (cases "ht_table s t") (simp_all add: tab_def)
  moreover have "tab_inv s t" using assms(1,2) by (auto simp: dict_inv_def)
  ultimately show "chain_ok (tab s t ! i)" using assms(3) by (auto elim!: tab_invE simp: table_ok_def)
  show "r \<in> set (tab s t ! i) \<Longrightarrow> ref_ok (dtype s) (store s) r"
    using assms in_concat [OF assms(3), of r] by (auto simp: dict_inv_def heap_ok_def in_refs)
qed

lemma dictGetNext_ok:
  assumes "chain_ok (r # c)" and "ref_ok (dtype s) (store s) r"
  shows "dictGetNext s (r # c) = Some c"
  using ref_ok_ops(2) [OF assms(2), of c] assms(1) by (auto simp: chain_ok_Cons)

lemma rehash_chain_ok:
  assumes env: "roomy env"
  shows "dict_inv X (put 0 i c s) \<Longrightarrow> small X (put 0 i c s) \<Longrightarrow> rehashidx s = int i \<Longrightarrow> i < length (tab s 0) \<Longrightarrow>
    \<exists>s'. rehash_chain env s c = Some s' \<and> dict_inv X (put 0 i [] s') \<and> ents (put 0 i [] s') = ents (put 0 i c s) \<and>
      frame s s' \<and> rehashidx s' = rehashidx s \<and> ht_size_exp s' = ht_size_exp s \<and> ht_table s' 0 = ht_table s 0"
proof (induction c arbitrary: s)
  case Nil
  then show ?case by simp
next
  case (Cons de c)
  obtain s1 where one: "rehash_one env s de = Some s1" "dict_inv X (put 0 i c s1)"
    "ents (put 0 i c s1) = ents (put 0 i (de # c) s)" "frame s s1" "rehashidx s1 = rehashidx s"
    "ht_size_exp s1 = ht_size_exp s" "ht_table s1 0 = ht_table s 0"
    using rehash_one_ok [OF env Cons.prems] by blast
  have "dictGetNext s (de # c) = Some c"
    using bucket_chain [OF Cons.prems(1), of 0 i] Cons.prems(4) by (intro dictGetNext_ok) auto
  moreover have "\<exists>s'. rehash_chain env s1 c = Some s' \<and> dict_inv X (put 0 i [] s') \<and> ents (put 0 i [] s') = ents (put 0 i c s1) \<and>
      frame s1 s' \<and> rehashidx s' = rehashidx s1 \<and> ht_size_exp s' = ht_size_exp s1 \<and> ht_table s' 0 = ht_table s1 0"
    using one Cons.prems by (intro Cons.IH) (simp_all add: small_def tab_def)
  ultimately show ?case using one by (auto simp: rehash_chain.simps(2) intro: frame_trans)
qed

lemma rehash_skip_ok:
  "0 \<le> rehashidx s \<Longrightarrow> j < length (tab s 0) \<Longrightarrow> tab s 0 ! j \<noteq> [] \<Longrightarrow> rehashidx s \<le> int j \<Longrightarrow> 0 < ev \<Longrightarrow>
    \<exists>i ev' out. rehash_skip s ev = Some (s\<lparr>rehashidx := i\<rparr>, ev', out) \<and> rehashidx s \<le> i \<and> i \<le> int j \<and> 
      (\<forall>k. rehashidx s \<le> int k \<longrightarrow> int k < i \<longrightarrow> tab s 0 ! k = []) \<and>
      (if out then rehashidx s < i else 0 < ev' \<and> tab s 0 ! nat i \<noteq> [])"
proof (induction s ev rule: rehash_skip.induct)
  case (1 s ev)
  let ?i = "nat (rehashidx s)"
  have il: "?i < length (tab s 0)" using "1.prems" by linarith
  show ?case
  proof (cases "tab s 0 ! ?i = []")
    case False
    then show ?thesis using "1.prems" il
      by (intro exI [of _ "rehashidx s"] exI [of _ ev] exI [of _ False]) (auto simp: rehash_skip.simps [of s] bucket_tab)
  next
    case True
    then have lt: "rehashidx s < int j" using "1.prems" by (cases "rehashidx s = int j") auto
    let ?s = "s\<lparr>rehashidx := rehashidx s + 1\<rparr>"
    have tab: "tab ?s = tab s" by (simp add: tab_def fun_eq_iff)
    have here: "tab s 0 ! k = []" if "rehashidx s \<le> int k" "int k < rehashidx s + 1" for k
    proof -
      have "k = ?i" using that by linarith
      then show ?thesis using True by simp
    qed
    show ?thesis
    proof (cases "ev - 1 = 0")
      case e: True
      then show ?thesis using "1.prems" il True lt here
        by (intro exI [of _ "rehashidx s + 1"] exI [of _ 0] exI [of _ True])
          (auto simp: rehash_skip.simps [of s] bucket_tab Let_def)
    next
      case e: False
      have "\<exists>i ev' out. rehash_skip ?s (ev - 1) = Some (?s\<lparr>rehashidx := i\<rparr>, ev', out) \<and> rehashidx ?s \<le> i \<and> i \<le> int j \<and>
          (\<forall>k. rehashidx ?s \<le> int k \<longrightarrow> int k < i \<longrightarrow> tab ?s 0 ! k = []) \<and>
          (if out then rehashidx ?s < i else 0 < ev' \<and> tab ?s 0 ! nat i \<noteq> [])"
        by (rule "1.IH" [OF _ bucket_tab [OF il]]) (use "1.prems" True e lt tab in simp_all)
      then obtain i ev' out where r: "rehash_skip ?s (ev - 1) = Some (s\<lparr>rehashidx := i\<rparr>, ev', out)" "rehashidx s + 1 \<le> i" "i \<le> int j"
        "\<forall>k. rehashidx s + 1 \<le> int k \<longrightarrow> int k < i \<longrightarrow> tab s 0 ! k = []"
        "if out then rehashidx s + 1 < i else 0 < ev' \<and> tab s 0 ! nat i \<noteq> []"
        unfolding tab by (auto split: if_splits)
      have run: "rehash_skip s ev = Some (s\<lparr>rehashidx := i\<rparr>, ev', out)"
        using r(1) "1.prems"(1) il True e by (simp add: rehash_skip.simps [of s] bucket_tab Let_def)
      have "\<forall>k. rehashidx s \<le> int k \<longrightarrow> int k < i \<longrightarrow> tab s 0 ! k = []"
        using here r(4) by (meson not_le_imp_less zless_imp_add1_zle linorder_not_le)
      with run r(2,3,5) show ?thesis by (intro exI [of _ i] exI [of _ ev'] exI [of _ out]) auto
    qed
  qed
qed

lemma dict_inv_rehashidx:
  assumes "dict_inv X s" and "0 \<le> rehashidx s" and "0 \<le> i" "i \<le> int (length (tab s 0))" and "\<And>k. int k < i \<Longrightarrow> tab s 0 ! k = []"
  shows "dict_inv X (s\<lparr>rehashidx := i\<rparr>)" and "ents (s\<lparr>rehashidx := i\<rparr>) = ents s"
proof -
  have tab: "tab (s\<lparr>rehashidx := i\<rparr>) = tab s" "refs (s\<lparr>rehashidx := i\<rparr>) = refs s"
    by (simp_all add: tab_def refs_def fun_eq_iff)
  show "ents (s\<lparr>rehashidx := i\<rparr>) = ents s" by (simp add: ents_def tab)
  show "dict_inv X (s\<lparr>rehashidx := i\<rparr>)"
    using assms by (auto simp: dict_inv_def tab_inv_def used_inv_def rehash_inv_def tab split: if_splits)
qed

lemma used_bucket:
  assumes "dict_inv X s" and "ht_used s t \<noteq> 0" and "t = 0 \<or> t = 1"
  obtains j where "j < length (tab s t)" "tab s t ! j \<noteq> []"
proof -
  have "unat (ht_used s t) = length (concat (tab s t))" using assms(1,3) by (auto simp: dict_inv_def used_inv_def)
  then have "concat (tab s t) \<noteq> []" using assms(2) by (metis length_0_conv unat_eq_zero)
  then show thesis using that by (metis concat_eq_Nil_conv in_set_conv_nth)
qed

lemma rehash_bound:
  assumes "dict_inv X s" and "i < length (tab s 0)" and "rehashidx s = int i"
  shows "word_of_int (rehashidx s) < DICTHT_SIZE (ht_size_exp s 0)"
proof -
  have "ht_table s 0 \<noteq> None" using assms(2) by (cases "ht_table s 0") (simp_all add: tab_def)
  then obtain e where e: "e \<le> 60" "ht_size_exp s 0 = int e" "length (tab s 0) = 2 ^ e"
    using assms(1) tab_invE [of s 0] by (auto simp: dict_inv_def)
  have "(2 :: nat) ^ e < 2 ^ 64" by (rule power_strict_increasing) (use e(1) in simp_all)
  then have "unat (word_of_int (int i) :: 64 word) = i" using assms(2) e(3) by (simp add: unat_of_nat)
  then show ?thesis using e assms(2,3) by (simp add: word_less_nat_alt unat_DICTHT_SIZE)
qed

definition loop_ok :: "ref set \<Rightarrow> dstate \<Rightarrow> dstate \<Rightarrow> bool" where
  "loop_ok X s s' \<longleftrightarrow> dict_inv X s' \<and> ents s' = ents s \<and> frame s s' \<and> rehashidx s \<le> rehashidx s' \<and> ht_size_exp s' = ht_size_exp s"

lemma loop_ok_trans: "loop_ok X s s' \<Longrightarrow> loop_ok X s' s'' \<Longrightarrow> loop_ok X s s''"
  by (auto simp: loop_ok_def intro: frame_trans)

text \<open>One turn of the outer loop: the bucket at the rehash index is moved.\<close>

lemma rehash_turn:
  assumes env: "roomy env" and inv: "dict_inv X s" and sm: "small X s" and i: "rehashidx s = int i" "i < length (tab s 0)"
  shows "\<exists>s1. rehash_chain env s (tab s 0 ! i) = Some s1 \<and> set_bucket s1 0 (nat (rehashidx s1)) [] = Some (put 0 i [] s1) \<and>
    rehashidx s1 = int i \<and> loop_ok X s ((put 0 i [] s1)\<lparr>rehashidx := int i + 1\<rparr>)"
proof -
  have same: "put 0 i (tab s 0 ! i) s = s" by (rule put_same [OF i(2) refl])
  obtain s1 where s1: "rehash_chain env s (tab s 0 ! i) = Some s1" "dict_inv X (put 0 i [] s1)" "ents (put 0 i [] s1) = ents s"
    "frame s s1" "rehashidx s1 = rehashidx s" "ht_size_exp s1 = ht_size_exp s" "ht_table s1 0 = ht_table s 0"
    using rehash_chain_ok [OF env, of X i "tab s 0 ! i" s] inv sm i same by auto
  have il: "i < length (tab s1 0)" "tab s1 0 = tab s 0" using i(2) s1(7) by (simp_all add: tab_def)
  have empty: "tab (put 0 i [] s1) 0 ! k = []" if "int k < int i + 1" for k
    using inv i that il by (cases "k = i") (auto simp: dict_inv_def rehash_inv_def)
  have "dict_inv X ((put 0 i [] s1)\<lparr>rehashidx := int i + 1\<rparr>)" "ents ((put 0 i [] s1)\<lparr>rehashidx := int i + 1\<rparr>) = ents s"
    using dict_inv_rehashidx [OF s1(2), of "int i + 1"] empty s1(3,5) i il by auto
  then show ?thesis
    using s1 il i by (auto simp: loop_ok_def set_bucket_put frame_def)
qed

lemma rehash_loop_ok:
  assumes env: "roomy env"
  shows "dict_inv X s \<Longrightarrow> small X s \<Longrightarrow> 0 \<le> rehashidx s \<Longrightarrow> 0 < n \<longrightarrow> 0 < ev \<Longrightarrow>
    \<exists>s' out. rehash_loop n env s ev = Some (s', out) \<and> loop_ok X s s' \<and>
      (0 < n \<and> ht_used s 0 \<noteq> 0 \<longrightarrow> rehashidx s < rehashidx s') \<and> (out \<longrightarrow> ht_used s' 0 \<noteq> 0)"
proof (induction n arbitrary: s ev)
  case 0
  then show ?case by (auto simp: loop_ok_def intro: exI [of _ False])
next
  case (Suc n)
  show ?case
  proof (cases "ht_used s 0 = 0")
    case True
    then show ?thesis using Suc.prems by (auto simp: loop_ok_def intro: exI [of _ False])
  next
    case False
    obtain j where j: "j < length (tab s 0)" "tab s 0 ! j \<noteq> []" using used_bucket [OF Suc.prems(1) False] by auto
    have low: "tab s 0 ! k = []" if "int k < rehashidx s" for k
      using Suc.prems(1,3) that by (auto simp: dict_inv_def rehash_inv_def)
    have ij: "rehashidx s \<le> int j" using low [of j] j(2) by linarith
    obtain i ev' out where skip: "rehash_skip s ev = Some (s\<lparr>rehashidx := i\<rparr>, ev', out)" "rehashidx s \<le> i" "i \<le> int j"
      "\<And>k. rehashidx s \<le> int k \<Longrightarrow> int k < i \<Longrightarrow> tab s 0 ! k = []"
      "if out then rehashidx s < i else 0 < ev' \<and> tab s 0 ! nat i \<noteq> []"
      using rehash_skip_ok [OF Suc.prems(3) j ij, of ev] Suc.prems(4) by auto
    let ?s = "s\<lparr>rehashidx := i\<rparr>"
    have "tab s 0 ! k = []" if "int k < i" for k using low skip(4) that by (cases "int k < rehashidx s") auto
    then have inv: "dict_inv X ?s" "ents ?s = ents s"
      using dict_inv_rehashidx [OF Suc.prems(1,3), of i] skip(2,3) j(1) Suc.prems(3) by auto
    have bound: "word_of_int (rehashidx s) < DICTHT_SIZE (ht_size_exp s 0)"
      using rehash_bound [OF Suc.prems(1), of "nat (rehashidx s)"] ij j(1) Suc.prems(3) by simp
    have ok: "loop_ok X s ?s" using inv skip(2) by (simp add: loop_ok_def frame_def)
    show ?thesis
    proof (cases out)
      case True
      then show ?thesis using False bound skip ok by (auto simp: check_def)
    next
      case nout: False
      have il: "rehashidx ?s = int (nat i)" "nat i < length (tab ?s 0)"
        using skip(2,3) j(1) Suc.prems(3) by (simp_all add: tab_def)
      have sm: "small X ?s" using Suc.prems(2) inv(2) by (simp add: small_def)
      from rehash_turn [OF env inv(1) sm il] obtain s1 where turn: "rehash_chain env ?s (tab ?s 0 ! nat i) = Some s1"
        "set_bucket s1 0 (nat (rehashidx s1)) [] = Some (put 0 (nat i) [] s1)" "rehashidx s1 = int (nat i)"
        "loop_ok X ?s ((put 0 (nat i) [] s1)\<lparr>rehashidx := int (nat i) + 1\<rparr>)" by blast
      let ?s2 = "(put 0 (nat i) [] s1)\<lparr>rehashidx := int (nat i) + 1\<rparr>"
      have "dict_inv X ?s2" "small X ?s2" "ents ?s2 = ents s"
        using turn(4) sm inv(2) by (auto simp: loop_ok_def small_def)
      from Suc.IH [OF this(1,2), of ev'] skip(5) nout obtain s' out' where rest: "rehash_loop n env ?s2 ev' = Some (s', out')"
        "loop_ok X ?s2 s'" "out' \<longrightarrow> ht_used s' 0 \<noteq> 0" by auto
      have run: "rehash_loop (Suc n) env s ev = Some (s', out')"
        using False bound skip(1) nout turn(1-3) rest(1) bucket_tab [OF il(2)] skip(2) Suc.prems(3)
        by (simp add: check_def del: tab_put)
      have "rehashidx s < rehashidx s'" using rest(2) skip(2) Suc.prems(3) by (auto simp: loop_ok_def)
      then show ?thesis using run loop_ok_trans [OF loop_ok_trans [OF ok turn(4)] rest(2)] rest(3) by auto
    qed
  qed
qed

definition rehash_done :: "dstate \<Rightarrow> dstate" where
  "rehash_done s =
    (dictReset 1 (s\<lparr>ht_table := (ht_table s)(0 := ht_table s 1), ht_used := (ht_used s)(0 := ht_used s 1),
      ht_size_exp := (ht_size_exp s)(0 := ht_size_exp s 1)\<rparr>))\<lparr>rehashidx := -1\<rparr>"

lemma rehash_done_ok:
  assumes inv: "dict_inv X s" and u: "ht_used s 0 = 0"
  shows "dict_inv X (rehash_done s)" and "ents (rehash_done s) = ents s" and "frame s (rehash_done s)"
    and "\<not> dictIsRehashing (rehash_done s)"
proof -
  have t: "tab (rehash_done s) 0 = tab s 1" "tab (rehash_done s) 1 = []"
    by (simp_all add: rehash_done_def dictReset_def tab_def)
  have "concat (tab s 0) = []" using inv u by (simp add: dict_inv_def used_inv_def del: concat_eq_Nil_conv)
  then have r: "refs (rehash_done s) = refs s" unfolding refs_def t by simp
  have st: "store (rehash_done s) = store s" "dtype (rehash_done s) = dtype s"
    by (simp_all add: rehash_done_def dictReset_def)
  show "ents (rehash_done s) = ents s" by (simp add: ents_def r st)
  show "frame s (rehash_done s)" by (simp add: frame_def rehash_done_def dictReset_def)
  show "\<not> dictIsRehashing (rehash_done s)" by (simp add: dictIsRehashing_def rehash_done_def)
  have "tab_inv (rehash_done s) 0" "tab_inv (rehash_done s) 1"
    using inv by (auto simp: dict_inv_def tab_inv_def rehash_done_def dictReset_def split: option.splits)
  moreover have "used_inv (rehash_done s)"
    using inv unfolding dict_inv_def used_inv_def t by (simp add: rehash_done_def dictReset_def)
  moreover have "rehash_inv (rehash_done s)" by (simp add: rehash_inv_def rehash_done_def dictReset_def)
  ultimately show "dict_inv X (rehash_done s)" using inv by (simp add: dict_inv_def r st)
qed

lemma rehashing_tables:
  assumes "dict_inv X s" and "dictIsRehashing s"
  shows "ht_table s 0 \<noteq> None" "ht_table s 1 \<noteq> None" "0 \<le> rehashidx s" "rehashidx s \<le> int (length (tab s 0))"
  using assms by (auto simp: dict_inv_def rehash_inv_def dictIsRehashing_def split: if_splits)

lemma table_size_nonzero:
  assumes "dict_inv X s" and "ht_table s t \<noteq> None" and "t = 0 \<or> t = 1"
  shows "DICTHT_SIZE (ht_size_exp s t) \<noteq> 0" "unat (DICTHT_SIZE (ht_size_exp s t)) = length (tab s t)"
proof -
  obtain e where e: "e \<le> 60" "ht_size_exp s t = int e" "length (tab s t) = 2 ^ e"
    using assms tab_invE [of s t] by (auto simp: dict_inv_def)
  then show "unat (DICTHT_SIZE (ht_size_exp s t)) = length (tab s t)" by (simp add: unat_DICTHT_SIZE)
  with e(3) show "DICTHT_SIZE (ht_size_exp s t) \<noteq> 0" by auto
qed

text \<open>The rehashing work that is left.\<close>

definition work_left :: "dstate \<Rightarrow> nat" where
  "work_left s = (if dictIsRehashing s then Suc (length (tab s 0)) - nat (rehashidx s) else 0)"

lemma work_left_less:
  assumes inv: "dict_inv X s" "dict_inv X s'" and re: "dictIsRehashing s"
    and s': "rehashidx s < rehashidx s'" "ht_size_exp s' = ht_size_exp s"
  shows "work_left s' < work_left s"
proof -
  have re': "dictIsRehashing s'" using s'(1) rehashing_tables(3) [OF inv(1) re] by (simp add: dictIsRehashing_def)
  have "length (tab s' 0) = length (tab s 0)"
    using table_size_nonzero(2) [OF inv(1) rehashing_tables(1) [OF inv(1) re]] s'(2)
      table_size_nonzero(2) [OF inv(2) rehashing_tables(1) [OF inv(2) re']] by simp
  then show ?thesis
    using re re' s'(1) rehashing_tables(3,4) [OF inv(1) re] rehashing_tables(4) [OF inv(2) re'] by (simp add: work_left_def)
qed

lemma rehash_near_ok:
  assumes inv: "dict_inv X s" and re: "dictIsRehashing s"
  shows "\<exists>near. rehash_near s = Some near \<and> (dict_can_resize s = DICT_RESIZE_ENABLE \<longrightarrow> \<not> near)"
  using table_size_nonzero(1) [OF inv rehashing_tables(1) [OF inv re]] table_size_nonzero(1) [OF inv rehashing_tables(2) [OF inv re]]
  by (auto simp: rehash_near_def udiv_def Let_def)

lemma dictRehash_ok:
  assumes env: "roomy env" and inv: "dict_inv X s" and sm: "small X s" and n: "n \<le> 214748364"
  shows "\<exists>s' more. dictRehash env s n = Some (s', more) \<and> dict_inv X s' \<and> ents s' = ents s \<and> frame s s' \<and>
    (\<not> dictIsRehashing s \<longrightarrow> s' = s \<and> \<not> more) \<and> (0 < n \<and> more \<longrightarrow> work_left s' < work_left s) \<and>
    (dict_can_resize s = DICT_RESIZE_ENABLE \<and> dictIsRehashing s \<and> 0 < n \<longrightarrow>
      more = dictIsRehashing s' \<and> work_left s' < work_left s)"
proof (cases "dictIsRehashing s")
  case False
  then show ?thesis using inv n by (intro exI [of _ s] exI [of _ False]) (simp add: dictRehash_def Let_def)
next
  case re: True
  note tabs = rehashing_tables [OF inv re]
  obtain near where near: "rehash_near s = Some near" "dict_can_resize s = DICT_RESIZE_ENABLE \<Longrightarrow> \<not> near"
    using rehash_near_ok [OF inv re] by blast
  show ?thesis
  proof (cases "dict_can_resize s = DICT_RESIZE_FORBID \<or> near")
    case True
    then have "dictRehash env s n = Some (s, False)" "dict_can_resize s \<noteq> DICT_RESIZE_ENABLE"
      using near re n by (auto simp: dictRehash_def Let_def simp del: if_split)
    then show ?thesis using inv re by (intro exI [of _ s] exI [of _ False]) simp
  next
    case go: False
    obtain s' out where loop: "rehash_loop n env s (int n * 10) = Some (s', out)" "loop_ok X s s'"
      "0 < n \<and> ht_used s 0 \<noteq> 0 \<longrightarrow> rehashidx s < rehashidx s'" "out \<longrightarrow> ht_used s' 0 \<noteq> 0"
      using rehash_loop_ok [OF env inv sm tabs(3), of n "int n * 10"] by auto
    have start: "dictRehash env s n = (if out then Some (s', True)
        else if ht_used s' 0 = 0 then Some (rehash_done s', False) else Some (s', True))"
      using near(1) go re loop(1) n by (simp add: dictRehash_def Let_def rehash_done_def del: if_split)
    have inv': "dict_inv X s'" "ents s' = ents s" "frame s s'" "ht_size_exp s' = ht_size_exp s" "rehashidx s \<le> rehashidx s'"
      using loop(2) by (simp_all add: loop_ok_def)
    have re': "dictIsRehashing s'" using inv'(5) tabs(3) by (simp add: dictIsRehashing_def)
    show ?thesis
    proof (cases "ht_used s' 0 = 0")
      case True
      have "work_left (rehash_done s') < work_left s"
        using rehash_done_ok(4) [OF inv'(1) True] re tabs(4) by (simp add: work_left_def nat_le_iff)
      with True start rehash_done_ok [OF inv'(1) True] inv'(2,3) re loop(4) show ?thesis
        by (intro exI [of _ "rehash_done s'"] exI [of _ False]) (auto intro: frame_trans)
    next
      case False
      have "0 < n \<Longrightarrow> ht_used s 0 \<noteq> 0" using loop(1) False by (cases n) auto
      then have "0 < n \<Longrightarrow> rehashidx s < rehashidx s'" using loop(3) by blast
      with False start inv' re re' work_left_less [OF inv inv'(1) re _ inv'(4)] show ?thesis
        by (intro exI [of _ s'] exI [of _ True]) auto
    qed
  qed
qed

lemma dictRehashStep_ok:
  assumes "roomy env" "dict_inv X s" "small X s"
  shows "\<exists>s'. step_if_rehashing env s = Some s' \<and> dict_inv X s' \<and> ents s' = ents s \<and> frame s s'"
proof -
  obtain s' more where "dictRehash env s 1 = Some (s', more)" "dict_inv X s'" "ents s' = ents s" "frame s s'"
    using dictRehash_ok [OF assms, of 1] by auto
  then show ?thesis using assms(2) by (auto simp: dictRehashStep_def)
qed

subsection \<open>Resizing\<close>

lemma unat_push_bit_1: "e < 64 \<Longrightarrow> unat (push_bit e 1 :: 64 word) = 2 ^ e"
  using unat_DICTHT_SIZE [of e] by (simp add: DICTHT_SIZE_nat)

lemma dictNextExp_loop_least:
  "e \<le> 63 \<Longrightarrow> unat sz \<le> 2 ^ 63 \<Longrightarrow>
    \<exists>f. dictNextExp_loop sz e = Some f \<and> e \<le> f \<and> f \<le> 63 \<and> unat sz \<le> 2 ^ f \<and> (f = e \<or> 2 ^ (f - 1) < unat sz)"
proof (induction sz e rule: dictNextExp_loop.induct)
  case (1 sz e)
  show ?case
  proof (cases "push_bit e 1 \<ge> sz")
    case True
    then have "unat sz \<le> 2 ^ e" using "1.prems"(1) unat_push_bit_1 [of e] by (simp add: word_le_nat_alt)
    then show ?thesis using True "1.prems"(1) by (subst dictNextExp_loop.simps) simp
  next
    case False
    then have lt: "2 ^ e < unat sz" using "1.prems"(1) unat_push_bit_1 [of e] by (simp add: word_le_nat_alt not_le)
    have "(2 :: nat) ^ e < 2 ^ 63" using lt "1.prems"(2) by linarith
    then have e: "e + 1 \<le> 63" using power_less_imp_less_exp [of "2 :: nat" e 63] by simp
    have "\<exists>f. dictNextExp_loop sz (e + 1) = Some f \<and> e + 1 \<le> f \<and> f \<le> 63 \<and> unat sz \<le> 2 ^ f \<and> (f = e + 1 \<or> 2 ^ (f - 1) < unat sz)"
      by (rule "1.IH") (use "1.prems" False e in auto)
    then obtain f where f: "dictNextExp_loop sz (e + 1) = Some f" "e + 1 \<le> f" "f \<le> 63" "unat sz \<le> 2 ^ f"
      "f = e + 1 \<or> 2 ^ (f - 1) < unat sz" by blast
    have "dictNextExp_loop sz e = Some f" using f(1) False e by (subst dictNextExp_loop.simps) simp
    moreover have "2 ^ (f - 1) < unat sz" using f(5) lt by auto
    ultimately show ?thesis using f by auto
  qed
qed

lemma dictNextExp_least:
  assumes "unat sz < 2 ^ 63 - 1"
  shows "\<exists>f. dictNextExp sz = Some f \<and> 2 \<le> f \<and> f \<le> 63 \<and> unat sz \<le> 2 ^ f \<and> (f = 2 \<or> 2 ^ (f - 1) < unat sz)"
proof -
  have "\<not> LONG_MAX \<le> sz" using assms by (simp add: word_le_nat_alt LONG_MAX_def)
  then show ?thesis
    using dictNextExp_loop_least [of DICT_HT_INITIAL_EXP sz] assms by (simp add: dictNextExp_def DICT_HT_INITIAL_EXP_def)
qed

text \<open>A table of empty buckets.\<close>

lemma table_ok_empty: "table_ok ty st e (replicate (2 ^ e) [])"
  by (simp add: table_ok_def)

definition expanded :: "dstate \<Rightarrow> nat \<Rightarrow> ref \<Rightarrow> nat \<Rightarrow> dstate" where
  "expanded s t a e = s\<lparr>ht_size_exp := (ht_size_exp s)(t := int e), ht_used := (ht_used s)(t := 0),
    ht_table := (ht_table s)(t := Some (a, replicate (2 ^ e) []))\<rparr>"

lemma concat_replicate_Nil [simp]: "concat (replicate n []) = []"
  by (induction n) auto

lemma expanded_first:
  assumes inv: "dict_inv X s" and "ht_table s 0 = None" and "e \<le> 60" and "\<not> dictIsRehashing s"
  shows "dict_inv X (expanded s 0 a e)" and "ents (expanded s 0 a e) = ents s"
proof -
  have "ht_table s 1 = None" using inv assms(4) by (simp add: dict_inv_def rehash_inv_def dictIsRehashing_def)
  then have r: "refs (expanded s 0 a e) = refs s" "refs s = []" using assms(2) by (simp_all add: refs_def tab_def expanded_def)
  show "ents (expanded s 0 a e) = ents s" by (simp add: ents_def r)
  show "dict_inv X (expanded s 0 a e)"
    using inv assms(3,4) table_ok_empty r
    by (auto simp: dict_inv_def tab_inv_def used_inv_def rehash_inv_def dictIsRehashing_def expanded_def tab_def split: option.splits)
qed

lemma expanded_second:
  assumes inv: "dict_inv X s" and "ht_table s 0 \<noteq> None" and "e \<le> 60" and "\<not> dictIsRehashing s"
  shows "dict_inv X ((expanded s 1 a e)\<lparr>rehashidx := 0\<rparr>)" and "ents ((expanded s 1 a e)\<lparr>rehashidx := 0\<rparr>) = ents s"
proof -
  have none: "ht_table s 1 = None" using inv assms(4) by (simp add: dict_inv_def rehash_inv_def dictIsRehashing_def)
  then have r: "refs ((expanded s 1 a e)\<lparr>rehashidx := 0\<rparr>) = refs s" by (simp add: refs_def tab_def expanded_def)
  show "ents ((expanded s 1 a e)\<lparr>rehashidx := 0\<rparr>) = ents s" unfolding ents_def r by (simp add: expanded_def)
  show "dict_inv X ((expanded s 1 a e)\<lparr>rehashidx := 0\<rparr>)"
    using inv assms(2,3) table_ok_empty unfolding dict_inv_def r
    by (auto simp: tab_inv_def used_inv_def rehash_inv_def expanded_def tab_def split: option.splits)
qed

lemma dictExpand_at_ok:
  assumes env: "roomy env" and inv: "dict_inv X s" and sz: "unat sz \<le> 2 ^ 41"
  shows "\<exists>s' ok failed. dictExpand_at env s sz try = Some (s', ok, failed) \<and> dict_inv X s' \<and> ents s' = ents s \<and> frame s s' \<and>
    (\<not> dictIsRehashing s \<and> ht_used s 0 \<le> sz \<and> dictNextExp sz \<noteq> Some (nat (ht_size_exp s 0)) \<longrightarrow> ok \<and> ht_table s' 0 \<noteq> None)"
proof (cases "dictIsRehashing s \<or> ht_used s 0 > sz")
  case True
  then show ?thesis using inv by (intro exI [of _ s] exI [of _ False]) (auto simp: dictExpand_at_def)
next
  case False
  obtain e where e: "dictNextExp sz = Some e" "2 \<le> e" "unat sz \<le> 2 ^ e" "e = 2 \<or> 2 ^ (e - 1) < unat sz"
    using dictNextExp_least [of sz] sz by auto
  have e41: "e \<le> 42"
  proof (rule ccontr)
    assume "\<not> e \<le> 42"
    then have "(2 :: nat) ^ 42 \<le> 2 ^ (e - 1)" by (intro power_increasing) simp_all
    then show False using e(4) sz \<open>\<not> e \<le> 42\<close> by auto
  qed
  have u: "unat (push_bit e 1 :: 64 word) = 2 ^ e" using e41 unat_push_bit_1 by simp
  have "(2 :: nat) ^ e \<le> 2 ^ 42" using e41 by (intro power_increasing) simp_all
  then have u8: "unat ((push_bit e 1 :: 64 word) * 8) = 2 ^ e * 8" using u by (simp add: unat_word_ariths)
  have fit: "\<not> push_bit e 1 < sz" "\<not> (push_bit e 1 :: 64 word) * 8 < push_bit e 1"
    using u u8 e(3) by (simp_all add: word_less_nat_alt)
  show ?thesis
  proof (cases "int e = ht_size_exp s 0")
    case True
    then show ?thesis using inv False e(1) fit
      by (intro exI [of _ s] exI [of _ False]) (auto simp: dictExpand_at_def Let_def)
  next
    case ne: False
    have "unat ((push_bit e 1 :: 64 word) * 8) \<le> 2 ^ 50" using u8 \<open>2 ^ e \<le> 2 ^ 42\<close> by simp
    then obtain a where a: "new_table env s (push_bit e 1 * 8) = Some a" using env unfolding roomy_def by blast
    define s' where "s' = (if ht_table s 0 = None then expanded s 0 a e else (expanded s 1 a e)\<lparr>rehashidx := 0\<rparr>)"
    have "dictExpand_at env s sz try = Some (s', True, False)"
      using False e(1) fit ne a u by (simp add: dictExpand_at_def Let_def s'_def expanded_def)
    moreover have "dict_inv X s'" "ents s' = ents s" "frame s s'" "ht_table s' 0 \<noteq> None"
      using expanded_first [OF inv, of e a] expanded_second [OF inv, of e a] e41 False
      by (simp_all add: s'_def frame_def expanded_def)
    ultimately show ?thesis by blast
  qed
qed

lemma dictExpand_ok:
  assumes "roomy env" and "dict_inv X s" and "unat sz \<le> 2 ^ 41"
  shows "\<exists>s' ok. dictExpand env s sz = Some (s', ok) \<and> dict_inv X s' \<and> ents s' = ents s \<and> frame s s' \<and>
    (\<not> dictIsRehashing s \<and> ht_used s 0 \<le> sz \<and> dictNextExp sz \<noteq> Some (nat (ht_size_exp s 0)) \<longrightarrow> ok \<and> ht_table s' 0 \<noteq> None)"
  using dictExpand_at_ok [OF assms, of False] by (fastforce simp: dictExpand_def)

lemma used_small:
  assumes "dict_inv X s" and "small X s"
  shows "unat (ht_used s 0) < 2 ^ 40" "unat (ht_used s 1) < 2 ^ 40" "unat (ht_used s 0) + unat (ht_used s 1) = size (ents s)"
  using assms by (auto simp: dict_inv_def used_inv_def small_def size_ents refs_def)

lemma dictResize_ok:
  assumes env: "roomy env" and inv: "dict_inv X s" and sm: "small X s"
  shows "\<exists>s' ok. dictResize env s = Some (s', ok) \<and> dict_inv X s' \<and> ents s' = ents s \<and> frame s s'"
proof -
  have "unat (if ht_used s 0 < DICT_HT_INITIAL_SIZE then DICT_HT_INITIAL_SIZE else ht_used s 0) \<le> 2 ^ 41"
    using used_small(1) [OF inv sm] by (simp add: DICT_HT_INITIAL_SIZE_def DICT_HT_INITIAL_EXP_def push_bit_eq_mult)
  from dictExpand_ok [OF env inv this] show ?thesis
    using inv by (cases "dict_can_resize s \<noteq> DICT_RESIZE_ENABLE \<or> dictIsRehashing s")
      (auto simp: dictResize_def Let_def frame_def)
qed

lemma dictExpandIfNeeded_ok:
  assumes env: "roomy env" and inv: "dict_inv X s" and sm: "small X s"
  shows "\<exists>s'. dictExpandIfNeeded env s = Some (s', True) \<and> dict_inv X s' \<and> ents s' = ents s \<and> frame s s' \<and> ht_table s' 0 \<noteq> None"
proof -
  note u = used_small [OF inv sm]
  consider (re) "dictIsRehashing s" | (none) "\<not> dictIsRehashing s" "ht_table s 0 = None"
    | (some) "\<not> dictIsRehashing s" "ht_table s 0 \<noteq> None" by blast
  then show ?thesis
  proof cases
    case re
    then show ?thesis using inv rehashing_tables(1) [OF inv re] by (simp add: dictExpandIfNeeded_def)
  next
    case none
    then have e: "ht_size_exp s 0 = -1" "ht_used s 0 = 0"
      using inv by (simp_all add: dict_inv_def tab_inv_def used_inv_def tab_def unat_eq_zero)
    have i: "unat DICT_HT_INITIAL_SIZE = 4" by (simp add: DICT_HT_INITIAL_SIZE_def DICT_HT_INITIAL_EXP_def push_bit_eq_mult)
    obtain f where "dictNextExp DICT_HT_INITIAL_SIZE = Some f" "2 \<le> f" using dictNextExp_least [of DICT_HT_INITIAL_SIZE] i by auto
    with dictExpand_ok [OF env inv, of DICT_HT_INITIAL_SIZE] none e i show ?thesis
      by (auto simp: dictExpandIfNeeded_def DICTHT_SIZE_def)
  next
    case some
    obtain e where e: "e \<le> 60" "ht_size_exp s 0 = int e" using inv some tab_invE [of s 0] by (auto simp: dict_inv_def)
    have sz: "unat (DICTHT_SIZE (ht_size_exp s 0)) = 2 ^ e" "DICTHT_SIZE (ht_size_exp s 0) \<noteq> 0"
      using e table_size_nonzero [OF inv some(2)] by (simp_all add: unat_DICTHT_SIZE)
    have u1: "unat (ht_used s 0 + 1) = unat (ht_used s 0) + 1" using u(1) by (intro used_inc) simp
    obtain f where f: "dictNextExp (ht_used s 0 + 1) = Some f" "unat (ht_used s 0) + 1 \<le> 2 ^ f"
      using dictNextExp_least [of "ht_used s 0 + 1"] u(1) u1 by auto
    obtain allowed where al: "dictTypeExpandAllowed s = Some allowed"
      using f by (cases "expandAllowed (dtype s)") (auto simp: dictTypeExpandAllowed_def)
    have full: "\<exists>s'. dictExpand env s (ht_used s 0 + 1) = Some (s', True) \<and> dict_inv X s' \<and> ents s' = ents s \<and> frame s s' \<and> ht_table s' 0 \<noteq> None"
      if "2 ^ e \<le> unat (ht_used s 0)"
    proof -
      have "f \<noteq> e" using f(2) that by auto
      with dictExpand_ok [OF env inv, of "ht_used s 0 + 1"] u u1 f some e show ?thesis by (auto simp: word_le_nat_alt)
    qed
    have ratio: "2 ^ e \<le> unat (ht_used s 0)" if "ht_used s 0 div DICTHT_SIZE (ht_size_exp s 0) > dict_force_resize_ratio"
    proof (rule ccontr)
      assume "\<not> 2 ^ e \<le> unat (ht_used s 0)"
      then have "unat (ht_used s 0 div DICTHT_SIZE (ht_size_exp s 0)) = 0" using sz(1) by (simp add: unat_div_distrib)
      then show False using that by (simp add: word_less_nat_alt)
    qed
    show ?thesis
      using full ratio inv some sz al by (auto simp: dictExpandIfNeeded_def udiv_def word_le_nat_alt)
  qed
qed

subsection \<open>Lookup\<close>

abbreviation key_of :: "dstate \<Rightarrow> ref \<Rightarrow> ref" where
  "key_of s r \<equiv> fst (ent (store s) r)"

lemma chain_find_ok:
  "chain_ok c \<Longrightarrow> (\<And>r. r \<in> set c \<Longrightarrow> ref_ok (dtype s) (store s) r) \<Longrightarrow>
    chain_find s P c = Some (dropWhile (\<lambda>r. \<not> P (key_of s r)) c)"
proof (induction c)
  case (Cons r c)
  then have "dictGetKey s r = Some (key_of s r)" "dictGetNext s (r # c) = Some c"
    using ref_ok_ops(1) dictGetNext_ok by auto
  with Cons show ?case by (auto simp: chain_find.simps(2) chain_ok_Cons)
qed simp

lemma hash_index_less:
  assumes "dict_inv X s" and "ht_table s t \<noteq> None" and "t = 0 \<or> t = 1"
  shows "hash_index s h t < length (tab s t)"
    and "r \<in> set (concat (tab s t)) \<Longrightarrow> dictHashKey s (key_of s r) = h \<Longrightarrow> r \<in> set (tab s t ! hash_index s h t)"
proof -
  obtain e where e: "ht_size_exp s t = int e" "table_ok (dtype s) (store s) e (tab s t)"
    using assms tab_invE [of s t] by (auto simp: dict_inv_def)
  have i: "hash_index s h t = unat h mod 2 ^ e" by (simp add: hash_index_def e(1) unat_and_mask)
  show "hash_index s h t < length (tab s t)" using e(2) by (simp add: i table_ok_def)
  show "r \<in> set (tab s t ! hash_index s h t)" if r: "r \<in> set (concat (tab s t))" "dictHashKey s (key_of s r) = h"
  proof -
    obtain c where "c \<in> set (tab s t)" "r \<in> set c" using r(1) by auto
    then obtain j where j: "j < length (tab s t)" "r \<in> set (tab s t ! j)" unfolding in_set_conv_nth [of c] by blast
    then have "unat h mod 2 ^ e = j" using e(2) r(2) by (auto simp: table_ok_def dictHashKey_def)
    then show ?thesis using j(2) i by simp
  qed
qed

text \<open>The lookup in one table.\<close>

lemma bucket_find_ok:
  fixes h :: "64 word"
  assumes inv: "dict_inv X s" and t: "ht_table s t \<noteq> None" "t = 0 \<or> t = 1"
    and c: "c = tab s t ! hash_index s h t"
  shows "bucket s t (hash_index s h t) = Some c" and "chain_find s P c = Some (dropWhile (\<lambda>r. \<not> P (key_of s r)) c)"
    and "dropWhile (\<lambda>r. \<not> P (key_of s r)) c = [] \<Longrightarrow> r \<in> set (concat (tab s t)) \<Longrightarrow> dictHashKey s (key_of s r) = h \<Longrightarrow> \<not> P (key_of s r)"
    and "dropWhile (\<lambda>r. \<not> P (key_of s r)) c = r # c' \<Longrightarrow> r \<in> set (refs s) \<and> P (key_of s r)"
proof -
  note len = hash_index_less(1) [OF inv t, of h]
  show "bucket s t (hash_index s h t) = Some c" using len by (simp add: c bucket_tab)
  show "chain_find s P c = Some (dropWhile (\<lambda>r. \<not> P (key_of s r)) c)"
    unfolding c by (rule chain_find_ok) (rule bucket_chain [OF inv t(2) len], assumption?)+
  show "\<not> P (key_of s r)" if "dropWhile (\<lambda>r. \<not> P (key_of s r)) c = []" "r \<in> set (concat (tab s t))" "dictHashKey s (key_of s r) = h"
    using that(1) hash_index_less(2) [OF inv t that(2,3)] by (simp add: c)
  assume d: "dropWhile (\<lambda>r. \<not> P (key_of s r)) c = r # c'"
  then have "r \<in> set c" by (metis list.set_intros(1) set_dropWhileD)
  then have "r \<in> set (concat (tab s t))" using in_concat [OF len] by (simp add: c)
  then show "r \<in> set (refs s) \<and> P (key_of s r)"
    using d hd_dropWhile [of "\<lambda>r. \<not> P (key_of s r)" c] t(2) by (auto simp: in_refs)
qed

lemma tables_find_ok:
  assumes inv: "dict_inv X s" and t0: "ht_table s 0 \<noteq> None"
  shows "\<exists>t c. tables_find s P h = Some (t, hash_index s h t, c) \<and> t \<le> 1 \<and> ht_table s t \<noteq> None \<and>
    c = dropWhile (\<lambda>r. \<not> P (key_of s r)) (tab s t ! hash_index s h t) \<and>
    (case c of
       [] \<Rightarrow> t = (if dictIsRehashing s then 1 else 0) \<and>
         (\<forall>r \<in> set (refs s). dictHashKey s (key_of s r) = h \<longrightarrow> \<not> P (key_of s r))
     | r # c' \<Rightarrow> r \<in> set (refs s) \<and> P (key_of s r))"
proof -
  note b0 = bucket_find_ok(1) [OF inv t0 disjI1 refl, OF refl, of h]
    and f0 = bucket_find_ok(2-4) [OF inv t0 disjI1 refl, OF refl, of P h]
  let ?d = "\<lambda>t. dropWhile (\<lambda>r. \<not> P (key_of s r)) (tab s t ! hash_index s h t)"
  show ?thesis
  proof (cases "?d 0 \<noteq> [] \<or> \<not> dictIsRehashing s")
    case True
    have run: "tables_find s P h = Some (0, hash_index s h 0, ?d 0)"
      using b0 f0(1) True by (simp add: tables_find_def del: dropWhile_eq_Nil_conv)
    show ?thesis
    proof (cases "?d 0")
      case Nil
      then have "\<not> dictIsRehashing s" using True by blast
      moreover from this have "refs s = concat (tab s 0)"
        using inv by (simp add: dict_inv_def rehash_inv_def dictIsRehashing_def refs_def tab_def)
      ultimately show ?thesis
        using run t0 Nil f0(2) [OF Nil] by (intro exI [of _ 0] exI [of _ "?d 0"]) (simp del: dropWhile_eq_Nil_conv set_concat)
    next
      case (Cons r c)
      then show ?thesis
        using run t0 f0(3) [OF Cons] by (intro exI [of _ 0] exI [of _ "?d 0"]) simp
    qed
  next
    case False
    then have re: "dictIsRehashing s" "ht_table s 1 \<noteq> None" and n0: "?d 0 = []" using rehashing_tables(2) [OF inv] by auto
    note b1 = bucket_find_ok(1) [OF inv re(2) disjI2 refl, OF refl, of h]
      and f1 = bucket_find_ok(2-4) [OF inv re(2) disjI2 refl, OF refl, of P h]
    have run: "tables_find s P h = Some (1, hash_index s h 1, ?d 1)"
      using b0 b1 f0(1) f1(1) False by (simp add: tables_find_def del: dropWhile_eq_Nil_conv)
    show ?thesis
    proof (cases "?d 1")
      case Nil
      have "\<not> P (key_of s r)" if "r \<in> set (refs s)" "dictHashKey s (key_of s r) = h" for r
        using that f0(2) [OF n0, of r] f1(2) [OF Nil, of r] unfolding in_refs by blast
      then show ?thesis
        using run re Nil by (intro exI [of _ 1] exI [of _ "?d 1"]) (simp del: dropWhile_eq_Nil_conv)
    next
      case (Cons r c)
      then show ?thesis
        using run re f1(3) [OF Cons] by (intro exI [of _ 1] exI [of _ "?d 1"]) simp
    qed
  qed
qed

end
