(* ===== verification/Redis_Dict_Ops.thy ===== *)
theory Redis_Dict_Ops
  imports Redis_Dict_Inv
begin

text \<open>
  Lookup, insertion, the update of values and deletion in the hash table: each keeps the invariant and has its
  effect on the contents.
\<close>

subsection \<open>Insertion\<close>

text \<open>The change of one bucket together with the store and the count of the table.\<close>

definition changed :: "nat \<Rightarrow> nat \<Rightarrow> ref list \<Rightarrow> 64 word \<Rightarrow> (ref \<rightharpoonup> dentry) \<Rightarrow> dstate \<Rightarrow> dstate" where
  "changed t i c n st s = add_used t n (put t i c (s\<lparr>store := st\<rparr>))"

lemma changed_fields [simp]:
  "dtype (changed t i c n st s) = dtype s" "rehashidx (changed t i c n st s) = rehashidx s"
  "pauserehash (changed t i c n st s) = pauserehash s" "ht_size_exp (changed t i c n st s) = ht_size_exp s"
  "store (changed t i c n st s) = st" "freedKeys (changed t i c n st s) = freedKeys s"
  "freedVals (changed t i c n st s) = freedVals s" "dict_can_resize (changed t i c n st s) = dict_can_resize s"
  "ht_used (changed t i c n st s) u = (if u = t then ht_used s t + n else ht_used s u)"
  "tab (changed t i c n st s) u = (if u = t then (tab s t)[i := c] else tab s u)"
  "refs (changed t i c n st s) = refs (put t i c s)"
  "ht_table (changed t i c n st s) u = None \<longleftrightarrow> ht_table s u = None"
  "frame s (changed t i c n st s)"
  by (simp_all add: changed_def frame_def put_store)

lemma changed_inv:
  assumes inv: "dict_inv X s" and t: "t = 0 \<or> t = 1" "ht_table s t \<noteq> None" and i: "i < length (tab s t)"
    and heap: "heap_ok (dtype s) X' st (refs (put t i c s))" and c: "chain_ok c"
    and pos: "\<And>r. r \<in> set c \<Longrightarrow> unat (hashFunction (dtype s) (fst (ent st r))) mod length (tab s t) = i"
    and eq: "\<And>q. q \<in> set (refs (put t i [] s)) \<Longrightarrow> ent st q = ent (store s) q"
    and n: "unat (ht_used s t + n) = length (concat ((tab s t)[i := c]))"
    and re: "t = 0 \<Longrightarrow> int i < rehashidx s \<Longrightarrow> c = []"
  shows "dict_inv X' (changed t i c n st s)"
proof -
  let ?n = "changed t i c n st s"
  have used: "used_inv s" and reh: "rehash_inv s" and tabs: "tab_inv s u" if "u = 0 \<or> u = 1" for u
    using inv that by (auto simp: dict_inv_def)
  have tab: "tab_inv ?n u" if u: "u = 0 \<or> u = 1" for u
  proof (cases "ht_table s u = None")
    case True
    then show ?thesis using tabs [OF u] by (simp add: tab_inv_def iffD2 [OF changed_fields(12)])
  next
    case False
    obtain e where e: "e \<le> 60" "ht_size_exp s u = int e" "table_ok (dtype s) (store s) e (tab s u)" "length (tab s u) = 2 ^ e"
      using tab_invE [OF tabs [OF u] False] .
    have "table_ok (dtype s) st e (tab ?n u)"
    proof (cases "u = t")
      case True
      have "ent st r = ent (store s) r" if "j < length (tab s t)" "j \<noteq> i" "r \<in> set (tab s t ! j)" for j r
        using in_concat [of j "(tab s t)[i := []]" r] that t by (intro eq) (auto simp: in_refs)
      then show ?thesis using table_ok_update [OF e(3)] pos c i e(4) True by simp
    next
      case False
      have "ent st r = ent (store s) r" if "r \<in> set (concat (tab s u))" for r
        using that u t False by (intro eq) (auto simp: in_refs)
      then show ?thesis using table_ok_cong [OF e(3)] False by simp
    qed
    then show ?thesis using e False by (intro tab_invI [of e]) simp_all
  qed
  have "used_inv ?n" using used [of 0] n t by (auto simp: used_inv_def)
  moreover have "rehash_inv ?n" using reh [of 0] re i t by (auto simp: rehash_inv_def nth_list_update)
  ultimately show ?thesis using heap tab by (simp add: dict_inv_def)
qed

lemma inserted_inv:
  assumes inv: "dict_inv X s" and t: "t = (if dictIsRehashing s then 1 else 0)" "ht_table s t \<noteq> None" and i: "i = hash_index s (dictHashKey s k) t"
    and heap: "heap_ok (dtype s) X st (r # refs s)" and r: "ent st r = (k, v)" "tab s t ! i = [] \<or> \<not> entryIsKey r"
    and eq: "\<And>q. q \<in> set (refs s) \<Longrightarrow> ent st q = ent (store s) q" and sm: "small X s"
  shows "dict_inv X (changed t i (r # tab s t ! i) 1 st s)" 
    and "ents (changed t i (r # tab s t ! i) 1 st s) = add_mset (k, v) (ents s)"
proof -
  let ?c = "tab s t ! i"
  have t': "t = 0 \<or> t = 1" using t by auto
  have il: "i < length (tab s t)" using hash_index_less(1) [OF inv t(2) t'] i by simp
  have tab: "tab_inv s t" using inv t' by (auto simp: dict_inv_def)
  obtain e where e: "ht_size_exp s t = int e" "table_ok (dtype s) (store s) e (tab s t)" "length (tab s t) = 2 ^ e"
    using tab_invE [OF tab t(2)] .
  have m: "mset (refs (put t i (r # ?c) s)) = add_mset r (mset (refs s))"
    using mset_refs_put_Cons [OF t' il] put_same [OF il refl] by simp
  have c: "chain_ok ?c" using bucket_chain(1) [OF inv t' il] .
  have sub: "q \<in> set (refs s)" if "q \<in> set (refs (put t i [] s))" for q
    using that mset_refs_put [OF t' il, of "[]"] by (metis union_iff set_mset_mset add.right_neutral mset.simps(1))
  have inc: "q \<in> set (refs s)" if "q \<in> set ?c" for q using in_concat [OF il that] t' by (auto simp: in_refs)
  have pos: "unat (hashFunction (dtype s) (fst (ent st q))) mod length (tab s t) = i" if "q \<in> set (r # ?c)" for q
  proof (cases "q = r")
    case True
    then show ?thesis using r i e by (simp add: hash_index_def unat_and_mask dictHashKey_def)
  next
    case False
    then show ?thesis using that e il eq [OF inc] by (auto simp: table_ok_def)
  qed
  have n: "unat (ht_used s t + 1) = length (concat ((tab s t)[i := r # ?c]))"
    using length_concat_update [OF il, of "r # ?c"] used_small [OF inv sm] used_inc [of "ht_used s t"] t' inv
    by (auto simp: dict_inv_def used_inv_def)
  show "dict_inv X (changed t i (r # ?c) 1 st s)"
  proof (rule changed_inv [OF inv t' t(2) il])
    show "heap_ok (dtype s) X st (refs (put t i (r # ?c) s))" by (rule heap_ok_perm [OF heap]) (simp add: m)
    show "chain_ok (r # ?c)" using c r by (simp add: chain_ok_Cons)
    show "t = 0 \<Longrightarrow> int i < rehashidx s \<Longrightarrow> r # ?c = []"
      using t by (auto simp: dictIsRehashing_def split: if_splits)
  qed (use pos n eq sub in auto)
  have "image_mset (ent st) (mset (refs s)) = image_mset (ent (store s)) (mset (refs s))"
    by (rule image_mset_cong) (use eq in simp)
  then show "ents (changed t i (r # ?c) 1 st s) = add_mset (k, v) (ents s)" using m r by (simp add: ents_def)
qed

text \<open>The entry for a new key.\<close>

lemma insert_entry_ok:
  assumes env: "roomy env" and heap: "heap_ok (dtype s) X (store s) rs" and fin: "finite X" and len: "length rs + card X < 2 ^ 40"
    and k: "key_ok (dtype s) k" and meta: "no_value (dtype s) \<longrightarrow> metasize = 0"
  shows "\<exists>st r v.
    (if no_value (dtype s) then do {
       _ \<leftarrow> check (metasize = (0 :: 64 word));
       if keys_are_odd (dtype s) \<and> c = [] then do { _ \<leftarrow> check (entryIsKey k); Some (s, [k]) }
       else createEntryNoValue env s k c
     } else do {
       (a, junk) \<leftarrow> new_entry env s;
       _ \<leftarrow> check (entryIsNormal a);
       Some (s\<lparr>store := (store s)(a \<mapsto> DictEntry k junk)\<rparr>, a # c)
     }) = Some (s\<lparr>store := st\<rparr>, r # c) \<and>
    heap_ok (dtype s) X st (r # rs) \<and> ent st r = (k, v) \<and> (c = [] \<or> \<not> entryIsKey r) \<and>
    (\<forall>q \<in> set rs. ent st q = ent (store s) q) \<and> (v = None \<longleftrightarrow> no_value (dtype s))"
proof -
  obtain a j where new: "new_entry env s = Some (a, j)" "store s a = None" "entryIsNormal a"
    using roomy_new_entry [OF env heap fin len] .
  show ?thesis
  proof (cases "no_value (dtype s)")
    case nv: True
    show ?thesis
    proof (cases "keys_are_odd (dtype s) \<and> c = []")
      case True
      then have "entryIsKey k" using k nv by (simp add: key_ok_def)
      then show ?thesis
        using heap True nv meta by (intro exI [of _ "store s"] exI [of _ k] exI [of _ None]) (simp add: heap_ok_key ent_def check_def)
    next
      case False
      let ?r = "a OR ENTRY_PTR_NO_VALUE" and ?st = "(store s)(a \<mapsto> DictEntryNoValue k)"
      have "ref_ok (dtype s) ?st ?r" using nv k new(3) by (simp add: ref_ok_def)
      then show ?thesis
        using heap_ok_new [OF heap, of ?r "DictEntryNoValue k"] new nv False meta
        by (intro exI [of _ ?st] exI [of _ ?r] exI [of _ None]) (auto simp: createEntryNoValue_def check_def ent_def)
    qed
  next
    case False
    let ?st = "(store s)(a \<mapsto> DictEntry k j)"
    have "ref_ok (dtype s) ?st a" using False new(3) by (simp add: ref_ok_def)
    then show ?thesis
      using heap_ok_new [OF heap, of a "DictEntry k j"] new False
      by (intro exI [of _ ?st] exI [of _ a] exI [of _ "Some j"]) (simp add: check_def ent_def)
  qed
qed

lemma dictInsertAtPosition_ok:
  assumes env: "roomy env" and inv: "dict_inv X s" and sm: "small X s"
    and t: "t = (if dictIsRehashing s then 1 else 0)" "ht_table s t \<noteq> None"
    and k: "key_ok (dtype s) k" and meta: "no_value (dtype s) \<longrightarrow> dictEntryMetadataBytes (dtype s) = 0"
    and i: "i = hash_index s (dictHashKey s k) t"
  shows "\<exists>s' r v. dictInsertAtPosition env s k (t, i) = Some (s', r) \<and> dict_inv X s' \<and> ents s' = add_mset (k, v) (ents s) \<and>
    frame s s' \<and> r \<in> set (refs s') \<and> ent (store s') r = (k, v) \<and> (v = None \<longleftrightarrow> no_value (dtype s))"
proof -
  let ?c = "tab s t ! i"
  have t': "t = 0 \<or> t = 1" using t by auto
  have il: "i < length (tab s t)" using hash_index_less(1) [OF inv t(2) t'] i by simp
  have heap: "heap_ok (dtype s) X (store s) (refs s)" using inv by (simp add: dict_inv_def)
  have "i \<le> unat (DICTHT_SIZE_MASK (ht_size_exp s t))"
    using i by (simp add: hash_index_def word_and_le1 flip: word_le_nat_alt)
  then have cnd: "check (t = t \<and> i \<le> unat (DICTHT_SIZE_MASK (ht_size_exp s t))) = Some ()" by (simp add: check_def)
  obtain st r v where E: "(if no_value (dtype s) then do {
       _ \<leftarrow> check (dictEntryMetadataBytes (dtype s) = 0);
       if keys_are_odd (dtype s) \<and> ?c = [] then do { _ \<leftarrow> check (entryIsKey k); Some (s, [k]) }
       else createEntryNoValue env s k ?c
     } else do {
       (a, junk) \<leftarrow> new_entry env s;
       _ \<leftarrow> check (entryIsNormal a);
       Some (s\<lparr>store := (store s)(a \<mapsto> DictEntry k junk)\<rparr>, a # ?c)
     }) = Some (s\<lparr>store := st\<rparr>, r # ?c)"
    and h: "heap_ok (dtype s) X st (r # refs s)" and r: "ent st r = (k, v)" "?c = [] \<or> \<not> entryIsKey r"
    and eq: "\<And>q. q \<in> set (refs s) \<Longrightarrow> ent st q = ent (store s) q" and v: "v = None \<longleftrightarrow> no_value (dtype s)"
    using insert_entry_ok [OF env heap _ _ k meta, of ?c] sm unfolding small_def size_ents by blast
  have "r \<in> set (refs (put t i (r # ?c) s))"
    using mset_refs_put_Cons [OF t' il, of r ?c] by (metis set_mset_mset union_single_eq_member)
  moreover have "dictInsertAtPosition env s k (t, i) = Some (changed t i (r # ?c) 1 st s, r)"
    unfolding dictInsertAtPosition_def Let_def prod.case t(1) [symmetric] cnd bucket_tab [OF il] Option.bind.bind_lunit E
    using il by (simp add: set_bucket_put changed_def)
  ultimately show ?thesis
    using inserted_inv [OF inv t i h r eq sm] r v by (intro exI [of _ "changed t i (r # ?c) 1 st s"] exI [of _ r] exI [of _ v]) simp
qed

subsection \<open>Keys\<close>

text \<open>The keys of a type under its comparison, and what the code asks of a type.\<close>

definition same :: "dictType \<Rightarrow> ref \<Rightarrow> ref \<Rightarrow> bool" where
  "same ty k k' \<longleftrightarrow> k = k' \<or> (case keyCompare ty of Some f \<Rightarrow> f k k' | None \<Rightarrow> False)"

definition dup_key :: "dictType \<Rightarrow> ref \<Rightarrow> ref" where
  "dup_key ty k = (case keyDup ty of Some f \<Rightarrow> f k | None \<Rightarrow> k)"

definition dup_val :: "dictType \<Rightarrow> 64 word \<Rightarrow> 64 word" where
  "dup_val ty v = (case valDup ty of Some f \<Rightarrow> f v | None \<Rightarrow> v)"

definition type_ok :: "dictType \<Rightarrow> bool" where
  "type_ok ty \<longleftrightarrow>
    (\<forall>a b. same ty a b \<longrightarrow> same ty b a \<and> hashFunction ty a = hashFunction ty b) \<and>
    (\<forall>a b c. same ty a b \<longrightarrow> same ty b c \<longrightarrow> same ty a c) \<and>
    (\<forall>k. same ty k (dup_key ty k) \<and> (key_ok ty k \<longrightarrow> key_ok ty (dup_key ty k))) \<and>
    (no_value ty \<longrightarrow> dictEntryMetadataBytes ty = 0 \<and> \<not> valDestructor ty)"

lemma key_eq_same: "key_eq s k = same (dtype s) k"
  by (auto simp: key_eq_def same_def dictCompareKeys_def fun_eq_iff split: option.splits)

lemma same_refl [simp]: "same ty k k"
  by (simp add: same_def)

lemma type_okD:
  assumes "type_ok ty"
  shows "same ty a b \<Longrightarrow> same ty b a" and "same ty a b \<Longrightarrow> hashFunction ty a = hashFunction ty b"
    and "same ty a b \<Longrightarrow> same ty b c \<Longrightarrow> same ty a c" and "same ty k (dup_key ty k)"
    and "key_ok ty k \<Longrightarrow> key_ok ty (dup_key ty k)" and "no_value ty \<Longrightarrow> dictEntryMetadataBytes ty = 0 \<and> \<not> valDestructor ty"
  using assms unfolding type_ok_def by blast+

lemma same_eq:
  assumes "type_ok ty" and "same ty a b"
  shows "same ty a c = same ty b c" and "same ty c a = same ty c b"
  using type_okD(1,3) [OF assms(1)] assms(2) by blast+

definition matches :: "dictType \<Rightarrow> ref \<Rightarrow> (ref \<times> 'v) multiset \<Rightarrow> (ref \<times> 'v) multiset" where
  "matches ty k M = filter_mset (\<lambda>kv. same ty k (fst kv)) M"

lemma matches_add [simp]:
  "matches ty k (add_mset kv M) = (if same ty k (fst kv) then add_mset kv (matches ty k M) else matches ty k M)"
  by (simp add: matches_def)

lemma matches_same: "type_ok ty \<Longrightarrow> same ty a b \<Longrightarrow> matches ty a M = matches ty b M"
  using same_eq(1) [of ty a b] by (simp add: matches_def)

text \<open>A multiset of entries stands for the map that gives every key its only entry.\<close>

definition denotes :: "dictType \<Rightarrow> (ref \<times> 'v) multiset \<Rightarrow> (ref \<rightharpoonup> ref \<times> 'v) \<Rightarrow> bool" where
  "denotes ty M m \<longleftrightarrow> (\<forall>k. matches ty k M = (case m k of None \<Rightarrow> {#} | Some kv \<Rightarrow> {#kv#}))"

definition bind_key :: "dictType \<Rightarrow> ref \<Rightarrow> ref \<times> 'v \<Rightarrow> (ref \<rightharpoonup> ref \<times> 'v) \<Rightarrow> ref \<rightharpoonup> ref \<times> 'v" where
  "bind_key ty k kv m = (\<lambda>k'. if same ty k k' then Some kv else m k')"

definition unbind_key :: "dictType \<Rightarrow> ref \<Rightarrow> (ref \<rightharpoonup> ref \<times> 'v) \<Rightarrow> ref \<rightharpoonup> ref \<times> 'v" where
  "unbind_key ty k m = (\<lambda>k'. if same ty k k' then None else m k')"

lemma denotes_add:
  assumes ty: "type_ok ty" and d: "denotes ty M m" and new: "m k = None" and kv: "same ty k (fst kv)"
  shows "denotes ty (add_mset kv M) (bind_key ty k kv m)"
  unfolding denotes_def
proof
  fix k'
  have "same ty k' (fst kv) \<longleftrightarrow> same ty k k'" using same_eq(2) [OF ty kv] type_okD(1) [OF ty] by blast
  moreover have "matches ty k' M = {#}" if "same ty k k'"
    using matches_same [OF ty that, of M] d [unfolded denotes_def, rule_format, of k] new by simp
  ultimately show "matches ty k' (add_mset kv M) = (case bind_key ty k kv m k' of None \<Rightarrow> {#} | Some kv \<Rightarrow> {#kv#})"
    using d by (simp add: bind_key_def denotes_def)
qed

lemma denotes_del:
  assumes ty: "type_ok ty" and d: "denotes ty (add_mset kv M) m" and kv: "same ty k (fst kv)"
  shows "denotes ty M (unbind_key ty k m)" and "m k = Some kv"
proof -
  have one: "m k' = Some kv \<and> matches ty k' M = {#}" if "same ty k k'" for k'
  proof -
    have "same ty k' (fst kv)" using same_eq(1) [OF ty that] kv by simp
    then show ?thesis using d [unfolded denotes_def, rule_format, of k'] by (auto split: option.splits)
  qed
  then show "m k = Some kv" by simp
  have "matches ty k' M = (case m k' of None \<Rightarrow> {#} | Some kv \<Rightarrow> {#kv#})" if "\<not> same ty k k'" for k'
  proof -
    have "\<not> same ty k' (fst kv)" using that same_eq(2) [OF ty kv] type_okD(1) [OF ty] by blast
    then show ?thesis using d [unfolded denotes_def, rule_format, of k'] by simp
  qed
  with one show "denotes ty M (unbind_key ty k m)" by (simp add: denotes_def unbind_key_def)
qed

lemma denotes_set:
  assumes ty: "type_ok ty" and d: "denotes ty (add_mset (k', v) M) m" and k: "same ty k k'"
  shows "denotes ty (add_mset (k', v') M) (bind_key ty k (k', v') m)" and "m k = Some (k', v)"
proof -
  have "denotes ty (add_mset (k', v') M) (bind_key ty k (k', v') (unbind_key ty k m))"
    using denotes_add [OF ty denotes_del(1) [OF ty d]] k by (simp add: unbind_key_def)
  moreover have "bind_key ty k (k', v') (unbind_key ty k m) = bind_key ty k (k', v') m"
    by (simp add: bind_key_def unbind_key_def fun_eq_iff)
  ultimately show "denotes ty (add_mset (k', v') M) (bind_key ty k (k', v') m)" by simp
  show "m k = Some (k', v)" using denotes_del(2) [OF ty d] k by simp
qed

lemma ents_refs: "r \<in> set (refs s) \<Longrightarrow> ent (store s) r \<in># ents s"
  by (simp add: ents_def)

lemma refs_ents: "kv \<in># ents s \<Longrightarrow> \<exists>r \<in> set (refs s). kv = ent (store s) r"
  by (auto simp: ents_def)

text \<open>What a search of the tables says of the contents.\<close>

lemma tables_find_key:
  assumes inv: "dict_inv X s" and t0: "ht_table s 0 \<noteq> None" and ty: "type_ok (dtype s)"
  shows "\<exists>t c. tables_find s (key_eq s k) (dictHashKey s k) = Some (t, hash_index s (dictHashKey s k) t, c) \<and>
    (case c of
       [] \<Rightarrow> t = (if dictIsRehashing s then 1 else 0) \<and> ht_table s t \<noteq> None \<and> matches (dtype s) k (ents s) = {#}
     | r # c' \<Rightarrow> r \<in> set (refs s) \<and> same (dtype s) k (key_of s r))"
proof -
  obtain t c where f: "tables_find s (key_eq s k) (dictHashKey s k) = Some (t, hash_index s (dictHashKey s k) t, c)"
    and t: "ht_table s t \<noteq> None"
    and c: "case c of
       [] \<Rightarrow> t = (if dictIsRehashing s then 1 else 0) \<and>
         (\<forall>r \<in> set (refs s). dictHashKey s (key_of s r) = dictHashKey s k \<longrightarrow> \<not> key_eq s k (key_of s r))
     | r # c' \<Rightarrow> r \<in> set (refs s) \<and> key_eq s k (key_of s r)"
    using tables_find_ok [OF inv t0, of "key_eq s k" "dictHashKey s k"] by blast
  have none: "matches (dtype s) k (ents s) = {#}" if "c = []"
  proof -
    have "\<not> same (dtype s) k (fst kv)" if kv: "kv \<in># ents s" for kv
    proof -
      obtain r where r: "r \<in> set (refs s)" "kv = ent (store s) r" using refs_ents [OF kv] by blast
      then have "dictHashKey s (fst kv) = dictHashKey s k \<longrightarrow> \<not> same (dtype s) k (fst kv)"
        using c \<open>c = []\<close> by (simp add: key_eq_same)
      then show ?thesis using type_okD(2) [OF ty, of k "fst kv"] by (auto simp: dictHashKey_def)
    qed
    then show ?thesis by (simp add: matches_def filter_mset_eq_conv)
  qed
  show ?thesis
  proof (intro exI [of _ t] exI [of _ c] conjI f)
    show "case c of
       [] \<Rightarrow> t = (if dictIsRehashing s then 1 else 0) \<and> ht_table s t \<noteq> None \<and> matches (dtype s) k (ents s) = {#}
     | r # c' \<Rightarrow> r \<in> set (refs s) \<and> same (dtype s) k (key_of s r)"
      using c t none by (cases c) (simp_all add: key_eq_same)
  qed
qed

lemma dictSize_zero:
  assumes "dict_inv X s" and "small X s"
  shows "dictSize s = 0 \<longleftrightarrow> ents s = {#}" "dictSize s \<noteq> 0 \<Longrightarrow> ht_table s 0 \<noteq> None"
proof -
  have "unat (dictSize s) = size (ents s)"
    using used_small [OF assms] by (simp add: dictSize_def unat_word_ariths(1))
  then show "dictSize s = 0 \<longleftrightarrow> ents s = {#}" using unat_eq_0 [of "dictSize s"] by simp
  show "ht_table s 0 \<noteq> None" if "dictSize s \<noteq> 0"
  proof
    assume t: "ht_table s 0 = None"
    then have "ht_table s 1 = None" using assms(1) by (auto simp: dict_inv_def rehash_inv_def split: if_splits)
    then have "ents s = {#}" using t by (simp add: ents_def refs_def tab_def)
    then show False using that \<open>unat (dictSize s) = size (ents s)\<close> unat_eq_0 [of "dictSize s"] by simp
  qed
qed

lemma dictFind_ok:
  assumes env: "roomy env" and inv: "dict_inv X s" and sm: "small X s" and ty: "type_ok (dtype s)"
  shows "\<exists>s' he. dictFind env s k = Some (s', he) \<and> dict_inv X s' \<and> ents s' = ents s \<and> frame s s' \<and>
    (case he of None \<Rightarrow> matches (dtype s) k (ents s) = {#} | Some r \<Rightarrow> r \<in> set (refs s') \<and> same (dtype s) k (key_of s' r))"
proof (cases "dictSize s = 0")
  case True
  then show ?thesis using inv dictSize_zero [OF inv sm] by (simp add: dictFind_def matches_def)
next
  case False
  obtain s' where s': "step_if_rehashing env s = Some s'" "dict_inv X s'" "ents s' = ents s" "frame s s'"
    using dictRehashStep_ok [OF env inv sm] by blast
  have "dictSize s' \<noteq> 0" using False s'(3) dictSize_zero(1) [OF inv sm] dictSize_zero(1) [OF s'(2)] sm by (simp add: small_def)
  then have t0: "ht_table s' 0 \<noteq> None" using dictSize_zero(2) [OF s'(2)] sm s'(3) by (simp add: small_def)
  have d: "dtype s' = dtype s" using s'(4) by (simp add: frame_def)
  obtain t c where f: "tables_find s' (key_eq s' k) (dictHashKey s' k) = Some (t, hash_index s' (dictHashKey s' k) t, c)"
    and c: "case c of
       [] \<Rightarrow> t = (if dictIsRehashing s' then 1 else 0) \<and> ht_table s' t \<noteq> None \<and> matches (dtype s') k (ents s') = {#}
     | r # c' \<Rightarrow> r \<in> set (refs s') \<and> same (dtype s') k (key_of s' r)"
    using tables_find_key [OF s'(2) t0, of k] ty d by auto
  have "dictFind env s k = Some (s', ptr_of c)" using False s'(1) f by (simp add: dictFind_def)
  then show ?thesis using s'(2-4) c d by (intro exI [of _ s'] exI [of _ "ptr_of c"]) (cases c; simp add: ptr_of_def)
qed

subsection \<open>The operations on keys and values\<close>

lemma dictFetchValue_ok:
  assumes env: "roomy env" and inv: "dict_inv X s" and sm: "small X s" and ty: "type_ok (dtype s)" and v: "\<not> no_value (dtype s)"
  shows "\<exists>s' res. dictFetchValue env s k = Some (s', res) \<and> dict_inv X s' \<and> ents s' = ents s \<and> frame s s' \<and>
    (res = 0 \<and> matches (dtype s) k (ents s) = {#} \<or> (\<exists>k'. (k', Some res) \<in># matches (dtype s) k (ents s)))"
proof -
  obtain s' he where f: "dictFind env s k = Some (s', he)" "dict_inv X s'" "ents s' = ents s" "frame s s'"
    and he: "case he of None \<Rightarrow> matches (dtype s) k (ents s) = {#} | Some r \<Rightarrow> r \<in> set (refs s') \<and> same (dtype s) k (key_of s' r)"
    using dictFind_ok [OF env inv sm ty, of k] by blast
  show ?thesis
  proof (cases he)
    case None
    then show ?thesis using f he by (simp add: dictFetchValue_def)
  next
    case (Some r)
    have d: "dtype s' = dtype s" using f(4) by (simp add: frame_def)
    have r: "r \<in> set (refs s')" "same (dtype s) k (key_of s' r)" using he Some by simp_all
    have ok: "ref_ok (dtype s') (store s') r" using heap_ok_ref [OF _ r(1)] f(2) by (auto simp: dict_inv_def)
    then obtain w where w: "snd (ent (store s') r) = Some w" using v d by (auto simp: ent_def elim: ref_ok_cases)
    have "ent (store s') r \<in># matches (dtype s) k (ents s)" using ents_refs [OF r(1)] r(2) f(3) by (simp add: matches_def)
    then have "(key_of s' r, Some w) \<in># matches (dtype s) k (ents s)" using w by (metis prod.collapse)
    moreover have "dictFetchValue env s k = Some (s', w)"
      using f(1) Some ref_ok_ops(4) [OF ok] v d w by (simp add: dictFetchValue_def)
    ultimately show ?thesis using f by (intro exI [of _ s'] exI [of _ w]) auto
  qed
qed

lemma dictFindPositionForInsert_ok:
  assumes env: "roomy env" and inv: "dict_inv X s" and sm: "small X s" and ty: "type_ok (dtype s)"
  shows "\<exists>s' p e. dictFindPositionForInsert env s k = Some (s', p, e) \<and> dict_inv X s' \<and> ents s' = ents s \<and> frame s s' \<and>
    (case p of
       Some (t, i) \<Rightarrow> t = (if dictIsRehashing s' then 1 else 0) \<and> ht_table s' t \<noteq> None \<and> i = hash_index s' (dictHashKey s k) t \<and>
         e = None \<and> matches (dtype s) k (ents s) = {#}
     | None \<Rightarrow> \<exists>r. e = Some r \<and> r \<in> set (refs s') \<and> same (dtype s) k (key_of s' r))"
proof -
  obtain s1 where s1: "step_if_rehashing env s = Some s1" "dict_inv X s1" "ents s1 = ents s" "frame s s1"
    using dictRehashStep_ok [OF env inv sm] by blast
  have sm1: "small X s1" using sm s1(3) by (simp add: small_def)
  obtain s' where s': "dictExpandIfNeeded env s1 = Some (s', True)" "dict_inv X s'" "ents s' = ents s1" "frame s1 s'" "ht_table s' 0 \<noteq> None"
    using dictExpandIfNeeded_ok [OF env s1(2) sm1] by blast
  have fr: "frame s s'" using frame_trans [OF s1(4) s'(4)] .
  have d: "dtype s' = dtype s" using fr by (simp add: frame_def)
  obtain t c where f: "tables_find s' (key_eq s' k) (dictHashKey s' k) = Some (t, hash_index s' (dictHashKey s' k) t, c)"
    and c: "case c of
       [] \<Rightarrow> t = (if dictIsRehashing s' then 1 else 0) \<and> ht_table s' t \<noteq> None \<and> matches (dtype s') k (ents s') = {#}
     | r # c' \<Rightarrow> r \<in> set (refs s') \<and> same (dtype s') k (key_of s' r)"
    using tables_find_key [OF s'(2) s'(5), of k] ty d by auto
  have h: "dictHashKey s' k = dictHashKey s k" using d by (simp add: dictHashKey_def)
  have eq: "dictFindPositionForInsert env s k =
    (if c \<noteq> [] then Some (s', None, ptr_of c)
     else Some (s', Some (if dictIsRehashing s' then 1 else 0, hash_index s' (dictHashKey s k) t), None))"
    using s1(1) s'(1) f [unfolded h] by (simp add: dictFindPositionForInsert_def Let_def)
  show ?thesis
  proof (cases c)
    case Nil
    then have t: "t = (if dictIsRehashing s' then 1 else 0)" "ht_table s' t \<noteq> None" "matches (dtype s) k (ents s) = {#}"
      using c [unfolded \<open>c = []\<close> list.case d s'(3) s1(3)] by blast+
    have "dictFindPositionForInsert env s k = Some (s', Some (t, hash_index s' (dictHashKey s k) t), None)"
      using eq Nil t(1) by simp
    then show ?thesis using s'(2,3) s1(3) fr t
      by (intro exI [of _ s'] exI [of _ "Some (t, hash_index s' (dictHashKey s k) t)"] exI [of _ None]) simp
  next
    case (Cons r c')
    then show ?thesis using eq c s'(2,3) s1(3) fr d by (simp add: ptr_of_def)
  qed
qed

lemma dictAddRaw_ok:
  assumes env: "roomy env" and inv: "dict_inv X s" and sm: "small X s" and ty: "type_ok (dtype s)" and k: "key_ok (dtype s) k"
  shows "\<exists>s' entry existing. dictAddRaw env s k = Some (s', entry, existing) \<and> dict_inv X s' \<and> frame s s' \<and>
    (case entry of
       Some r \<Rightarrow> existing = None \<and> matches (dtype s) k (ents s) = {#} \<and> r \<in> set (refs s') \<and>
         (\<exists>v. ents s' = add_mset (dup_key (dtype s) k, v) (ents s) \<and> ent (store s') r = (dup_key (dtype s) k, v) \<and>
           (v = None \<longleftrightarrow> no_value (dtype s)))
     | None \<Rightarrow> ents s' = ents s \<and> (\<exists>r. existing = Some r \<and> r \<in> set (refs s') \<and> same (dtype s) k (key_of s' r)))"
proof -
  obtain s1 p e where f: "dictFindPositionForInsert env s k = Some (s1, p, e)" "dict_inv X s1" "ents s1 = ents s" "frame s s1"
    and p: "case p of
       Some (t, i) \<Rightarrow> t = (if dictIsRehashing s1 then 1 else 0) \<and> ht_table s1 t \<noteq> None \<and> i = hash_index s1 (dictHashKey s k) t \<and>
         e = None \<and> matches (dtype s) k (ents s) = {#}
     | None \<Rightarrow> \<exists>r. e = Some r \<and> r \<in> set (refs s1) \<and> same (dtype s) k (key_of s1 r)"
    using dictFindPositionForInsert_ok [OF env inv sm ty, of k] by blast
  have d: "dtype s1 = dtype s" using f(4) by (simp add: frame_def)
  show ?thesis
  proof (cases p)
    case None
    then show ?thesis using f p by (simp add: dictAddRaw_def)
  next
    case (Some ti)
    obtain t i where ti: "ti = (t, i)" by (cases ti)
    let ?k = "dup_key (dtype s) k"
    have h: "dictHashKey s k = dictHashKey s1 ?k"
      using type_okD(2) [OF ty type_okD(4) [OF ty]] d by (simp add: dictHashKey_def)
    have t: "t = (if dictIsRehashing s1 then 1 else 0)" "ht_table s1 t \<noteq> None" and i: "i = hash_index s1 (dictHashKey s1 ?k) t"
      and e: "e = None" "matches (dtype s) k (ents s) = {#}"
      using p [unfolded Some ti option.case prod.case h] by blast+
    obtain s' r v where ins: "dictInsertAtPosition env s1 ?k (t, i) = Some (s', r)" "dict_inv X s'"
        "ents s' = add_mset (?k, v) (ents s1)" "frame s1 s'" "r \<in> set (refs s')" "ent (store s') r = (?k, v)" "v = None \<longleftrightarrow> no_value (dtype s1)"
      using dictInsertAtPosition_ok [OF env f(2) _ t _ _ i] sm type_okD(5,6) [OF ty] k d f(3) by (auto simp: small_def)
    have "dictAddRaw env s k = Some (s', Some r, None)"
      using f(1) Some ti ins(1) e(1) d by (simp add: dictAddRaw_def dup_key_def)
    then show ?thesis
      using ins e(2) f(3) d frame_trans [OF f(4) ins(4)] by (intro exI [of _ s'] exI [of _ "Some r"] exI [of _ None]) simp
  qed
qed

lemma distinct_refs:
  assumes "heap_ok ty X st rs" and "\<not> no_value ty"
  shows "distinct rs"
proof -
  have "\<not> entryIsKey r" if "r \<in> set rs" for r using heap_ok_ref [OF assms(1) that] assms(2) by (auto elim: ref_ok_cases)
  then have "filter (\<lambda>r. \<not> entryIsKey r) rs = rs" by (simp add: filter_id_conv)
  then have "distinct (map addr rs)" using assms(1) unfolding heap_ok_def cells_def by simp
  then show ?thesis by (simp add: distinct_map)
qed

lemma dictSetVal_ok:
  assumes inv: "dict_inv X s" and r: "r \<in> set (refs s)" "ent (store s) r = (k, v)" and nv: "\<not> no_value (dtype s)"
  shows "\<exists>s' M. dictSetVal s r w = Some s' \<and> dictGetVal s r = v \<and> v \<noteq> None \<and> dict_inv X s' \<and> frame s s' \<and> 
    ents s = add_mset (k, v) M \<and> ents s' = add_mset (k, Some (dup_val (dtype s) w)) M"
proof -
  have heap: "heap_ok (dtype s) X (store s) (refs s)" using inv by (simp add: dict_inv_def)
  have ok: "ref_ok (dtype s) (store s) r" by (rule heap_ok_ref [OF heap r(1)])
  obtain v0 where n: "entryIsNormal r" "store s r = Some (DictEntry k v0)" "v = Some v0"
    using ok r(2) nv by (auto simp: ent_def elim: ref_ok_cases)
  let ?st = "(store s)(r \<mapsto> DictEntry k (dup_val (dtype s) w))" and ?R = "mset (refs s) - {#r#}"
  note upd = heap_ok_upd [OF heap r(1) nv n(2), where k' = k and v' = "dup_val (dtype s) w"]
  have set: "dictSetVal s r w = Some (s\<lparr>store := ?st\<rparr>)"
    using n by (simp add: dictSetVal_def check_def set_normal_def normal_entry_def dup_val_def)
  have R: "mset (refs s) = add_mset r ?R" using r(1) by simp
  have "r \<notin># ?R" using distinct_refs [OF heap nv] by (simp add: distinct_count_atmost_1 not_in_iff r(1))
  then have "image_mset (ent ?st) ?R = image_mset (ent (store s)) ?R"
    using upd(3) by (intro image_mset_cong) (metis in_diffD set_mset_mset)
  then have e: "ents (s\<lparr>store := ?st\<rparr>) = add_mset (k, Some (dup_val (dtype s) w)) (image_mset (ent (store s)) ?R)"
    unfolding ents_def using upd(2) by (subst (1) store_upd_fields, subst R) simp
  have fst: "fst (ent ?st q) = fst (ent (store s) q)" if "q \<in> set (refs s)" for q
    using upd(2,3) that r(2) by (cases "q = r") auto
  have "tab_inv (s\<lparr>store := ?st\<rparr>) t" if t: "t = 0 \<or> t = 1" for t
  proof (cases "ht_table s t = None")
    case True
    then show ?thesis using inv t by (auto simp: dict_inv_def tab_inv_def)
  next
    case False
    have "tab_inv s t" using inv t by (auto simp: dict_inv_def)
    then obtain e where e: "e \<le> 60" "ht_size_exp s t = int e" "table_ok (dtype s) (store s) e (tab s t)"
      using False by (elim tab_invE)
    have "table_ok (dtype s) ?st e (tab s t)" by (rule table_ok_cong [OF e(3)]) (use fst t in \<open>auto simp: in_refs\<close>)
    then show ?thesis using e False by (intro tab_invI [of e]) simp_all
  qed
  then have "dict_inv X (s\<lparr>store := ?st\<rparr>)" using inv upd(1) by (auto simp: dict_inv_def used_inv_def rehash_inv_def)
  moreover have "ents s = add_mset (k, v) (image_mset (ent (store s)) ?R)"
    unfolding ents_def by (subst R) (simp add: r(2))
  moreover have "dictGetVal s r = v" using ref_ok_ops(4) [OF ok nv] r(2) by simp
  ultimately show ?thesis using set e n(3) by (intro exI [of _ "s\<lparr>store := ?st\<rparr>"]) (auto simp: frame_def)
qed

subsection \<open>Deletion\<close>

lemma chain_unlink_ok:
  "chain_ok c \<Longrightarrow> (\<And>r. r \<in> set c \<Longrightarrow> ref_ok (dtype s) (store s) r) \<Longrightarrow>
    (\<exists>r. r \<in> set c \<and> P (key_of s r) \<and> (\<exists>a b. c = a @ r # b \<and> chain_unlink s P c = Some (a @ b, Some r))) \<or>
    (\<forall>r \<in> set c. \<not> P (key_of s r)) \<and> chain_unlink s P c = Some (c, None)"
proof (induction c)
  case (Cons h c)
  have ok: "ref_ok (dtype s) (store s) h" using Cons.prems(2) by simp
  have nx: "dictGetNext s (h # c) = Some c" by (rule dictGetNext_ok [OF Cons.prems(1) ok])
  have key: "dictGetKey s h = Some (key_of s h)" by (rule ref_ok_ops(1) [OF ok])
  have chain: "chain_ok c" "c = [] \<or> \<not> entryIsKey h" using Cons.prems(1) by (simp_all add: chain_ok_Cons)
  show ?case
  proof (cases "P (key_of s h)")
    case True
    then have "chain_unlink s P (h # c) = Some ([] @ c, Some h)" using nx key by (simp add: chain_unlink.simps)
    then show ?thesis using True by fastforce
  next
    case False
    consider r a b where "r \<in> set c" "P (key_of s r)" "c = a @ r # b" "chain_unlink s P c = Some (a @ b, Some r)"
      | "\<forall>r \<in> set c. \<not> P (key_of s r)" "chain_unlink s P c = Some (c, None)"
      using Cons.IH [OF chain(1)] Cons.prems(2) by auto
    then show ?thesis
    proof cases
      case 1
      then have "dictSetNext s h (a @ b) = Some (h # a @ b)" using chain(2) ref_ok_ops(3) [OF ok] by auto
      then have "chain_unlink s P (h # c) = Some ((h # a) @ b, Some r)" using nx key False 1(4) by (simp add: chain_unlink.simps)
      moreover have "h # c = (h # a) @ r # b" using 1(3) by simp
      ultimately show ?thesis using 1(1,2) by (metis list.set_intros(2))
    next
      case 2
      then show ?thesis using nx key False by (simp add: chain_unlink.simps)
    qed
  qed
qed simp

definition freed :: "bool \<Rightarrow> 'v list \<Rightarrow> 'v \<Rightarrow> 'v list" where
  "freed destructor vs v = (if destructor then vs @ [v] else vs)"

text \<open>The other fields of the state are of no concern to the invariant.\<close>

lemma same_dict:
  assumes "dtype s' = dtype s" "store s' = store s" "ht_table s' = ht_table s" "ht_used s' = ht_used s"
    "rehashidx s' = rehashidx s" "ht_size_exp s' = ht_size_exp s"
  shows "dict_inv X s' = dict_inv X s" and "ents s' = ents s" and "refs s' = refs s"
  unfolding dict_inv_def refs_def tab_def tab_inv_def used_inv_def rehash_inv_def ents_def assms by (rule refl)+

lemma freed_fields [simp]:
  "dict_inv X (s\<lparr>freedKeys := fk, freedVals := fv\<rparr>) = dict_inv X s" "ents (s\<lparr>freedKeys := fk, freedVals := fv\<rparr>) = ents s"
  by (rule same_dict; simp)+

lemma dictFreeUnlinkedEntry_ok:
  assumes ok: "ref_ok (dtype s) (store s) r" and ty: "type_ok (dtype s)" and e: "ent (store s) r = (k, v)"
  shows "dictFreeUnlinkedEntry s (Some r) =
    Some (s\<lparr>freedKeys := freed (keyDestructor (dtype s)) (freedKeys s) k,
      freedVals := freed (valDestructor (dtype s)) (freedVals s) (the v),
      store := if entryIsKey r then store s else (store s)(addr r := None)\<rparr>)"
proof -
  let ?s = "s\<lparr>freedKeys := freed (keyDestructor (dtype s)) (freedKeys s) k\<rparr>"
  let ?s' = "?s\<lparr>freedVals := freed (valDestructor (dtype s)) (freedVals s) (the v)\<rparr>"
  have "dictFreeKey s r = Some ?s" using ref_ok_ops(1) [OF ok] e by (simp add: dictFreeKey_def freed_def)
  moreover have "dictFreeVal ?s r = Some ?s'"
  proof (cases "valDestructor (dtype s)")
    case True
    then have nv: "\<not> no_value (dtype s)" using type_okD(6) [OF ty] by blast
    obtain w where "v = Some w" using ok e nv by (cases rule: ref_ok_cases) (auto simp: ent_def)
    then show ?thesis using True nv ref_ok_ops(4) [of ?s r] ok e by (simp add: dictFreeVal_def freed_def)
  qed (simp add: dictFreeVal_def freed_def)
  moreover have "\<not> entryIsKey r \<Longrightarrow> zfree_entry ?s' r = Some (?s'\<lparr>store := (store s)(addr r := None)\<rparr>)"
    using ref_ok_ops(5) [of ?s' r] ok by simp
  ultimately show ?thesis by (simp add: dictFreeUnlinkedEntry_def)
qed

text \<open>The state after one entry has left its chain.\<close>

lemma removed_inv:
  assumes inv: "dict_inv X s" and t: "t = 0 \<or> t = 1" "ht_table s t \<noteq> None" and i: "i < length (tab s t)"
    and c: "tab s t ! i = a @ r # b"
    and heap: "heap_ok (dtype s) X (store s) (r # refs (put t i (a @ b) s)) \<Longrightarrow> heap_ok (dtype s) X' st (refs (put t i (a @ b) s))"
    and eq: "\<And>q. q \<in> set (refs (put t i (a @ b) s)) \<Longrightarrow> ent st q = ent (store s) q"
  shows "dict_inv X' (changed t i (a @ b) (- 1) st s)" and "ents s = add_mset (ent (store s) r) (ents (changed t i (a @ b) (- 1) st s))"
proof -
  let ?c = "a @ b"
  have m: "mset (refs s) = add_mset r (mset (refs (put t i ?c s)))"
    using mset_refs_put [OF t(1) i, of ?c] c by simp
  have tab: "tab_inv s t" using inv t by (auto simp: dict_inv_def)
  obtain e where e: "ht_size_exp s t = int e" "table_ok (dtype s) (store s) e (tab s t)" "length (tab s t) = 2 ^ e"
    using tab_invE [OF tab t(2)] .
  have sub: "q \<in> set (refs (put t i ?c s))" if "q \<in> set ?c" for q
    using in_concat [of i "(tab s t)[i := ?c]" q] that i t by (auto simp: in_refs)
  have sub0: "q \<in> set (refs (put t i ?c s))" if "q \<in> set (refs (put t i [] s))" for q
    using that mset_refs_put [of t i "put t i ?c s" "[]"] t i
    by (simp add: set_eq_iff flip: set_mset_mset) (metis union_iff)
  have chain: "chain_ok ?c"
    using bucket_chain(1) [OF inv t(1) i] c by (auto simp: chain_ok_def butlast_append dest: in_set_butlastD split: if_splits)
  have pos: "unat (hashFunction (dtype s) (fst (ent st q))) mod length (tab s t) = i" if "q \<in> set ?c" for q
    using that e i c eq [OF sub [OF that]] by (auto simp: table_ok_def)
  have n: "unat (ht_used s t + (- 1)) = length (concat ((tab s t)[i := ?c]))"
    using length_concat_update [OF i, of ?c] used_dec [of "ht_used s t"] c t inv by (auto simp: dict_inv_def used_inv_def)
  have "heap_ok (dtype s) X (store s) (r # refs (put t i ?c s))"
    by (rule heap_ok_perm [of _ _ _ "refs s"]) (use inv m in \<open>simp_all add: dict_inv_def\<close>)
  then show "dict_inv X' (changed t i ?c (- 1) st s)"
  proof (intro changed_inv [OF inv t i])
    show "?c = []" if "t = 0" "int i < rehashidx s"
      using that inv c by (auto simp: dict_inv_def rehash_inv_def split: if_splits)
  qed (use heap chain pos n eq sub0 in auto)
  have "image_mset (ent st) (mset (refs (put t i ?c s))) = image_mset (ent (store s)) (mset (refs (put t i ?c s)))"
    by (rule image_mset_cong) (use eq in simp)
  then show "ents s = add_mset (ent (store s) r) (ents (changed t i ?c (- 1) st s))" using m by (simp add: ents_def)
qed

definition removed :: "ref set \<Rightarrow> dstate \<Rightarrow> ref \<Rightarrow> bool \<Rightarrow> dstate \<Rightarrow> ref \<Rightarrow> bool" where
  "removed X s k nofree s' r \<longleftrightarrow>
    same (dtype s) k (key_of s r) \<and> ents s = add_mset (ent (store s) r) (ents s') \<and>
    dict_inv (if nofree \<and> \<not> entryIsKey r then insert (addr r) X else X) s' \<and>
    dtype s' = dtype s \<and> pauserehash s' = pauserehash s \<and> dict_can_resize s' = dict_can_resize s \<and>
    (if nofree then store s' = store s \<and> freedKeys s' = freedKeys s \<and> freedVals s' = freedVals s
     else freedKeys s' = freed (keyDestructor (dtype s)) (freedKeys s) (key_of s r) \<and>
       freedVals s' = freed (valDestructor (dtype s)) (freedVals s) (the (snd (ent (store s) r))))"

lemma unlinked_removed:
  assumes inv: "dict_inv X s" and t: "t = 0 \<or> t = 1" "ht_table s t \<noteq> None" and i: "i < length (tab s t)"
    and c: "tab s t ! i = a @ r # b" and r: "same (dtype s) k (key_of s r)"
  shows "removed X s k True (changed t i (a @ b) (- 1) (store s) s) r"
proof -
  let ?rs = "refs (put t i (a @ b) s)"
  have "heap_ok (dtype s) (if \<not> entryIsKey r then insert (addr r) X else X) (store s) ?rs"
    if h: "heap_ok (dtype s) X (store s) (r # ?rs)"
    using heap_ok_unlink [OF h] heap_ok_key [of r] h by (cases "entryIsKey r") auto
  from removed_inv [OF inv t i c this] show ?thesis
    using r by (simp add: removed_def)
qed

lemma deleted_removed:
  assumes inv: "dict_inv X s" and t: "t = 0 \<or> t = 1" "ht_table s t \<noteq> None" and i: "i < length (tab s t)"
    and c: "tab s t ! i = a @ r # b" and r: "same (dtype s) k (key_of s r)" and st: "st = (if entryIsKey r then store s else (store s)(addr r := None))"
  shows "removed X s k False ((changed t i (a @ b) (- 1) st s)
    \<lparr>freedKeys := freed (keyDestructor (dtype s)) (freedKeys s) (key_of s r),
     freedVals := freed (valDestructor (dtype s)) (freedVals s) (the (snd (ent (store s) r)))\<rparr>) r"
proof -
  let ?rs = "refs (put t i (a @ b) s)"
  have h: "heap_ok (dtype s) X (store s) (r # ?rs)"
    by (rule heap_ok_perm [of _ _ _ "refs s"]) (use inv mset_refs_put [OF t(1) i, of "a @ b"] c in \<open>simp_all add: dict_inv_def\<close>)
  have "heap_ok (dtype s) X st ?rs" using heap_ok_free(1) [OF h] heap_ok_key [of r] h st by (cases "entryIsKey r") auto
  moreover have "ent st q = ent (store s) q" if "q \<in> set ?rs" for q
    using heap_ok_free(2) [OF h _ that] st by (cases "entryIsKey r") auto
  ultimately have "dict_inv X (changed t i (a @ b) (- 1) st s)" "ents s = add_mset (ent (store s) r) (ents (changed t i (a @ b) (- 1) st s))"
    using removed_inv [OF inv t i c] by blast+
  then show ?thesis using r by (simp add: removed_def)
qed

lemma changed_freed:
  "add_used t n ((put t i c s)\<lparr>freedKeys := x, freedVals := y, store := st\<rparr>) =
    (changed t i c n st s)\<lparr>freedKeys := x, freedVals := y\<rparr>"
  by (simp add: add_used_def changed_def put_def)

lemma unlink_in_ok:
  assumes inv: "dict_inv X s" and t: "t = 0 \<or> t = 1" "ht_table s t \<noteq> None" and ty: "type_ok (dtype s)"
  shows "(\<exists>s' r. unlink_in s k t nofree = Some (s', Some r) \<and> removed X s k nofree s' r) \<or>
    unlink_in s k t nofree = Some (s, None) \<and> (\<forall>q \<in> set (concat (tab s t)). \<not> same (dtype s) k (key_of s q))"
proof -
  let ?i = "hash_index s (dictHashKey s k) t"
  have i: "?i < length (tab s t)" by (rule hash_index_less(1) [OF inv t(2,1)])
  have go: ?thesis if "unlink_in s k t nofree = Some (s', Some r)" "removed X s k nofree s' r" for s' r
    using that by blast
  note chain = bucket_chain [OF inv t(1) i]
  have un: "(\<exists>r. r \<in> set (tab s t ! ?i) \<and> key_eq s k (key_of s r) \<and>
      (\<exists>a b. tab s t ! ?i = a @ r # b \<and> chain_unlink s (key_eq s k) (tab s t ! ?i) = Some (a @ b, Some r))) \<or>
    (\<forall>r \<in> set (tab s t ! ?i). \<not> key_eq s k (key_of s r)) \<and> chain_unlink s (key_eq s k) (tab s t ! ?i) = Some (tab s t ! ?i, None)"
    by (rule chain_unlink_ok [OF chain(1)]) (rule chain(2))
  consider r a b where "same (dtype s) k (key_of s r)" "tab s t ! ?i = a @ r # b"
      "chain_unlink s (key_eq s k) (tab s t ! ?i) = Some (a @ b, Some r)"
    | "\<forall>r \<in> set (tab s t ! ?i). \<not> same (dtype s) k (key_of s r)" "chain_unlink s (key_eq s k) (tab s t ! ?i) = Some (tab s t ! ?i, None)"
    using un unfolding key_eq_same by (elim disjE exE conjE)
  then show ?thesis
  proof cases
    case 1
    have ok: "ref_ok (dtype s) (store s) r" using chain(2) 1(2) by simp
    show ?thesis
    proof (cases nofree)
      case True
      then have "unlink_in s k t nofree = Some (changed t ?i (a @ b) (- 1) (store s) s, Some r)"
        using 1 i by (simp add: unlink_in_def Let_def bucket_tab set_bucket_put changed_def)
      from go [OF this] show ?thesis using unlinked_removed [OF inv t i 1(2,1)] True by simp
    next
      case False
      let ?st = "if entryIsKey r then store s else (store s)(addr r := None)"
      let ?s' = "(changed t ?i (a @ b) (- 1) ?st s)
        \<lparr>freedKeys := freed (keyDestructor (dtype s)) (freedKeys s) (key_of s r),
         freedVals := freed (valDestructor (dtype s)) (freedVals s) (the (snd (ent (store s) r)))\<rparr>"
      have "dictFreeUnlinkedEntry (put t ?i (a @ b) s) (Some r) = Some ((put t ?i (a @ b) s)
        \<lparr>freedKeys := freed (keyDestructor (dtype s)) (freedKeys s) (key_of s r),
         freedVals := freed (valDestructor (dtype s)) (freedVals s) (the (snd (ent (store s) r))), store := ?st\<rparr>)"
        using dictFreeUnlinkedEntry_ok [of "put t ?i (a @ b) s" r "key_of s r" "snd (ent (store s) r)"] ok ty by simp
      then have "unlink_in s k t nofree = Some (?s', Some r)"
        using 1 i False by (simp add: unlink_in_def Let_def bucket_tab set_bucket_put changed_freed)
      from go [OF this] show ?thesis using deleted_removed [OF inv t i 1(2,1) refl] iffD2 [OF eq_False False] by (simp only:)
    qed
  next
    case 2
    have "\<not> same (dtype s) k (key_of s q)" if "q \<in> set (concat (tab s t))" for q
    proof
      assume same: "same (dtype s) k (key_of s q)"
      then have "dictHashKey s (key_of s q) = dictHashKey s k" using type_okD(2) [OF ty same] by (simp add: dictHashKey_def)
      from hash_index_less(2) [OF inv t(2,1) that this] show False using 2(1) same by blast
    qed
    moreover have "unlink_in s k t nofree = Some (s, None)" using 2(2) i by (simp add: unlink_in_def Let_def bucket_tab)
    ultimately show ?thesis by blast
  qed
qed

lemma no_matches:
  assumes "\<And>q. q \<in> set (refs s) \<Longrightarrow> \<not> same ty k (key_of s q)"
  shows "matches ty k (ents s) = {#}"
proof -
  have "\<not> same ty k (fst kv)" if "kv \<in># ents s" for kv
    using refs_ents [OF that] assms by blast
  then show ?thesis by (simp add: matches_def filter_mset_eq_conv)
qed

lemma tab_None: "ht_table s t = None \<Longrightarrow> tab s t = []"
  by (simp add: tab_def)

lemma dictGenericDelete_ok:
  assumes env: "roomy env" and inv: "dict_inv X s" and sm: "small X s" and ty: "type_ok (dtype s)"
  shows "\<exists>s1 s' he. dictGenericDelete env s k nofree = Some (s', he) \<and> dict_inv X s1 \<and> ents s1 = ents s \<and> frame s s1 \<and>
    (case he of None \<Rightarrow> s' = s1 \<and> matches (dtype s) k (ents s) = {#} | Some r \<Rightarrow> removed X s1 k nofree s' r)"
proof (cases "dictSize s = 0")
  case True
  then show ?thesis using inv dictSize_zero [OF inv sm] by (simp add: dictGenericDelete_def matches_def)
next
  case False
  obtain s1 where s1: "step_if_rehashing env s = Some s1" "dict_inv X s1" "ents s1 = ents s" "frame s s1"
    using dictRehashStep_ok [OF env inv sm] by blast
  have d: "dtype s1 = dtype s" using s1(4) by (simp add: frame_def)
  have ty1: "type_ok (dtype s1)" using ty d by simp
  have "dictSize s1 \<noteq> 0" using False s1(3) dictSize_zero(1) [OF inv sm] dictSize_zero(1) [OF s1(2)] sm by (simp add: small_def)
  then have t0: "ht_table s1 0 \<noteq> None" using dictSize_zero(2) [OF s1(2)] sm s1(3) by (simp add: small_def)
  have ex: ?thesis if "dictGenericDelete env s k nofree = Some (s', he)"
      "case he of None \<Rightarrow> s' = s1 \<and> matches (dtype s) k (ents s1) = {#} | Some r \<Rightarrow> removed X s1 k nofree s' r" for s' he
    by (rule exI [of _ s1], rule exI [of _ s'], rule exI [of _ he]) (use that s1(2-4) in \<open>simp split: option.splits\<close>)
  note eq = dictGenericDelete_def [of env s k nofree]
  consider s' r where "unlink_in s1 k 0 nofree = Some (s', Some r)" "removed X s1 k nofree s' r"
    | "unlink_in s1 k 0 nofree = Some (s1, None)" "\<And>q. q \<in> set (concat (tab s1 0)) \<Longrightarrow> \<not> same (dtype s) k (key_of s1 q)"
    using unlink_in_ok [OF s1(2) _ t0 ty1, of k nofree] d by auto
  then show ?thesis
  proof cases
    case 1
    then show ?thesis using ex [of s' "Some r"] eq False s1(1) by simp
  next
    case no0: 2
    show ?thesis
    proof (cases "dictIsRehashing s1")
      case False
      then have "tab s1 1 = []" using s1(2) by (simp add: tab_None dict_inv_def rehash_inv_def dictIsRehashing_def)
      then have "matches (dtype s) k (ents s1) = {#}" using no0(2) by (intro no_matches) (simp add: in_refs)
      then show ?thesis using ex [of s1 None] eq \<open>dictSize s \<noteq> 0\<close> s1(1) no0(1) False by simp
    next
      case True
      have t1: "ht_table s1 1 \<noteq> None" by (rule rehashing_tables(2) [OF s1(2) True])
      have go: "dictGenericDelete env s k nofree = unlink_in s1 k 1 nofree" using eq \<open>dictSize s \<noteq> 0\<close> s1(1) no0(1) True by simp
      consider s' r where "unlink_in s1 k 1 nofree = Some (s', Some r)" "removed X s1 k nofree s' r"
        | "unlink_in s1 k 1 nofree = Some (s1, None)" "\<And>q. q \<in> set (concat (tab s1 1)) \<Longrightarrow> \<not> same (dtype s) k (key_of s1 q)"
        using unlink_in_ok [OF s1(2) _ t1 ty1, of k nofree] d by auto
      then show ?thesis
      proof cases
        case 1
        then show ?thesis using ex [of s' "Some r"] go by simp
      next
        case 2
        then have "matches (dtype s) k (ents s1) = {#}" using no0(2) by (intro no_matches) (auto simp: in_refs)
        then show ?thesis using ex [of s1 None] go 2(1) by simp
      qed
    qed
  qed
qed

end
