(* ===== verification/Redis_Dict_Map.thy ===== *)
theory Redis_Dict_Map
  imports Redis_Dict_Ops
begin

text \<open>
  The hash table as a finite map: sequences of operations answer and act as the map does. The invariant of all
  reachable states, the release of all memory and the end of rehashing follow.
\<close>

subsection \<open>The dictionary as a map\<close>

text \<open>The abstract state: the entry of every key, and the keys and values given to the destructors.\<close>

record dmodel =
  contents :: "ref \<rightharpoonup> ref \<times> 64 word option"
  dead_keys :: "ref list"
  dead_vals :: "64 word list"

definition dict_abs :: "ref set \<Rightarrow> dstate \<Rightarrow> dmodel \<Rightarrow> bool" where
  "dict_abs X s d \<longleftrightarrow> dict_inv X s \<and> denotes (dtype s) (ents s) (contents d) \<and>
    freedKeys s = dead_keys d \<and> freedVals s = dead_vals d"

datatype dcmd = Add ref ref | Replace ref ref | Delete ref | Fetch ref | Rehash nat | Expand "64 word" | Resize |
  Policy dictResizeEnable | Pause | Resume

datatype dreply = Flag bool | Value "64 word" | Done

definition exec :: "denv \<Rightarrow> dstate \<Rightarrow> dcmd \<Rightarrow> (dstate \<times> dreply) option" where
  "exec env s c =
    (case c of
       Add k v \<Rightarrow> map_option (apsnd Flag) (dictAdd env s k v)
     | Replace k v \<Rightarrow> map_option (apsnd Flag) (dictReplace env s k v)
     | Delete k \<Rightarrow> map_option (apsnd Flag) (dictDelete env s k)
     | Fetch k \<Rightarrow> map_option (apsnd Value) (dictFetchValue env s k)
     | Rehash n \<Rightarrow> map_option (\<lambda>(s, more). (s, Done)) (dictRehash env s n)
     | Expand sz \<Rightarrow> map_option (\<lambda>(s, ok). (s, Done)) (dictExpand env s sz)
     | Resize \<Rightarrow> map_option (\<lambda>(s, ok). (s, Done)) (dictResize env s)
     | Policy p \<Rightarrow> Some (dictSetResizeEnabled p s, Done)
     | Pause \<Rightarrow> Some (dictPauseRehashing s, Done)
     | Resume \<Rightarrow> Some (dictResumeRehashing s, Done))"

primrec exec_all :: "denv \<Rightarrow> dstate \<Rightarrow> dcmd list \<Rightarrow> (dstate \<times> dreply list) option" where
  "exec_all env s [] = Some (s, [])"
| "exec_all env s (c # cs) = do {
     (s, r) \<leftarrow> exec env s c;
     (s, rs) \<leftarrow> exec_all env s cs;
     Some (s, r # rs)
   }"

definition spec_put :: "dictType \<Rightarrow> ref \<Rightarrow> ref \<Rightarrow> dmodel \<Rightarrow> dmodel" where
  "spec_put ty k v d =
    d\<lparr>contents := bind_key ty k (dup_key ty k, if no_value ty then None else Some (dup_val ty v)) (contents d)\<rparr>"

definition spec :: "dictType \<Rightarrow> dmodel \<Rightarrow> dcmd \<Rightarrow> dmodel \<times> dreply" where
  "spec ty d c =
    (case c of
       Add k v \<Rightarrow> (case contents d k of None \<Rightarrow> (spec_put ty k v d, Flag True) | Some kv \<Rightarrow> (d, Flag False))
     | Replace k v \<Rightarrow>
         (case contents d k of
            None \<Rightarrow> (spec_put ty k v d, Flag True)
          | Some (k', old) \<Rightarrow>
              (d\<lparr>contents := bind_key ty k (k', Some (dup_val ty v)) (contents d),
                 dead_vals := freed (valDestructor ty) (dead_vals d) (the old)\<rparr>, Flag False))
     | Delete k \<Rightarrow>
         (case contents d k of
            None \<Rightarrow> (d, Flag False)
          | Some (k', old) \<Rightarrow>
              (d\<lparr>contents := unbind_key ty k (contents d), dead_keys := freed (keyDestructor ty) (dead_keys d) k',
                 dead_vals := freed (valDestructor ty) (dead_vals d) (the old)\<rparr>, Flag True))
     | Fetch k \<Rightarrow> (d, Value (case contents d k of None \<Rightarrow> 0 | Some (k', v) \<Rightarrow> the v))
     | _ \<Rightarrow> (d, Done))"

primrec spec_all :: "dictType \<Rightarrow> dmodel \<Rightarrow> dcmd list \<Rightarrow> dmodel \<times> dreply list" where
  "spec_all ty d [] = (d, [])"
| "spec_all ty d (c # cs) = (let (d, r) = spec ty d c; (d, rs) = spec_all ty d cs in (d, r # rs))"

text \<open>
  Keys are odd where the type says so, values are used where the type has them, and ten times the number of buckets to
  move is an \<^verbatim>\<open>int\<close>.
\<close>

definition cmd_ok :: "dictType \<Rightarrow> dcmd \<Rightarrow> bool" where
  "cmd_ok ty c \<longleftrightarrow>
    (case c of
       Add k v \<Rightarrow> key_ok ty k
     | Replace k v \<Rightarrow> key_ok ty k \<and> \<not> no_value ty
     | Fetch k \<Rightarrow> \<not> no_value ty
     | Rehash n \<Rightarrow> n \<le> 214748364
     | Expand sz \<Rightarrow> unat sz \<le> 2 ^ 41
     | _ \<Rightarrow> True)"

definition refines :: "ref set \<Rightarrow> dstate \<Rightarrow> (dstate \<times> dreply) option \<Rightarrow> dmodel \<times> dreply \<Rightarrow> bool" where
  "refines X s res sp \<longleftrightarrow> (\<exists>s'. res = Some (s', snd sp) \<and> dict_abs X s' (fst sp) \<and> dtype s' = dtype s \<and> size (ents s') \<le> Suc (size (ents s)))"

lemma refines_quiet:
  assumes "dict_abs X s d" and "dict_inv X s'" and "ents s' = ents s" and "frame s s'"
  shows "refines X s (Some (s', r)) (d, r)"
  using assms by (simp add: refines_def dict_abs_def frame_def)

lemma contents_none: "denotes ty M m \<Longrightarrow> m k = None \<longleftrightarrow> matches ty k M = {#}"
  by (auto simp: denotes_def split: option.splits)

lemma dictAdd_refines:
  assumes env: "roomy env" and a: "dict_abs X s d" and sm: "small X s" and ty: "type_ok (dtype s)" and k: "key_ok (dtype s) k"
  shows "refines X s (map_option (apsnd Flag) (dictAdd env s k v)) (spec (dtype s) d (Add k v))"
proof -
  have inv: "dict_inv X s" and den: "denotes (dtype s) (ents s) (contents d)"
    and dead: "freedKeys s = dead_keys d" "freedVals s = dead_vals d"
    using a by (simp_all add: dict_abs_def)
  obtain s' entry existing where raw: "dictAddRaw env s k = Some (s', entry, existing)" "dict_inv X s'" "frame s s'"
    and e: "case entry of
       Some r \<Rightarrow> existing = None \<and> matches (dtype s) k (ents s) = {#} \<and> r \<in> set (refs s') \<and>
         (\<exists>v. ents s' = add_mset (dup_key (dtype s) k, v) (ents s) \<and> ent (store s') r = (dup_key (dtype s) k, v) \<and>
           (v = None \<longleftrightarrow> no_value (dtype s)))
     | None \<Rightarrow> ents s' = ents s \<and> (\<exists>r. existing = Some r \<and> r \<in> set (refs s') \<and> same (dtype s) k (key_of s' r))"
    using dictAddRaw_ok [OF env inv sm ty k] by blast
  have d: "dtype s' = dtype s" using raw(3) by (simp add: frame_def)
  show ?thesis
  proof (cases entry)
    case None
    then obtain r where r: "ents s' = ents s" "r \<in> set (refs s')" "same (dtype s) k (key_of s' r)" using e by auto
    have "matches (dtype s) k (ents s) \<noteq> {#}" using ents_refs [OF r(2)] r(1,3) by (auto simp: matches_def filter_mset_eq_conv)
    then obtain kv where "contents d k = Some kv" using contents_none [OF den, of k] by auto
    then show ?thesis using refines_quiet [OF a raw(2) r(1) raw(3)] raw(1) None by (simp add: dictAdd_def spec_def)
  next
    case (Some r)
    then obtain w where r: "matches (dtype s) k (ents s) = {#}" "r \<in> set (refs s')"
        "ents s' = add_mset (dup_key (dtype s) k, w) (ents s)" "ent (store s') r = (dup_key (dtype s) k, w)" "w = None \<longleftrightarrow> no_value (dtype s)"
      using e by auto
    have none: "contents d k = None" using r(1) contents_none [OF den] by simp
    have add: "denotes (dtype s) (add_mset (dup_key (dtype s) k, u) (ents s)) (bind_key (dtype s) k (dup_key (dtype s) k, u) (contents d))" for u
      by (rule denotes_add [OF ty den none]) (simp add: type_okD(4) [OF ty])
    show ?thesis
    proof (cases "no_value (dtype s)")
      case True
      then show ?thesis using raw Some none add [of None] r(3,5) d dead
        by (simp add: dictAdd_def spec_def refines_def dict_abs_def spec_put_def frame_def)
    next
      case False
      obtain s'' M where set: "dictSetVal s' r v = Some s''" "dict_inv X s''" "frame s' s''" "ents s' = add_mset (dup_key (dtype s) k, w) M"
          "ents s'' = add_mset (dup_key (dtype s) k, Some (dup_val (dtype s) v)) M"
        using dictSetVal_ok [OF raw(2) r(2,4), of v] False d by auto
      have "M = ents s" using set(4) r(3) by simp
      then show ?thesis using raw(1,3) Some none add [of "Some (dup_val (dtype s) v)"] set(1-3,5) False d dead
        by (simp add: dictAdd_def spec_def refines_def dict_abs_def spec_put_def frame_def)
    qed
  qed
qed

lemma dictReplace_refines:
  assumes env: "roomy env" and a: "dict_abs X s d" and sm: "small X s" and ty: "type_ok (dtype s)" and k: "key_ok (dtype s) k"
    and nv: "\<not> no_value (dtype s)"
  shows "refines X s (map_option (apsnd Flag) (dictReplace env s k v)) (spec (dtype s) d (Replace k v))"
proof -
  have inv: "dict_inv X s" and den: "denotes (dtype s) (ents s) (contents d)"
    and dead: "freedKeys s = dead_keys d" "freedVals s = dead_vals d"
    using a by (simp_all add: dict_abs_def)
  obtain s' entry existing where raw: "dictAddRaw env s k = Some (s', entry, existing)" "dict_inv X s'" "frame s s'"
    and e: "case entry of
       Some r \<Rightarrow> existing = None \<and> matches (dtype s) k (ents s) = {#} \<and> r \<in> set (refs s') \<and>
         (\<exists>v. ents s' = add_mset (dup_key (dtype s) k, v) (ents s) \<and> ent (store s') r = (dup_key (dtype s) k, v) \<and>
           (v = None \<longleftrightarrow> no_value (dtype s)))
     | None \<Rightarrow> ents s' = ents s \<and> (\<exists>r. existing = Some r \<and> r \<in> set (refs s') \<and> same (dtype s) k (key_of s' r))"
    using dictAddRaw_ok [OF env inv sm ty k] by blast
  have d: "dtype s' = dtype s" using raw(3) by (simp add: frame_def)
  show ?thesis
  proof (cases entry)
    case (Some r)
    have "dictAdd env s k v = dictReplace env s k v"
      using raw(1) Some nv d by (simp add: dictAdd_def dictReplace_def)
    moreover have "contents d k = None" using e Some contents_none [OF den] by simp
    ultimately show ?thesis using dictAdd_refines [OF env a sm ty k, of v] by (simp add: spec_def)
  next
    case None
    then obtain r where r: "existing = Some r" "ents s' = ents s" "r \<in> set (refs s')" "same (dtype s) k (key_of s' r)" using e by auto
    obtain k' w where w: "ent (store s') r = (k', w)" by fastforce
    obtain s'' M where set: "dictSetVal s' r v = Some s''" "dictGetVal s' r = w" "w \<noteq> None" "dict_inv X s''" "frame s' s''"
        "ents s' = add_mset (k', w) M" "ents s'' = add_mset (k', Some (dup_val (dtype s) v)) M"
      using dictSetVal_ok [OF raw(2) r(3) w, of v] nv d by auto
    have c: "contents d k = Some (k', w)"
      "denotes (dtype s) (ents s'') (bind_key (dtype s) k (k', Some (dup_val (dtype s) v)) (contents d))"
      using denotes_set [OF ty, of k' w M "contents d" k] den r(2,4) set(6,7) w by simp_all
    let ?n = "if valDestructor (dtype s) then s''\<lparr>freedVals := freedVals s'' @ [the w]\<rparr> else s''"
    have fr: "frame s s''" using frame_trans [OF raw(3) set(5)] .
    have "dict_inv X ?n" "ents ?n = ents s''" using same_dict [of "s''\<lparr>freedVals := freedVals s'' @ [the w]\<rparr>" s''] set(4) by auto
    moreover have "dictReplace env s k v = Some (?n, False)"
      using raw(1) None r(1) set(1-3) fr by (auto simp: dictReplace_def frame_def)
    moreover have "size (ents s'') = size (ents s)" using set(6,7) r(2) by (metis size_add_mset)
    ultimately show ?thesis using c fr dead
      by (auto simp: spec_def refines_def dict_abs_def freed_def frame_def)
  qed
qed

lemma dictDelete_refines:
  assumes env: "roomy env" and a: "dict_abs X s d" and sm: "small X s" and ty: "type_ok (dtype s)"
  shows "refines X s (map_option (apsnd Flag) (dictDelete env s k)) (spec (dtype s) d (Delete k))"
proof -
  have inv: "dict_inv X s" and den: "denotes (dtype s) (ents s) (contents d)"
    and dead: "freedKeys s = dead_keys d" "freedVals s = dead_vals d"
    using a by (simp_all add: dict_abs_def)
  obtain s1 s' he where g: "dictGenericDelete env s k False = Some (s', he)" "dict_inv X s1" "ents s1 = ents s" "frame s s1"
    and he: "case he of None \<Rightarrow> s' = s1 \<and> matches (dtype s) k (ents s) = {#} | Some r \<Rightarrow> removed X s1 k False s' r"
    using dictGenericDelete_ok [OF env inv sm ty, of k False] by blast
  show ?thesis
  proof (cases he)
    case None
    then have "s' = s1" "contents d k = None" using he contents_none [OF den] by auto
    then show ?thesis using refines_quiet [OF a g(2-4)] g(1) None by (simp add: dictDelete_def spec_def)
  next
    case (Some r)
    obtain k' w where w: "ent (store s1) r = (k', w)" by fastforce
    have d: "dtype s1 = dtype s" "freedKeys s1 = freedKeys s" "freedVals s1 = freedVals s" using g(4) by (simp_all add: frame_def)
    have rem: "same (dtype s) k k'" "ents s = add_mset (k', w) (ents s')" "dict_inv X s'" "dtype s' = dtype s"
      "freedKeys s' = freed (keyDestructor (dtype s)) (freedKeys s) k'"
      "freedVals s' = freed (valDestructor (dtype s)) (freedVals s) (the w)"
      using he Some w d g(3) by (simp_all add: removed_def)
    have "contents d k = Some (k', w)" "denotes (dtype s) (ents s') (unbind_key (dtype s) k (contents d))"
      using denotes_del [OF ty, of "(k', w)" "ents s'" "contents d" k] den rem(1,2) by simp_all
    then show ?thesis using g(1) Some rem(2-6) dead by (simp add: dictDelete_def spec_def refines_def dict_abs_def)
  qed
qed

lemma dictFetchValue_refines:
  assumes env: "roomy env" and a: "dict_abs X s d" and sm: "small X s" and ty: "type_ok (dtype s)" and nv: "\<not> no_value (dtype s)"
  shows "refines X s (map_option (apsnd Value) (dictFetchValue env s k)) (spec (dtype s) d (Fetch k))"
proof -
  have inv: "dict_inv X s" and den: "denotes (dtype s) (ents s) (contents d)" using a by (simp_all add: dict_abs_def)
  obtain s' res where f: "dictFetchValue env s k = Some (s', res)" "dict_inv X s'" "ents s' = ents s" "frame s s'"
    and res: "res = 0 \<and> matches (dtype s) k (ents s) = {#} \<or> (\<exists>k'. (k', Some res) \<in># matches (dtype s) k (ents s))"
    using dictFetchValue_ok [OF env inv sm ty nv, of k] by blast
  have "res = (case contents d k of None \<Rightarrow> 0 | Some (k', v) \<Rightarrow> the v)"
    using res den [unfolded denotes_def, rule_format, of k] by (auto split: option.splits)
  then show ?thesis using refines_quiet [OF a f(2-4)] f(1) by (simp add: spec_def)
qed

lemma unsized:
  "dict_abs X (s\<lparr>pauserehash := p\<rparr>) d = dict_abs X s d" "ents (s\<lparr>pauserehash := p\<rparr>) = ents s"
  "dict_abs X (s\<lparr>dict_can_resize := q\<rparr>) d = dict_abs X s d" "ents (s\<lparr>dict_can_resize := q\<rparr>) = ents s"
  using same_dict [of "s\<lparr>pauserehash := p\<rparr>" s] same_dict [of "s\<lparr>dict_can_resize := q\<rparr>" s] by (simp_all add: dict_abs_def)

lemma exec_refines:
  assumes env: "roomy env" and a: "dict_abs X s d" and sm: "small X s" and ty: "type_ok (dtype s)" and c: "cmd_ok (dtype s) c"
  shows "refines X s (exec env s c) (spec (dtype s) d c)"
proof -
  have inv: "dict_inv X s" using a by (simp add: dict_abs_def)
  show ?thesis
  proof (cases c)
    case (Rehash n)
    obtain s' more where "dictRehash env s n = Some (s', more)" "dict_inv X s'" "ents s' = ents s" "frame s s'"
      using dictRehash_ok [OF env inv sm, of n] c Rehash by (auto simp: cmd_ok_def)
    then show ?thesis using refines_quiet [OF a] Rehash by (simp add: exec_def spec_def)
  next
    case (Expand sz)
    then have "unat sz \<le> 2 ^ 41" using c by (simp add: cmd_ok_def)
    then obtain s' ok where "dictExpand env s sz = Some (s', ok)" "dict_inv X s'" "ents s' = ents s" "frame s s'"
      using dictExpand_ok [OF env inv] by blast
    then show ?thesis using refines_quiet [OF a] Expand by (simp add: exec_def spec_def)
  next
    case Resize
    obtain s' ok where "dictResize env s = Some (s', ok)" "dict_inv X s'" "ents s' = ents s" "frame s s'"
      using dictResize_ok [OF env inv sm] by blast
    then show ?thesis using refines_quiet [OF a] Resize by (simp add: exec_def spec_def)
  next
    case (Add k v)
    then show ?thesis using dictAdd_refines [OF env a sm ty] c by (simp add: exec_def cmd_ok_def)
  next
    case (Replace k v)
    then show ?thesis using dictReplace_refines [OF env a sm ty] c by (simp add: exec_def cmd_ok_def)
  next
    case (Delete k)
    then show ?thesis using dictDelete_refines [OF env a sm ty] by (simp add: exec_def)
  next
    case (Fetch k)
    then show ?thesis using dictFetchValue_refines [OF env a sm ty] c by (simp add: exec_def cmd_ok_def)
  qed (use a in \<open>simp_all add: exec_def spec_def refines_def dictSetResizeEnabled_def dictPauseRehashing_def dictResumeRehashing_def unsized\<close>)
qed

lemma exec_all_refines:
  assumes env: "roomy env" and X: "finite X"
  shows "dict_abs X s d \<Longrightarrow> type_ok (dtype s) \<Longrightarrow> \<forall>c \<in> set cs. cmd_ok (dtype s) c \<Longrightarrow>
    size (ents s) + card X + length cs < 2 ^ 40 \<Longrightarrow>
    \<exists>s'. exec_all env s cs = Some (s', snd (spec_all (dtype s) d cs)) \<and> dict_abs X s' (fst (spec_all (dtype s) d cs)) \<and> dtype s' = dtype s"
proof (induction cs arbitrary: s d)
  case (Cons c cs)
  have sm: "small X s" using Cons.prems(4) X by (simp add: small_def)
  obtain d1 r where sp: "spec (dtype s) d c = (d1, r)" by fastforce
  obtain s1 where s1: "exec env s c = Some (s1, r)" "dict_abs X s1 d1" "dtype s1 = dtype s" "size (ents s1) \<le> Suc (size (ents s))"
    using exec_refines [OF env Cons.prems(1) sm Cons.prems(2), of c] Cons.prems(3) sp by (auto simp: refines_def)
  obtain d2 rs where sp2: "spec_all (dtype s) d1 cs = (d2, rs)" by fastforce
  obtain s2 where "exec_all env s1 cs = Some (s2, rs)" "dict_abs X s2 d2" "dtype s2 = dtype s"
    using Cons.IH [OF s1(2)] s1(3,4) Cons.prems(2-4) sp2 by auto
  then show ?case using s1(1) sp sp2 by simp
qed simp

text \<open>A new dictionary is empty.\<close>

lemma dictCreate_abs:
  assumes "store junk = (\<lambda>_. None)"
  shows "dict_abs {} (dictCreate ty junk) \<lparr>contents = (\<lambda>_. None), dead_keys = freedKeys junk, dead_vals = freedVals junk\<rparr>"
  using assms by (simp add: dict_abs_def dictCreate_def dictInit_def dictReset_def dict_inv_def tab_inv_def used_inv_def rehash_inv_def
    refs_def tab_def heap_ok_def cells_def ents_def denotes_def matches_def)

subsection \<open>An allocator with room\<close>

text \<open>The first free slot of eight bytes.\<close>

fun free_slot :: "(ref \<rightharpoonup> dentry) \<Rightarrow> nat \<Rightarrow> nat \<Rightarrow> nat" where
  "free_slot st 0 n = n"
| "free_slot st (Suc m) n = (if st (word_of_nat (8 * n)) = None then n else free_slot st m (n + 1))"

declare free_slot.simps [simp del]

definition first_fit :: denv where
  "first_fit = \<lparr>new_entry = \<lambda>s. let a = word_of_nat (8 * free_slot (store s) (2 ^ 40) 0) in
    if store s a = None then Some (a, 0) else None, new_table = \<lambda>s n. Some (word_of_nat (2 ^ 50))\<rparr>"

lemma free_slot_range: "n \<le> free_slot st m n \<and> free_slot st m n \<le> n + m"
  by (induction st m n rule: free_slot.induct) (auto simp: free_slot.simps)

lemma free_slot_full: "st (word_of_nat (8 * free_slot st m n)) \<noteq> None \<Longrightarrow> n \<le> j \<Longrightarrow> j \<le> n + m \<Longrightarrow> st (word_of_nat (8 * j)) \<noteq> None"
proof (induction st m n rule: free_slot.induct)
  case (2 st m n)
  then show ?case by (cases "j = n") (auto simp: free_slot.simps split: if_splits)
qed (simp add: free_slot.simps)

lemma slot_normal: "entryIsNormal (word_of_nat (8 * n))"
proof -
  have "(word_of_nat (8 * n) :: 64 word) = push_bit 3 (word_of_nat n)" by (simp add: push_bit_eq_mult)
  then show ?thesis by (simp only: normal_bits bit_push_bit_iff) auto
qed

lemma slot_inj: "inj_on (\<lambda>n. word_of_nat (8 * n) :: ref) {..<2 ^ 40}"
proof (rule inj_on_inverseI)
  fix n :: nat assume "n \<in> {..<2 ^ 40}"
  then have "8 * n < 2 ^ LENGTH(64)" by simp
  then show "unat (word_of_nat (8 * n) :: ref) div 8 = n" unfolding unsigned_of_nat by (simp add: take_bit_nat_eq_self)
qed

lemma first_fit_entry:
  assumes "card (dom (store s)) < 2 ^ 40"
  shows "store s (word_of_nat (8 * free_slot (store s) (2 ^ 40) 0)) = None"
proof (rule ccontr)
  define N :: nat where "N = 2 ^ 40"
  assume *: "store s (word_of_nat (8 * free_slot (store s) (2 ^ 40) 0)) \<noteq> None"
  have full: "store s (word_of_nat (8 * j)) \<noteq> None" if "j < N" for j
    using free_slot_full [of "store s" "2 ^ 40" 0 j, OF *] that unfolding N_def by simp
  let ?f = "\<lambda>j. word_of_nat (8 * j) :: ref"
  have "card (?f ` {..<N}) = N" using card_image [OF slot_inj] unfolding N_def by simp
  moreover have "?f ` {..<N} \<subseteq> dom (store s)" using full by blast
  ultimately show False using card_mono [of "dom (store s)" "?f ` {..<N}"] assms unfolding N_def by simp
qed

lemma first_fit_roomy: "roomy first_fit"
  unfolding roomy_def env_ok_def
proof (intro conjI allI impI)
  fix s a j assume "new_entry first_fit s = Some (a, j)"
  then show "store s a = None" "entryIsNormal a"
    using slot_normal [of "free_slot (store s) (2 ^ 40) 0"]
    by (simp_all only: first_fit_def Let_def denv.simps option.inject prod.inject split: if_splits) (simp_all only: option.distinct)
next
  fix s :: dstate assume "card (dom (store s)) < 2 ^ 40"
  from first_fit_entry [OF this] show "new_entry first_fit s \<noteq> None"
    unfolding first_fit_def denv.simps Let_def by (simp only: if_True option.distinct not_False_eq_True simp_thms)
next
  fix s :: dstate and n :: "64 word" show "new_table first_fit s n \<noteq> None" by (simp add: first_fit_def)
qed

subsection \<open>Sequences of operations\<close>

text \<open>C6. Additions, replacements, deletions and lookups on a hash table, mixed with rehashing steps, resizings, changes
  of the resize policy and pauses, never touch memory they should not and never fail an assertion; their answers are
  those of a map whose keys are compared with the comparison of the type, and the keys and values given to the
  destructors are those of the deleted and overwritten entries. The type is as \<^verbatim>\<open>dictType\<close> asks for: an equivalence
  with a hash function that agrees with it.
\<close>

theorem dict_commands_refine:
  assumes "roomy env" and "type_ok (dtype s)" and "dict_abs X s d" and "finite X" and "\<forall>c \<in> set cs. cmd_ok (dtype s) c"
    and "size (ents s) + card X + length cs < 2 ^ 40"
  shows "\<exists>s'. exec_all env s cs = Some (s', snd (spec_all (dtype s) d cs)) \<and> dict_abs X s' (fst (spec_all (dtype s) d cs))"
  using exec_all_refines [OF assms(1,4,3,2,5,6)] by blast

text \<open>Keys compared without their lowest hexadecimal digit, with a destructor for values.\<close>

definition demo_type :: dictType where
  "demo_type = \<lparr>hashFunction = \<lambda>k. drop_bit 4 k, keyDup = None, valDup = None,
    keyCompare = Some (\<lambda>a b. drop_bit 4 a = drop_bit 4 b), keyDestructor = False, valDestructor = True,
    expandAllowed = None, no_value = False, keys_are_odd = False, dictEntryMetadataBytes = 0\<rparr>"

definition demo_dict :: "dictType \<Rightarrow> dstate" where
  "demo_dict ty = \<lparr>dtype = ty, ht_table = \<lambda>_. None, ht_used = \<lambda>_. 0, rehashidx = -1, pauserehash = 0, ht_size_exp = \<lambda>_. -1,
    store = \<lambda>_. None, freedKeys = [], freedVals = [], dict_can_resize = DICT_RESIZE_ENABLE\<rparr>"

definition demo_model :: dmodel where
  "demo_model = \<lparr>contents = \<lambda>_. None, dead_keys = [], dead_vals = []\<rparr>"

lemma demo_type_ok: "type_ok demo_type"
  by (auto simp: type_ok_def same_def dup_key_def demo_type_def key_ok_def)

lemma demo_abs: "dict_abs {} (demo_dict ty) demo_model" "ents (demo_dict ty) = {#}" "dtype (demo_dict ty) = ty"
  by (simp_all add: dict_abs_def demo_dict_def demo_model_def dict_inv_def tab_inv_def used_inv_def rehash_inv_def
    refs_def tab_def heap_ok_def cells_def ents_def denotes_def matches_def)

definition demo_cmds :: "dcmd list" where
  "demo_cmds = [Add 16 7, Add 17 8, Expand 100, Rehash 1, Replace 18 9, Fetch 19, Delete 20, Fetch 16]"

lemma demo_spec:
  "snd (spec_all demo_type demo_model demo_cmds) = [Flag True, Flag False, Done, Done, Flag False, Value 9, Flag True, Value 0]"
  "dead_vals (fst (spec_all demo_type demo_model demo_cmds)) = [7, 9]"
  by (simp_all add: demo_cmds_def spec_def demo_type_def demo_model_def spec_put_def bind_key_def unbind_key_def same_def
      dup_key_def dup_val_def freed_def)

lemma demo_cmds_ok: "\<forall>c \<in> set demo_cmds. cmd_ok demo_type c" "length demo_cmds = 8"
  by (simp_all add: demo_cmds_def cmd_ok_def demo_type_def key_ok_def)

theorem dict_commands_refine_witness:
  "\<exists>s'. exec_all first_fit (demo_dict demo_type) demo_cmds =
    Some (s', [Flag True, Flag False, Done, Done, Flag False, Value 9, Flag True, Value 0]) \<and> freedVals s' = [7, 9]"
proof -
  have "\<exists>s'. exec_all first_fit (demo_dict demo_type) demo_cmds = Some (s', snd (spec_all demo_type demo_model demo_cmds)) \<and>
    dict_abs {} s' (fst (spec_all demo_type demo_model demo_cmds))"
    using dict_commands_refine [OF first_fit_roomy, of "demo_dict demo_type" "{}" demo_model demo_cmds]
      demo_type_ok demo_abs [of demo_type] demo_cmds_ok by simp
  then show ?thesis using demo_spec by (auto simp: dict_abs_def)
qed

subsection \<open>Reachable states\<close>

text \<open>
  The states of a dictionary with the addresses of the entries that were unlinked and now belong to the caller. The
  caller keeps to the rules for keys and values, sets values of entries of the dictionary only, and there is
  memory left.
\<close>

inductive dict_step :: "denv \<Rightarrow> ref set \<times> dstate \<Rightarrow> ref set \<times> dstate \<Rightarrow> bool" for env where
  command: "small X s \<Longrightarrow> cmd_ok (dtype s) c \<Longrightarrow> exec env s c = Some (s', reply) \<Longrightarrow> dict_step env (X, s) (X, s')"
| find: "small X s \<Longrightarrow> dictFind env s k = Some (s', he) \<Longrightarrow> dict_step env (X, s) (X, s')"
| add_or_find: "small X s \<Longrightarrow> key_ok (dtype s) k \<Longrightarrow> dictAddOrFind env s k = Some (s', he) \<Longrightarrow> dict_step env (X, s) (X, s')"
| set_val: "he \<in> set (refs s) \<Longrightarrow> \<not> no_value (dtype s) \<Longrightarrow> dictSetVal s he v = Some s' \<Longrightarrow> dict_step env (X, s) (X, s')"
| unlink_none: "small X s \<Longrightarrow> dictUnlink env s k = Some (s', None) \<Longrightarrow> dict_step env (X, s) (X, s')"
| unlink: "small X s \<Longrightarrow> dictUnlink env s k = Some (s', Some he) \<Longrightarrow>
    dict_step env (X, s) (if entryIsKey he then X else insert (addr he) X, s')"

inductive dict_reach :: "denv \<Rightarrow> dictType \<Rightarrow> ref set \<times> dstate \<Rightarrow> bool" for env ty where
  create: "store junk = (\<lambda>_. None) \<Longrightarrow> dict_reach env ty ({}, dictCreate ty junk)"
| step: "dict_reach env ty xs \<Longrightarrow> dict_step env xs xs' \<Longrightarrow> dict_reach env ty xs'"

inductive_cases dict_stepE [consumes 1, case_names command find add_or_find set_val unlink_none unlink]: "dict_step env (X, s) (X', s')"

definition reach_inv :: "dictType \<Rightarrow> ref set \<Rightarrow> dstate \<Rightarrow> bool" where
  "reach_inv ty X s \<longleftrightarrow> dtype s = ty \<and> finite X \<and> (\<exists>d. dict_abs X s d)"

lemma reach_invI: "dtype s' = dtype s \<Longrightarrow> finite X \<Longrightarrow> dict_inv X s' \<Longrightarrow> denotes (dtype s) (ents s') m \<Longrightarrow> reach_inv (dtype s) X s'"
  unfolding reach_inv_def dict_abs_def
  by (intro conjI exI [of _ "\<lparr>contents = m, dead_keys = freedKeys s', dead_vals = freedVals s'\<rparr>"]) simp_all

lemma dictUnlink_reach_inv:
  assumes env: "roomy env" and ty: "type_ok (dtype s)" and fin: "finite X" and a: "dict_abs X s d" and sm: "small X s"
    and u: "dictUnlink env s k = Some (s', he)"
  shows "reach_inv (dtype s) (case he of None \<Rightarrow> X | Some r \<Rightarrow> if entryIsKey r then X else insert (addr r) X) s'"
proof -
  have inv: "dict_inv X s" and den: "denotes (dtype s) (ents s) (contents d)" using a by (simp_all add: dict_abs_def)
  obtain s1 where g: "dict_inv X s1" "ents s1 = ents s" "frame s s1"
    and he: "case he of None \<Rightarrow> s' = s1 \<and> matches (dtype s) k (ents s) = {#} | Some r \<Rightarrow> removed X s1 k True s' r"
    using dictGenericDelete_ok [OF env inv sm ty, of k True] u by (auto simp: dictUnlink_def)
  have d1: "dtype s1 = dtype s" using g(3) by (simp add: frame_def)
  show ?thesis
  proof (cases he)
    case None
    then show ?thesis using reach_invI [OF d1 fin g(1)] he den g(2) by simp
  next
    case (Some r)
    have rem: "same (dtype s) k (key_of s1 r)" "ents s = add_mset (ent (store s1) r) (ents s')" "dtype s' = dtype s"
      "dict_inv (if \<not> entryIsKey r then insert (addr r) X else X) s'"
      using he Some d1 g(2) by (simp_all add: removed_def)
    have "denotes (dtype s) (ents s') (unbind_key (dtype s) k (contents d))"
      using denotes_del(1) [OF ty, of "ent (store s1) r" "ents s'"] den rem(1,2) by simp
    from reach_invI [OF rem(3) _ rem(4) this] show ?thesis using Some fin by (cases "entryIsKey r") simp_all
  qed
qed

lemma dictAddOrFind_reach_inv:
  assumes env: "roomy env" and ty: "type_ok (dtype s)" and fin: "finite X" and a: "dict_abs X s d" and sm: "small X s"
    and k: "key_ok (dtype s) k" and f: "dictAddOrFind env s k = Some (s', he)"
  shows "reach_inv (dtype s) X s'"
proof -
  have inv: "dict_inv X s" and den: "denotes (dtype s) (ents s) (contents d)" using a by (simp_all add: dict_abs_def)
  obtain entry existing where raw: "dict_inv X s'" "frame s s'"
    and e: "case entry of
       Some r \<Rightarrow> existing = None \<and> matches (dtype s) k (ents s) = {#} \<and> r \<in> set (refs s') \<and>
         (\<exists>v. ents s' = add_mset (dup_key (dtype s) k, v) (ents s) \<and> ent (store s') r = (dup_key (dtype s) k, v) \<and>
           (v = None \<longleftrightarrow> no_value (dtype s)))
     | None \<Rightarrow> ents s' = ents s \<and> (\<exists>r. existing = Some r \<and> r \<in> set (refs s') \<and> same (dtype s) k (key_of s' r))"
    using dictAddRaw_ok [OF env inv sm ty k] f by (auto simp: dictAddOrFind_def)
  have d: "dtype s' = dtype s" using raw(2) by (simp add: frame_def)
  show ?thesis
  proof (cases entry)
    case None
    then show ?thesis using reach_invI [OF d fin raw(1)] e den by simp
  next
    case (Some r)
    then obtain v where v: "matches (dtype s) k (ents s) = {#}" "ents s' = add_mset (dup_key (dtype s) k, v) (ents s)" using e by auto
    have "denotes (dtype s) (ents s') (bind_key (dtype s) k (dup_key (dtype s) k, v) (contents d))"
      unfolding v(2) by (rule denotes_add [OF ty den]) (use contents_none [OF den] v(1) type_okD(4) [OF ty] in simp_all)
    then show ?thesis using reach_invI [OF d fin raw(1)] by simp
  qed
qed

lemma dict_step_inv:
  assumes env: "roomy env" and ty: "type_ok ty" and i: "reach_inv ty X s" and st: "dict_step env (X, s) (X', s')"
  shows "reach_inv ty X' s'"
proof -
  obtain d where a: "dict_abs X s d" and t: "dtype s = ty" and fin: "finite X" using i by (auto simp: reach_inv_def)
  have inv: "dict_inv X s" and den: "denotes (dtype s) (ents s) (contents d)" using a by (simp_all add: dict_abs_def)
  have ty': "type_ok (dtype s)" using ty t by simp
  from st show ?thesis
  proof (cases rule: dict_stepE)
    case (command c reply)
    then show ?thesis using exec_refines [OF env a _ ty', of c] fin t by (auto simp: refines_def reach_inv_def)
  next
    case (find k he)
    then show ?thesis
      using dictFind_ok [OF env inv _ ty', of k] reach_invI [of s' s X "contents d"] fin den t by (auto simp: frame_def)
  next
    case (add_or_find k he)
    then show ?thesis using dictAddOrFind_reach_inv [OF env ty' fin a] t by simp
  next
    case (set_val he v)
    obtain k w where w: "ent (store s) he = (k, w)" by fastforce
    obtain M where "dict_inv X s'" "frame s s'" "ents s = add_mset (k, w) M" "ents s' = add_mset (k, Some (dup_val (dtype s) v)) M"
      using dictSetVal_ok [OF inv set_val(2) w set_val(3), of v] set_val(4) by auto
    then show ?thesis using reach_invI [of s' s X] denotes_set(1) [OF ty', of k w M "contents d" k] den fin t set_val(1)
      by (auto simp: frame_def)
  next
    case (unlink_none k)
    then show ?thesis using dictUnlink_reach_inv [OF env ty' fin a, of k s' None] t by simp
  next
    case (unlink k he)
    then show ?thesis using dictUnlink_reach_inv [OF env ty' fin a, of k s' "Some he"] t by simp
  qed
qed

lemma dict_reach_inv:
  assumes env: "roomy env" and ty: "type_ok ty" and "dict_reach env ty xs"
  shows "reach_inv ty (fst xs) (snd xs)"
  using assms(3)
proof induction
  case (create junk)
  then show ?case using dictCreate_abs [of junk ty] by (auto simp: reach_inv_def dictCreate_def dictInit_def)
next
  case (step xs xs')
  then show ?case using dict_step_inv [OF env ty, of "fst xs" "snd xs" "fst xs'" "snd xs'"] by simp
qed

text \<open>C8. In every state that creation, additions, lookups, replacements, deletions, unlinking, resizing and
  rehashing can reach, the hash table is well formed: every entry is in the bucket its hash asks for in one of at most two tables, the
  buckets below the rehash index are empty, the counters count, the live memory is exactly that of the entries of the
  tables and of the unlinked ones, and no key is there twice.
\<close>

theorem dict_invariant_reachable:
  assumes "roomy env" and "type_ok ty" and "dict_reach env ty (X, s)"
  shows "dict_inv X s \<and> (\<forall>k. size (matches ty k (ents s)) \<le> 1)"
proof -
  obtain d where "dict_abs X s d" "dtype s = ty" using dict_reach_inv [OF assms] by (auto simp: reach_inv_def)
  then show ?thesis by (auto simp: dict_abs_def denotes_def split: option.splits)
qed

lemma demo_created: "dictCreate ty (demo_dict ty) = demo_dict ty" "store (demo_dict ty) = (\<lambda>_. None)"
  by (auto simp: demo_dict_def dictCreate_def dictInit_def dictReset_def)

lemma demo_reach: "\<exists>s. dict_reach first_fit demo_type ({}, s) \<and> matches demo_type 17 (ents s) = {#(16, Some 7)#}"
proof -
  have 0: "dict_reach first_fit demo_type ({}, demo_dict demo_type)"
    using dict_reach.create [of "demo_dict demo_type" first_fit demo_type] by (simp add: demo_created)
  have sm: "small {} (demo_dict demo_type)" "cmd_ok demo_type (Add 16 7)"
    by (simp_all add: small_def demo_abs cmd_ok_def demo_type_def key_ok_def)
  obtain s r where s: "exec first_fit (demo_dict demo_type) (Add 16 7) = Some (s, r)" "dict_abs {} s (fst (spec demo_type demo_model (Add 16 7)))"
      "dtype s = demo_type"
    using exec_refines [OF first_fit_roomy demo_abs(1), of demo_type "Add 16 7"] demo_type_ok sm by (auto simp: demo_abs refines_def)
  have "dict_reach first_fit demo_type ({}, s)"
    by (rule dict_reach.step [OF 0 dict_step.command [OF sm(1) _ s(1)]]) (simp add: demo_abs sm)
  moreover have "contents (fst (spec demo_type demo_model (Add 16 7))) 17 = Some (16, Some 7)"
    by (simp add: spec_def demo_model_def spec_put_def bind_key_def same_def dup_key_def dup_val_def demo_type_def)
  ultimately show ?thesis using s(2,3) by (auto simp: dict_abs_def denotes_def)
qed

theorem dict_invariant_reachable_witness:
  "\<exists>s. dict_reach first_fit demo_type ({}, s) \<and> matches demo_type 17 (ents s) = {#(16, Some 7)#} \<and> dict_inv {} s"
  using demo_reach dict_invariant_reachable [OF first_fit_roomy demo_type_ok] by blast

text \<open>C24. In every reachable state the tag of an entry pointer tells the truth: a table without values holds bare odd keys, if its
  type allows them, and pointers tagged as entries without value, a table with values untagged pointers only; behind
  each pointer is a live entry with that layout, from which the key and, where there is one, the value can be read.
\<close>

theorem dict_entries_typed:
  assumes "roomy env" and "type_ok ty" and "dict_reach env ty (X, s)" and "r \<in> set (refs s)"
  shows "(if no_value ty then (entryIsKey r \<and> keys_are_odd ty \<or> entryIsNoValue r) else entryIsNormal r \<and> dictGetVal s r \<noteq> None) \<and>
    (\<exists>k. dictGetKey s r = Some k \<and> key_ok ty k)"
proof -
  obtain d where d: "dict_abs X s d" "dtype s = ty" using dict_reach_inv [OF assms(1-3)] by (auto simp: reach_inv_def)
  have ok: "ref_ok ty (store s) r" using heap_ok_ref [OF _ assms(4)] d by (auto simp: dict_abs_def dict_inv_def)
  have ok': "ref_ok (dtype s) (store s) r" using ok d(2) by simp
  note ops = ref_ok_ops [OF ok'] and key = ref_ok_key [OF ok]
  from ok show ?thesis using ops(1,4) key d(2) by (cases rule: ref_ok_cases) (auto simp: ent_def)
qed

theorem dict_entries_typed_witness:
  "\<exists>s r. dict_reach first_fit demo_type ({}, s) \<and> r \<in> set (refs s) \<and> entryIsNormal r \<and> dictGetVal s r \<noteq> None"
proof -
  obtain s where s: "dict_reach first_fit demo_type ({}, s)" "matches demo_type 17 (ents s) = {#(16, Some 7)#}" using demo_reach by blast
  then have "ents s \<noteq> {#}" by (auto simp: matches_def)
  then obtain r where "r \<in> set (refs s)" by (cases "refs s") (auto simp: ents_def)
  then show ?thesis
    using s dict_entries_typed [OF first_fit_roomy demo_type_ok s(1), of r] by (auto simp: demo_type_def)
qed

subsection \<open>The end of rehashing\<close>

lemma rehash_ms_loop_ends:
  assumes env: "roomy env"
  shows "dict_inv X s \<Longrightarrow> small X s \<Longrightarrow>
    \<exists>s' r. rehash_ms_loop env clock ms tick s rehashes = Some (s', r) \<and> dict_inv X s' \<and> ents s' = ents s \<and> frame s s' \<and>
      (dict_can_resize s = DICT_RESIZE_ENABLE \<and> (\<forall>i. clock i - clock 0 \<le> ms) \<longrightarrow> \<not> dictIsRehashing s')"
proof (induction "work_left s" arbitrary: s tick rehashes rule: less_induct)
  case less
  obtain s1 more where r: "dictRehash env s 100 = Some (s1, more)" "dict_inv X s1" "ents s1 = ents s" "frame s s1"
    "\<not> dictIsRehashing s \<longrightarrow> s1 = s \<and> \<not> more" "more \<longrightarrow> work_left s1 < work_left s"
    "dict_can_resize s = DICT_RESIZE_ENABLE \<and> dictIsRehashing s \<longrightarrow> more = dictIsRehashing s1"
    using dictRehash_ok [OF env less.prems, of 100] by auto
  note loop = rehash_ms_loop.simps [of env clock ms tick s rehashes]
  show ?case
  proof (cases more)
    case False
    then show ?thesis using r loop by (intro exI [of _ s1] exI [of _ rehashes]) (cases "dictIsRehashing s"; simp)
  next
    case True
    show ?thesis
    proof (cases "clock tick - clock 0 > ms")
      case late: True
      then have "\<not> (\<forall>i. clock i - clock 0 \<le> ms)" by (auto simp: not_le)
      moreover have "rehash_ms_loop env clock ms tick s rehashes = Some (s1, rehashes + 100)" using loop r(1) True late by simp
      ultimately show ?thesis using r(2-4) by blast
    next
      case early: False
      have sm: "small X s1" using less.prems(2) r(3) by (simp add: small_def)
      obtain s' q where "rehash_ms_loop env clock ms (tick + 1) s1 (rehashes + 100) = Some (s', q)" "dict_inv X s'" "ents s' = ents s1"
        "frame s1 s'" "dict_can_resize s1 = DICT_RESIZE_ENABLE \<and> (\<forall>i. clock i - clock 0 \<le> ms) \<longrightarrow> \<not> dictIsRehashing s'"
        using less.hyps [OF _ r(2) sm] r(6) True by blast
      moreover have "dict_can_resize s1 = dict_can_resize s" using r(4) by (simp add: frame_def)
      ultimately show ?thesis using loop r(1,3) True early frame_trans [OF r(4)] by (intro exI [of _ s'] exI [of _ q]) simp
    qed
  qed
qed

text \<open>C26. Rehashing for a number of milliseconds always returns, whatever the clock shows, with the contents and the
  invariant kept; and when resizing is enabled, no iterator pauses it and the time is not up, the whole table has been moved.
\<close>

theorem dictRehashMilliseconds_returns:
  assumes "roomy env" and "dict_inv X s" and "small X s"
  shows "\<exists>s' rehashes. dictRehashMilliseconds env clock s ms = Some (s', rehashes) \<and> dict_inv X s' \<and> ents s' = ents s \<and>
    (dict_can_resize s = DICT_RESIZE_ENABLE \<and> pauserehash s = 0 \<and> (\<forall>i. clock i - clock 0 \<le> ms) \<longrightarrow> \<not> dictIsRehashing s')"
proof (cases "sint (pauserehash s) > 0")
  case True
  then show ?thesis using assms(2) by (auto simp: dictRehashMilliseconds_def)
next
  case False
  then show ?thesis using rehash_ms_loop_ends [OF assms, of clock ms 1 0] by (auto simp: dictRehashMilliseconds_def)
qed

text \<open>A table of four buckets with one key, on the way to a table of eight buckets.\<close>

definition moving_dict :: dstate where
  "moving_dict = (demo_dict demo_type)\<lparr>ht_table := (\<lambda>t. if t = 0 then Some (4096, [[], [8], [], []]) else if t = 1 then Some (8192, replicate 8 []) else None),
    ht_used := (\<lambda>t. if t = 0 then 1 else 0), ht_size_exp := (\<lambda>t. if t = 0 then 2 else if t = 1 then 3 else -1), rehashidx := 0,
    store := [8 \<mapsto> DictEntry 80 7]\<rparr>"

lemma moving_dict_inv: "dict_inv {} moving_dict" "small {} moving_dict"
proof -
  have n: "entryIsNormal 8" by (simp add: entryIsNormal_def ENTRY_PTR_MASK_def ENTRY_PTR_NORMAL_def)
  have e: "ent [8 \<mapsto> DictEntry 80 7] 8 = (80, Some 7)" using n by (simp add: ent_def)
  have d: "drop_bit 4 (80 :: 64 word) = 5" by simp
  have T0: "table_ok demo_type [8 \<mapsto> DictEntry 80 7] 2 [[], [8], [], []]"
    unfolding table_ok_def
  proof (intro conjI allI impI ballI)
    fix i assume "i < length [[], [8 :: ref], [], []]"
    then have i: "i = 0 \<or> i = 1 \<or> i = 2 \<or> i = 3" by auto
    then show "chain_ok ([[], [8], [], []] ! i)" by auto
    fix r assume "r \<in> set ([[], [8 :: ref], [], []] ! i)"
    then have "r = 8" "i = 1" using i by auto
    then show "unat (hashFunction demo_type (fst (ent [8 \<mapsto> DictEntry 80 7] r))) mod 2 ^ 2 = i"
      using e d by (simp add: demo_type_def)
  qed simp
  have T1: "table_ok demo_type [8 \<mapsto> DictEntry 80 7] 3 (replicate 8 [])" using table_ok_empty [of _ _ 3] by simp
  have tab: "tab moving_dict 0 = [[], [8], [], []]" "tab moving_dict 1 = replicate 8 []"
    by (simp_all add: tab_def moving_dict_def)
  have "tab_inv moving_dict 0" "tab_inv moving_dict 1"
    by (rule tab_invI [of 2], use T0 tab in \<open>simp_all add: moving_dict_def demo_dict_def\<close>)
      (rule tab_invI [of 3], use T1 tab in \<open>simp_all add: moving_dict_def demo_dict_def\<close>)
  moreover have "heap_ok demo_type {} [8 \<mapsto> DictEntry 80 7] [8]"
    using n by (simp add: heap_ok_def ref_ok_def cells_def demo_type_def)
  moreover have "refs moving_dict = [8]" "dtype moving_dict = demo_type" "store moving_dict = [8 \<mapsto> DictEntry 80 7]"
    using tab by (simp_all add: refs_def) (simp_all add: moving_dict_def demo_dict_def)
  moreover have "used_inv moving_dict" unfolding used_inv_def tab by (simp add: moving_dict_def)
  moreover have "rehash_inv moving_dict" unfolding rehash_inv_def tab by (simp add: moving_dict_def)
  ultimately show "dict_inv {} moving_dict"
    unfolding dict_inv_def by simp
  show "small {} moving_dict" unfolding small_def size_ents refs_def tab by simp
qed

theorem dictRehashMilliseconds_returns_witness:
  "\<exists>s' rehashes. dictRehashMilliseconds first_fit (\<lambda>_. 0) moving_dict 1 = Some (s', rehashes) \<and> ents s' = {#(80, Some 7)#} \<and>
    \<not> dictIsRehashing s'"
proof -
  have "ents moving_dict = {#(80, Some 7)#}"
    by (simp add: ents_def refs_def tab_def moving_dict_def ent_def entryIsKey_def entryIsNormal_def ENTRY_PTR_MASK_def ENTRY_PTR_NORMAL_def addr_def)
  moreover have "dict_can_resize moving_dict = DICT_RESIZE_ENABLE" "pauserehash moving_dict = 0" by (simp_all add: moving_dict_def demo_dict_def)
  ultimately show ?thesis using dictRehashMilliseconds_returns [OF first_fit_roomy moving_dict_inv, of "\<lambda>_. 0" 1] by auto
qed

subsection \<open>Clearing\<close>

text \<open>What the removal of entries leaves alone, and what it gives to the destructors.\<close>

definition cleared :: "ref list \<Rightarrow> dstate \<Rightarrow> dstate \<Rightarrow> bool" where
  "cleared rs s s' \<longleftrightarrow> dtype s' = dtype s \<and> ht_table s' = ht_table s \<and> ht_size_exp s' = ht_size_exp s \<and>
    freedKeys s' = freedKeys s @ (if keyDestructor (dtype s) then map (key_of s) rs else []) \<and>
    freedVals s' = freedVals s @ (if valDestructor (dtype s) then map (\<lambda>r. the (snd (ent (store s) r))) rs else [])"

lemma cleared_append:
  assumes "cleared a s s1" and "cleared b s1 s2" and "\<And>q. q \<in> set b \<Longrightarrow> ent (store s1) q = ent (store s) q"
  shows "cleared (a @ b) s s2"
proof -
  have "map (key_of s1) b = map (key_of s) b" "map (\<lambda>r. the (snd (ent (store s1) r))) b = map (\<lambda>r. the (snd (ent (store s) r))) b"
    using assms(3) by simp_all
  then show ?thesis using assms(1,2) by (auto simp: cleared_def)
qed

definition clears :: "ref set \<Rightarrow> nat \<Rightarrow> ref list \<Rightarrow> ref list \<Rightarrow> dstate \<Rightarrow> dstate \<Rightarrow> bool" where
  "clears X t rs rest s s' \<longleftrightarrow> heap_ok (dtype s) X (store s') rest \<and> cleared rs s s' \<and>
    ht_used s' = (ht_used s)(t := ht_used s t - word_of_nat (length rs)) \<and> (\<forall>q \<in> set rest. ent (store s') q = ent (store s) q)"

lemma clears_append:
  assumes "clears X t a (b @ rest) s s1" and "clears X t b rest s1 s2"
  shows "clears X t (a @ b) rest s s2"
  using assms cleared_append [of a s s1 b s2] by (auto simp: clears_def cleared_def fun_eq_iff)

lemma clear_one:
  assumes heap: "heap_ok (dtype s) X (store s) (r # rest)" and ty: "type_ok (dtype s)"
  shows "\<exists>s'. dictFreeUnlinkedEntry s (Some r) = Some s' \<and> clears X t [r] rest s (add_used t (- 1) s')"
proof -
  have ok: "ref_ok (dtype s) (store s) r" using heap by (simp add: heap_ok_def)
  obtain k v where e: "ent (store s) r = (k, v)" by fastforce
  have "heap_ok (dtype s) X (if entryIsKey r then store s else (store s)(addr r := None)) rest"
    using heap_ok_free(1) [OF heap] heap_ok_key [of r] heap by (cases "entryIsKey r") auto
  moreover have "ent (if entryIsKey r then store s else (store s)(addr r := None)) q = ent (store s) q" if "q \<in> set rest" for q
    using heap_ok_free(2) [OF heap _ that] by (cases "entryIsKey r") auto
  ultimately show ?thesis
    using dictFreeUnlinkedEntry_ok [OF ok ty e] e by (auto simp: clears_def cleared_def freed_def fun_eq_iff)
qed

lemma clear_chain_ok:
  "heap_ok (dtype s) X (store s) (c @ rest) \<Longrightarrow> type_ok (dtype s) \<Longrightarrow> chain_ok c \<Longrightarrow>
    \<exists>s'. clear_chain t s c = Some s' \<and> clears X t c rest s s'"
proof (induction c arbitrary: s)
  case Nil
  then show ?case by (simp add: clears_def cleared_def)
next
  case (Cons r c)
  have ok: "ref_ok (dtype s) (store s) r" using Cons.prems(1) by (simp add: heap_ok_def)
  obtain s1 where s1: "dictFreeUnlinkedEntry s (Some r) = Some s1" "clears X t [r] (c @ rest) s (add_used t (- 1) s1)"
    using clear_one [of s X r "c @ rest" t] Cons.prems by auto
  have c: "chain_ok c" using Cons.prems(3) by (simp add: chain_ok_Cons)
  have "heap_ok (dtype s1) X (store s1) (c @ rest)" "dtype s1 = dtype s" using s1(2) by (simp_all add: clears_def cleared_def)
  then obtain s' where s': "clear_chain t (add_used t (- 1) s1) c = Some s'" "clears X t c rest (add_used t (- 1) s1) s'"
    using Cons.IH [of "add_used t (- 1) s1"] Cons.prems(2) c by auto
  then have "clear_chain t s (r # c) = Some s'"
    using s1(1) dictGetNext_ok [OF Cons.prems(3) ok] by (simp add: clear_chain.simps)
  then show ?case using clears_append [OF s1(2) s'(2)] by simp
qed

lemma unat_minus_of_nat:
  assumes "n \<le> unat (a :: 64 word)"
  shows "unat (a - word_of_nat n) = unat a - n"
proof -
  have "unat (word_of_nat n :: 64 word) = n"
    using assms unsigned_less [of a, where ?'a = nat] by (simp add: unsigned_of_nat take_bit_nat_eq_self)
  then show ?thesis using assms unat_sub [of "word_of_nat n" a] by (simp add: word_le_nat_alt)
qed

lemma clear_loop_ok:
  "heap_ok (dtype s) X (store s) (concat (drop i (tab s t)) @ rest) \<Longrightarrow> type_ok (dtype s) \<Longrightarrow> (\<And>c. c \<in> set (tab s t) \<Longrightarrow> chain_ok c) \<Longrightarrow>
    unat (DICTHT_SIZE (ht_size_exp s t)) = length (tab s t) \<Longrightarrow> unat (ht_used s t) = length (concat (drop i (tab s t))) \<Longrightarrow>
    \<exists>s'. clear_loop t s i = Some s' \<and> clears X t (concat (drop i (tab s t))) rest s s'"
proof (induction t s i rule: clear_loop.induct)
  case (1 t s i)
  let ?T = "tab s t"
  show ?case
  proof (cases "i < length ?T \<and> ht_used s t > 0")
    case False
    then have "concat (drop i ?T) = []" using "1.prems"(5) by (auto simp: not_less)
    moreover have "clear_loop t s i = Some s" using False "1.prems"(4) by (subst clear_loop.simps) auto
    ultimately show ?thesis using "1.prems"(1) by (simp add: clears_def cleared_def del: concat_eq_Nil_conv)
  next
    case True
    have d: "concat (drop i ?T) = ?T ! i @ concat (drop (Suc i) ?T)" using True by (simp add: Cons_nth_drop_Suc [symmetric])
    have c: "chain_ok (?T ! i)" using "1.prems"(3) True by simp
    obtain s1 where s1: "clear_chain t s (?T ! i) = Some s1" "clears X t (?T ! i) (concat (drop (Suc i) ?T) @ rest) s s1"
      using clear_chain_ok [OF _ "1.prems"(2) c, of X "concat (drop (Suc i) ?T) @ rest" t] "1.prems"(1) d by auto
    have same: "tab s1 = tab s" "dtype s1 = dtype s" "ht_size_exp s1 = ht_size_exp s" "ht_used s1 t = ht_used s t - word_of_nat (length (?T ! i))"
      using s1(2) by (simp_all add: clears_def cleared_def tab_def fun_eq_iff)
    have u: "unat (ht_used s1 t) = length (concat (drop (i + 1) (tab s1 t)))"
      using unat_minus_of_nat [of "length (?T ! i)" "ht_used s t"] "1.prems"(5) d same by simp
    obtain s' where s': "clear_loop t s1 (i + 1) = Some s'" "clears X t (concat (drop (i + 1) (tab s1 t))) rest s1 s'"
      using "1.IH" [of s1] True s1 same "1.prems"(2-4) u by (auto simp: clears_def bucket_tab)
    have "clear_loop t s i = Some s'" using True "1.prems"(4) s1(1) s'(1) by (subst clear_loop.simps) (simp add: bucket_tab)
    then show ?thesis using clears_append [OF s1(2)] s'(2) same(1) d by simp
  qed
qed

lemma dictClear_ok:
  assumes "heap_ok (dtype s) X (store s) (concat (tab s t) @ rest)" and "type_ok (dtype s)" and "\<And>c. c \<in> set (tab s t) \<Longrightarrow> chain_ok c"
    and "unat (DICTHT_SIZE (ht_size_exp s t)) = length (tab s t)" and "unat (ht_used s t) = length (concat (tab s t))"
  shows "\<exists>s'. dictClear s t = Some (dictReset t s') \<and> clears X t (concat (tab s t)) rest s s'"
  using clear_loop_ok [of s X 0 t rest] assms by (auto simp: dictClear_def)

lemma table_chains:
  assumes "dict_inv X s" and "t = 0 \<or> t = 1"
  shows "c \<in> set (tab s t) \<Longrightarrow> chain_ok c" and "unat (DICTHT_SIZE (ht_size_exp s t)) = length (tab s t)"
    and "unat (ht_used s t) = length (concat (tab s t))"
proof -
  show "chain_ok c" if "c \<in> set (tab s t)" using bucket_chain(1) [OF assms] that by (auto simp: in_set_conv_nth)
  show "unat (ht_used s t) = length (concat (tab s t))" using assms by (auto simp: dict_inv_def used_inv_def)
  have "tab_inv s t" using assms by (auto simp: dict_inv_def)
  then show "unat (DICTHT_SIZE (ht_size_exp s t)) = length (tab s t)"
    using table_size_nonzero(2) [OF assms(1) _ assms(2)] by (cases "ht_table s t = None") (auto simp: tab_inv_def tab_None DICTHT_SIZE_def)
qed

text \<open>C28. Emptying a hash table in any state, also in the middle of a rehash, gives every key and every value to its
  destructor exactly once, frees every entry exactly once and nothing else, and leaves an empty table without memory.
\<close>

theorem dictEmpty_frees_all:
  assumes inv: "dict_inv X s" and ty: "type_ok (dtype s)"
  shows "\<exists>s'. dictEmpty s = Some s' \<and> dict_inv X s' \<and> ents s' = {#} \<and> dom (store s') = X \<and>
    freedKeys s' = freedKeys s @ (if keyDestructor (dtype s) then map (key_of s) (refs s) else []) \<and>
    freedVals s' = freedVals s @ (if valDestructor (dtype s) then map (\<lambda>r. the (snd (ent (store s) r))) (refs s) else []) \<and>
    (\<forall>t \<le> 1. ht_table s' t = None \<and> ht_used s' t = 0) \<and> pauserehash s' = 0"
proof -
  have heap: "heap_ok (dtype s) X (store s) (concat (tab s 0) @ concat (tab s 1) @ [])" using inv by (simp add: dict_inv_def refs_def)
  obtain s1 where s1: "dictClear s 0 = Some (dictReset 0 s1)" "clears X 0 (concat (tab s 0)) (concat (tab s 1) @ []) s s1"
    using dictClear_ok [OF heap ty] table_chains [OF inv, of 0] by auto
  let ?r = "dictReset 0 s1"
  have r: "tab ?r 1 = tab s 1" "dtype ?r = dtype s" "store ?r = store s1" "ht_size_exp ?r 1 = ht_size_exp s 1" "ht_used ?r 1 = ht_used s 1"
      "freedKeys ?r = freedKeys s1" "freedVals ?r = freedVals s1" "ht_table ?r 1 = ht_table s 1"
    using s1(2) by (simp_all add: clears_def cleared_def tab_def dictReset_def)
  have heap1: "heap_ok (dtype ?r) X (store ?r) (concat (tab ?r 1) @ [])" using s1(2) r by (simp add: clears_def)
  obtain s2 where s2: "dictClear ?r 1 = Some (dictReset 1 s2)" "clears X 1 (concat (tab ?r 1)) [] ?r s2"
    using dictClear_ok [OF heap1] table_chains [OF inv, of 1] ty r by auto
  let ?n = "(dictReset 1 s2)\<lparr>rehashidx := -1, pauserehash := 0\<rparr>"
  have "cleared (concat (tab s 1)) s1 (s2\<lparr>ht_table := ht_table s1, ht_size_exp := ht_size_exp s1\<rparr>)"
    using s2(2) r s1(2) by (simp add: clears_def cleared_def)
  from cleared_append [OF _ this, of "concat (tab s 0)" s] have c: "cleared (refs s) s (s2\<lparr>ht_table := ht_table s1, ht_size_exp := ht_size_exp s1\<rparr>)"
    using s1(2) unfolding clears_def refs_def by auto
  have f: "ht_table ?n 0 = None" "ht_table ?n 1 = None" "ht_used ?n 0 = 0" "ht_used ?n 1 = 0" "ht_size_exp ?n 0 = -1" "ht_size_exp ?n 1 = -1"
    using s2(2) by (simp_all add: clears_def cleared_def dictReset_def)
  have e: "refs ?n = []" using f by (simp add: refs_def tab_def)
  have st: "heap_ok (dtype s) X (store ?n) []" "dtype ?n = dtype s" using s2(2) r by (simp_all add: clears_def cleared_def dictReset_def)
  have "dict_inv X ?n" unfolding dict_inv_def used_inv_def rehash_inv_def tab_inv_def e using f st by (simp add: tab_None)
  moreover have "dictEmpty s = Some ?n" using s1(1) s2(1) by (simp add: dictEmpty_def)
  moreover have "dom (store ?n) = X" using st(1) by (simp add: heap_ok_def)
  moreover have "\<forall>t \<le> 1. ht_table ?n t = None \<and> ht_used ?n t = 0" using f by (auto simp: le_Suc_eq)
  ultimately show ?thesis using c e by (intro exI [of _ ?n]) (simp add: ents_def cleared_def dictReset_def)
qed

theorem dictEmpty_frees_all_witness:
  "\<exists>s'. dictEmpty moving_dict = Some s' \<and> dom (store s') = {} \<and> freedVals s' = [7]"
proof -
  have f: "dtype moving_dict = demo_type" "freedVals moving_dict = []" "valDestructor demo_type"
    by (simp_all add: moving_dict_def demo_dict_def demo_type_def)
  have "refs moving_dict = [8]" by (simp add: refs_def tab_def moving_dict_def)
  moreover have "the (snd (ent (store moving_dict) 8)) = 7"
    by (simp add: moving_dict_def ent_def entryIsKey_def addr_def ENTRY_PTR_MASK_def)
  ultimately show ?thesis using dictEmpty_frees_all [OF moving_dict_inv(1)] demo_type_ok f by auto
qed

end
