(* ===== verification/Redis_Dict_Scan.thy ===== *)
theory Redis_Dict_Scan
  imports Redis_Dict_Map
begin

text \<open>
  The cursor scan: the reversed cursor moves through the hashes in the order of their mirrored bits, a bucket of any
  table size is a segment of that order, and so a scan misses nothing. Also the choice of a table size.
\<close>

subsection \<open>The reversal of the cursor\<close>

text \<open>One halving step exchanges the bits whose positions differ in one binary digit only.\<close>

definition flip :: "nat \<Rightarrow> nat \<Rightarrow> nat" where
  "flip l j = (if odd (j div 2 ^ l) then j - 2 ^ l else j + 2 ^ l)"

lemma flip_odd: "odd (j div 2 ^ l) \<Longrightarrow> 2 ^ l \<le> (j :: nat)"
  by (cases "2 ^ l \<le> j") auto

lemma flip_0: "b < 2 \<Longrightarrow> flip 0 (2 * i + b) = 2 * i + (1 - b)"
  by (auto simp: flip_def less_2_cases_iff)

lemma flip_Suc:
  assumes "b < 2"
  shows "flip (Suc l) (2 * i + b) = 2 * flip l i + b"
proof -
  have d: "(2 * i + b) div 2 ^ Suc l = i div 2 ^ l" using assms by (simp add: div_mult2_eq)
  show ?thesis using flip_odd [of i l] unfolding flip_def d by (auto simp: algebra_simps)
qed

lemma digit: obtains i b where "(j :: nat) = 2 * i + b" "b < 2"
  using that [of "j div 2" "j mod 2"] by simp

lemma flip_less: "l < n \<Longrightarrow> j < 2 ^ n \<Longrightarrow> flip l j < 2 ^ n"
proof (induction n arbitrary: l j)
  case (Suc n)
  obtain i b where j: "j = 2 * i + b" "b < 2" by (rule digit)
  then have i: "i < 2 ^ n" using Suc.prems(2) by simp
  show ?case
  proof (cases l)
    case 0
    then show ?thesis using j i by (simp add: flip_0)
  next
    case (Suc l')
    then have "flip l' i < 2 ^ n" using Suc.IH [of l' i] Suc.prems(1) i by simp
    then show ?thesis using j Suc by (simp add: flip_Suc)
  qed
qed simp

primrec flips :: "nat \<Rightarrow> nat \<Rightarrow> nat" where
  "flips 0 j = j"
| "flips (Suc n) j = flip n (flips n j)"

lemma flips_digit:
  assumes "b < 2"
  shows "flips (Suc n) (2 * i + b) = 2 * flips n i + (1 - b)"
proof (induction n)
  case (Suc n)
  have "1 - b < 2" by simp
  from flip_Suc [OF this] show ?case unfolding flips.simps(2) [of "Suc n"] Suc.IH by simp
qed (use assms in \<open>simp add: flip_0\<close>)

lemma flips_mirror: "j < 2 ^ n \<Longrightarrow> flips n j = 2 ^ n - 1 - j"
proof (induction n arbitrary: j)
  case (Suc n)
  obtain i b where j: "j = 2 * i + b" "b < 2" by (rule digit)
  then have i: "i < 2 ^ n" using Suc.prems by simp
  have "flips (Suc n) j = 2 * (2 ^ n - 1 - i) + (1 - b)" using flips_digit [OF j(2)] j(1) Suc.IH [OF i] by simp
  also have "\<dots> = 2 ^ Suc n - 1 - j" using i j by simp
  finally show ?case .
qed simp

lemma parity_halves: "(even (q div 2) \<noteq> (1 \<le> q \<and> even ((q - 1) div 2))) = even (q :: nat)"
  by presburger

lemma mask_parity:
  "(even (j div 2 ^ Suc l) \<noteq> (2 ^ l \<le> j \<and> even ((j - 2 ^ l) div 2 ^ Suc l))) = even ((j :: nat) div 2 ^ l)"
proof -
  have a: "k div 2 ^ Suc l = (k div 2 ^ l) div 2" for k :: nat by (simp only: power_Suc2 div_mult2_eq)
  have b: "(j - 2 ^ l) div 2 ^ l = j div 2 ^ l - 1" by (cases "2 ^ l \<le> j") (simp_all add: le_div_geq not_le)
  have c: "2 ^ l \<le> j \<longleftrightarrow> 1 \<le> j div 2 ^ l" by (simp add: Suc_le_eq div_greater_zero_iff)
  show ?thesis unfolding a b c by (rule parity_halves)
qed

text \<open>The mask and the value after a step.\<close>

definition stripes :: "64 word \<Rightarrow> nat \<Rightarrow> bool" where
  "stripes msk l \<longleftrightarrow> (\<forall>j<64. bit msk j \<longleftrightarrow> even (j div 2 ^ l))"

lemma rev_step_ok:
  assumes msk: "stripes msk (Suc l)" and l: "l < 6" and v: "\<And>j. j < 64 \<Longrightarrow> bit v j \<longleftrightarrow> bit w (f j)"
    and r: "rev_step (2 ^ l) (v, msk) = (v', msk')"
  shows "stripes msk' l" and "j < 64 \<Longrightarrow> bit v' j \<longleftrightarrow> bit w (f (flip l j))"
proof -
  have r': "msk' = msk XOR push_bit (2 ^ l) msk" "v' = (drop_bit (2 ^ l) v AND msk') OR (push_bit (2 ^ l) v AND NOT msk')"
    using r by (auto simp: rev_step_def Let_def)
  have b: "bit msk' j \<longleftrightarrow> even (j div 2 ^ l)" if j: "j < 64" for j
    using msk j mask_parity [of j l] by (auto simp: r'(1) stripes_def bit_xor_iff bit_push_bit_iff)
  then show "stripes msk' l" by (simp add: stripes_def)
  assume j: "j < 64"
  have "flip l j < 64" using flip_less [of l 6 j] l j by simp
  then show "bit v' j \<longleftrightarrow> bit w (f (flip l j))"
    using b [OF j] v [of "flip l j"] flip_odd [of j l] j
    by (auto simp: r'(2) flip_def bit_or_iff bit_and_iff bit_not_iff bit_drop_bit_eq bit_push_bit_iff add.commute split: if_splits)
qed

lemma rev_loop_bits:
  "stripes msk l \<Longrightarrow> l \<le> 6 \<Longrightarrow> (\<And>j. j < 64 \<Longrightarrow> bit v j \<longleftrightarrow> bit w (f j)) \<Longrightarrow> j < 64 \<Longrightarrow>
    bit (fst (rev_loop (2 ^ l) (v, msk))) j \<longleftrightarrow> bit w (f (flips l j))"
proof (induction l arbitrary: v msk f)
  case 0
  then show ?case by (simp add: rev_loop.simps)
next
  case (Suc l)
  obtain v' msk' where r: "rev_step (2 ^ l) (v, msk) = (v', msk')" by fastforce
  have l: "l < 6" using Suc.prems(2) by simp
  note step = rev_step_ok [OF Suc.prems(1) l Suc.prems(3) r]
  have "rev_loop (2 ^ Suc l) (v, msk) = rev_loop (2 ^ l) (v', msk')" by (subst rev_loop.simps) (simp add: r)
  moreover have "bit (fst (rev_loop (2 ^ l) (v', msk'))) j \<longleftrightarrow> bit w ((\<lambda>j. f (flip l j)) (flips l j))"
    by (rule Suc.IH [OF step(1)]) (use l step(2) Suc.prems(4) in auto)
  ultimately show ?case by simp
qed

text \<open>The reversal mirrors the 64 bits, and is its own inverse.\<close>

lemma bit_dict_rev: "bit (dict_rev v) j \<longleftrightarrow> j < 64 \<and> bit v (63 - j)"
proof (cases "j < 64")
  case True
  have "stripes (NOT 0) 6" by (simp add: stripes_def bit_not_iff)
  from rev_loop_bits [OF this, of v v id j] show ?thesis
    using True flips_mirror [of j 6] by (simp add: dict_rev_def)
next
  case False
  then show ?thesis using bit_imp_le_length [of "dict_rev v" j] by auto
qed

lemma dict_rev_rev [simp]: "dict_rev (dict_rev v) = v"
  by (rule bit_word_eqI) (auto simp: bit_dict_rev)

lemma dict_rev_0 [simp]: "dict_rev 0 = 0"
  by (rule bit_word_eqI) (simp add: bit_dict_rev)

lemma dict_rev_eq_0 [simp]: "dict_rev v = 0 \<longleftrightarrow> v = 0"
  by (metis dict_rev_rev dict_rev_0)

text \<open>The position of a hash or a cursor in the order of the scan.\<close>

definition pos :: "64 word \<Rightarrow> nat" where
  "pos v = unat (dict_rev v)"

lemma pos_less: "pos v < 2 ^ 64"
  using unsigned_less [of "dict_rev v", where ?'a = nat] by (simp add: pos_def)

lemma pos_eq_0 [simp]: "pos v = 0 \<longleftrightarrow> v = 0"
  by (simp add: pos_def unat_eq_0)

lemma all_mirror: "(\<forall>n<e. P (e - 1 - n)) \<longleftrightarrow> (\<forall>n<e. P (n :: nat))"
proof (intro iffI allI impI)
  fix n assume *: "\<forall>n<e. P (e - 1 - n)" and n: "n < e"
  then have "e - 1 - (e - 1 - n) = n" "e - 1 - n < e" by simp_all
  then show "P n" using * by metis
qed simp

lemma pos_0 [simp]: "pos 0 = 0"
  by simp

lemma mask_eq_bits:
  assumes "e \<le> 60"
  shows "(h :: 64 word) AND mask e = v AND mask e \<longleftrightarrow> (\<forall>n<e. bit h n \<longleftrightarrow> bit v n)"
proof -
  have "n < e \<Longrightarrow> n < 64" for n using assms by simp
  then show ?thesis unfolding ref_eq_iff bit_and_iff bit_mask_iff possible_bit_word by (simp add: HOL.conj_commute) blast
qed

lemma bit_segment:
  assumes "e \<le> 60"
  shows "bit (drop_bit (64 - e) (dict_rev u)) n \<longleftrightarrow> n < e \<and> bit u (e - 1 - n)"
proof -
  have "64 - e + n < 64 \<longleftrightarrow> n < e" "n < e \<Longrightarrow> 63 - (64 - e + n) = e - 1 - n" using assms by arith+
  then show ?thesis unfolding bit_drop_bit_eq comp_def bit_dict_rev by metis
qed

lemma pos_segment: "drop_bit k (dict_rev h) = drop_bit k (dict_rev v) \<longleftrightarrow> pos h div 2 ^ k = pos v div 2 ^ k"
proof -
  have "unat (drop_bit k (dict_rev u)) = pos u div 2 ^ k" for u
    using pos_less [of u] unfolding pos_def unsigned_drop_bit_eq by (simp add: take_bit_nat_eq_self drop_bit_eq_div)
  then show ?thesis by (metis unsigned_word_eqI)
qed

text \<open>The hashes of one bucket are a segment of the order.\<close>

lemma bucket_segment:
  assumes "e \<le> 60"
  shows "h AND DICTHT_SIZE_MASK (int e) = v AND DICTHT_SIZE_MASK (int e) \<longleftrightarrow> pos h div 2 ^ (64 - e) = pos v div 2 ^ (64 - e)"
proof -
  have "h AND mask e = v AND mask e \<longleftrightarrow> (\<forall>n<e. bit h (e - 1 - n) \<longleftrightarrow> bit v (e - 1 - n))"
    unfolding mask_eq_bits [OF assms] by (rule all_mirror [symmetric])
  also have "\<dots> \<longleftrightarrow> drop_bit (64 - e) (dict_rev h) = drop_bit (64 - e) (dict_rev v)"
    unfolding ref_eq_iff bit_segment [OF assms] by blast
  finally show ?thesis by (simp only: DICTHT_SIZE_MASK_nat pos_segment)
qed

text \<open>The next cursor is at the end of the segment of the bucket.\<close>

lemma unat_drop: "unat (drop_bit k (x :: 64 word)) = unat x div 2 ^ k"
  using unsigned_less [of x, where ?'a = nat] unfolding unsigned_drop_bit_eq by (simp add: take_bit_nat_eq_self drop_bit_eq_div)

lemma unat_mask_64: "k \<le> 64 \<Longrightarrow> unat (mask k :: 64 word) = 2 ^ k - 1"
proof -
  assume k: "k \<le> 64"
  have "(mask k :: 64 word) = take_bit k (- 1)" by (simp add: take_bit_minus_one_eq_mask)
  then have "unat (mask k :: 64 word) = take_bit k (mask 64)"
    by (simp only: unsigned_take_bit_eq unsigned_minus_1_eq_mask) simp
  also have "\<dots> = mask k" using k by (simp only: take_bit_of_mask min_absorb1)
  finally show ?thesis by (simp add: mask_eq_exp_minus_1)
qed

lemma unat_or_mask:
  assumes "k \<le> 64"
  shows "unat ((x :: 64 word) OR mask k) = (unat x div 2 ^ k) * 2 ^ k + (2 ^ k - 1)"
proof -
  have d: "drop_bit k (x OR mask k) = drop_bit k x"
    by (rule bit_word_eqI) (auto simp: bit_drop_bit_eq bit_or_iff bit_mask_iff)
  have t: "take_bit k (x OR mask k) = mask k"
    by (rule bit_word_eqI) (auto simp: bit_take_bit_iff bit_or_iff bit_mask_iff)
  have "unat (x OR mask k) div 2 ^ k = unat x div 2 ^ k" using unat_drop [of k "x OR mask k"] unat_drop [of k x] d by metis
  moreover have "unat (x OR mask k) mod 2 ^ k = 2 ^ k - 1"
    using arg_cong [OF t, of unat] unat_mask_64 [OF assms] by (simp only: unsigned_take_bit_eq) (simp only: take_bit_eq_mod)
  ultimately show ?thesis using div_mult_mod_eq [of "unat (x OR mask k)" "2 ^ k"] by metis
qed

lemma rev_or_mask:
  assumes "e \<le> 60"
  shows "dict_rev (v OR NOT (mask e)) = dict_rev v OR mask (64 - e)"
proof (rule bit_word_eqI)
  fix n assume "n < LENGTH(64)"
  then have "63 - n < e \<longleftrightarrow> \<not> n < 64 - e" using assms by auto
  then show "bit (dict_rev (v OR NOT (mask e))) n \<longleftrightarrow> bit (dict_rev v OR mask (64 - e)) n"
    using \<open>n < LENGTH(64)\<close> by (auto simp: bit_dict_rev bit_or_iff bit_not_iff bit_mask_iff)
qed

definition seg_end :: "nat \<Rightarrow> nat \<Rightarrow> nat" where
  "seg_end e p = (p div 2 ^ (64 - e) + 1) * 2 ^ (64 - e)"

lemma pos_next_cursor:
  assumes "e \<le> 60"
  shows "pos (next_cursor v (DICTHT_SIZE_MASK (int e))) = seg_end e (pos v) mod 2 ^ 64"
proof -
  have "unat (dict_rev v OR mask (64 - e)) + 1 = seg_end e (pos v)"
    using unat_or_mask [of "64 - e" "dict_rev v"] by (simp add: seg_end_def pos_def add_mult_distrib)
  then show ?thesis
    using rev_or_mask [OF assms, of v] by (simp add: next_cursor_def DICTHT_SIZE_MASK_nat pos_def unat_word_ariths)
qed

lemma seg_end_bounds:
  assumes "e \<le> 60" and "p < 2 ^ 64"
  shows "p < seg_end e p" and "seg_end e p \<le> 2 ^ 64"
proof -
  show "p < seg_end e p" unfolding seg_end_def
    by (metis Suc_eq_plus1 dividend_less_div_times zero_less_numeral zero_less_power add_mult_distrib mult_1 add.commute)
  have "(2 :: nat) ^ 64 = 2 ^ e * 2 ^ (64 - e)" using assms(1) by (simp flip: power_add)
  then have "p div 2 ^ (64 - e) < 2 ^ e" using assms(2) by (simp add: less_mult_imp_div_less)
  then have "(p div 2 ^ (64 - e) + 1) * 2 ^ (64 - e) \<le> 2 ^ e * 2 ^ (64 - e)" by (intro mult_le_mono1) simp
  then show "seg_end e p \<le> 2 ^ 64" using \<open>2 ^ 64 = 2 ^ e * 2 ^ (64 - e)\<close> by (simp add: seg_end_def)
qed

subsection \<open>One step of the scan\<close>

lemma emit_chain_ok:
  "chain_ok c \<Longrightarrow> (\<And>r. r \<in> set c \<Longrightarrow> ref_ok (dtype s) (store s) r) \<Longrightarrow> emit_chain s c = Some c"
proof (induction c)
  case (Cons r c)
  have "dictGetNext s (r # c) = Some c" by (rule dictGetNext_ok [OF Cons.prems(1)]) (simp add: Cons.prems(2))
  moreover have "emit_chain s c = Some c" by (rule Cons.IH) (use Cons.prems in \<open>auto simp: chain_ok_Cons\<close>)
  ultimately show ?case by (simp add: emit_chain.simps)
qed simp

lemma scan_bucket_ok:
  assumes "dict_inv X s" and "t = 0 \<or> t = 1" and "i < length (tab s t)"
  shows "scan_bucket None s t i = Some (s, tab s t ! i)"
  using emit_chain_ok [of "tab s t ! i" s] bucket_chain [OF assms] bucket_tab [OF assms(3)] by (simp add: scan_bucket_def)

text \<open>The position of an entry.\<close>

definition hpos :: "dstate \<Rightarrow> ref \<Rightarrow> nat" where
  "hpos s r = pos (dictHashKey s (key_of s r))"

text \<open>The bucket at the cursor has the entries of its segment.\<close>

lemma cursor_bucket:
  assumes inv: "dict_inv X s" and t: "ht_table s t \<noteq> None" "t = 0 \<or> t = 1" and e: "ht_size_exp s t = int e" "e \<le> 60"
  shows "unat (v AND DICTHT_SIZE_MASK (int e)) < length (tab s t)"
    and "r \<in> set (concat (tab s t)) \<Longrightarrow> hpos s r div 2 ^ (64 - e) = pos v div 2 ^ (64 - e) \<Longrightarrow>
      r \<in> set (tab s t ! unat (v AND DICTHT_SIZE_MASK (int e)))"
proof -
  note less = hash_index_less [OF inv t]
  show "unat (v AND DICTHT_SIZE_MASK (int e)) < length (tab s t)" using less(1) [of v] e by (simp add: hash_index_def)
  assume r: "r \<in> set (concat (tab s t))" and p: "hpos s r div 2 ^ (64 - e) = pos v div 2 ^ (64 - e)"
  have "dictHashKey s (key_of s r) AND DICTHT_SIZE_MASK (int e) = v AND DICTHT_SIZE_MASK (int e)"
    using p unfolding bucket_segment [OF e(2)] hpos_def .
  then show "r \<in> set (tab s t ! unat (v AND DICTHT_SIZE_MASK (int e)))" using less(2) [OF r refl] e by (simp add: hash_index_def)
qed

lemma same_segment: "p \<le> q \<Longrightarrow> q < seg_end e p \<Longrightarrow> q div 2 ^ (64 - e) = p div 2 ^ (64 - e)"
  unfolding seg_end_def
  by (metis Suc_eq_plus1 add.commute div_le_mono div_less_iff_less_mult le_antisym less_Suc_eq_le zero_less_numeral zero_less_power)

lemma seg_end_cong: "p div 2 ^ (64 - e) = q div 2 ^ (64 - e) \<Longrightarrow> seg_end e p = seg_end e q"
  by (simp add: seg_end_def)

lemma pos_mod_0:
  assumes "e \<le> 64"
  shows "pos w mod 2 ^ (64 - e) = 0 \<longleftrightarrow> (\<forall>n. e \<le> n \<longrightarrow> \<not> bit w n)"
proof -
  have "pos w mod 2 ^ (64 - e) = unat (take_bit (64 - e) (dict_rev w))"
    by (simp only: pos_def unsigned_take_bit_eq) (simp only: take_bit_eq_mod)
  then have "pos w mod 2 ^ (64 - e) = 0 \<longleftrightarrow> take_bit (64 - e) (dict_rev w) = 0" by (simp only: unsigned_eq_0_iff)
  also have "\<dots> \<longleftrightarrow> (\<forall>n < 64 - e. \<not> bit w (63 - n))"
    unfolding ref_eq_iff by (auto simp: bit_take_bit_iff bit_dict_rev)
  also have "\<dots> \<longleftrightarrow> (\<forall>n. e \<le> n \<longrightarrow> \<not> bit w n)"
  proof (intro iffI allI impI)
    fix n assume *: "\<forall>n < 64 - e. \<not> bit w (63 - n)" and n: "e \<le> n"
    show "\<not> bit w n"
    proof (cases "n < 64")
      case True
      then have "63 - n < 64 - e" "63 - (63 - n) = n" using n by arith+
      then show ?thesis using * by metis
    next
      case False
      then show ?thesis using bit_imp_le_length [of w n] by auto
    qed
  qed (use assms in auto)
  finally show ?thesis .
qed

text \<open>The loop over the larger table goes on inside the segment of the smaller one.\<close>

lemma more_expansions:
  assumes "e0 \<le> e1" and "e1 \<le> 60" and "pos w mod 2 ^ (64 - e1) = 0"
  shows "w AND (DICTHT_SIZE_MASK (int e0) XOR DICTHT_SIZE_MASK (int e1)) = 0 \<longleftrightarrow> pos w mod 2 ^ (64 - e0) = 0"
proof -
  have e: "e0 \<le> 64" "e1 \<le> 64" using assms by simp_all
  have hi: "\<not> bit w n" if "e1 \<le> n" for n using assms(3) that unfolding pos_mod_0 [OF e(2)] by blast
  have "w AND (mask e0 XOR mask e1) = 0 \<longleftrightarrow> (\<forall>n. e0 \<le> n \<longrightarrow> \<not> bit w n)"
  proof (intro iffI allI impI notI)
    fix n assume *: "w AND (mask e0 XOR mask e1) = 0" and n: "e0 \<le> n" "bit w n"
    have "n < e1" using hi [of n] n(2) not_le by blast
    then have "bit (w AND (mask e0 XOR mask e1)) n"
      using n assms(2) unfolding bit_and_iff bit_xor_iff bit_mask_iff possible_bit_word by simp
    then show False using * by simp
  next
    assume *: "\<forall>n. e0 \<le> n \<longrightarrow> \<not> bit w n"
    show "w AND (mask e0 XOR mask e1) = 0"
      by (rule bit_word_eqI) (use * assms(1) in \<open>auto simp: bit_and_iff bit_xor_iff bit_mask_iff not_le\<close>)
  qed
  then show ?thesis unfolding pos_mod_0 [OF e(1)] DICTHT_SIZE_MASK_nat .
qed

lemma seg_ends:
  assumes e: "e0 \<le> e1" "e1 \<le> 60" and p: "p < 2 ^ 64"
  shows "seg_end e1 p \<le> seg_end e0 p" and "seg_end e1 p mod 2 ^ (64 - e1) = 0" and "seg_end e0 p mod 2 ^ (64 - e0) = 0"
    and "seg_end e1 p < seg_end e0 p \<Longrightarrow> seg_end e1 p mod 2 ^ (64 - e0) \<noteq> 0 \<and> seg_end e0 (seg_end e1 p) = seg_end e0 p"
proof -
  have k: "(2 :: nat) ^ (64 - e0) = 2 ^ (64 - e1) * 2 ^ (e1 - e0)" using e by (simp flip: power_add)
  show m1: "seg_end e1 p mod 2 ^ (64 - e1) = 0" and m0: "seg_end e0 p mod 2 ^ (64 - e0) = 0" by (simp_all add: seg_end_def)
  have "p < seg_end e0 p" using seg_end_bounds(1) [of e0 p] e p by simp
  moreover have "seg_end e0 p = (p div 2 ^ (64 - e0) + 1) * 2 ^ (e1 - e0) * 2 ^ (64 - e1)"
    unfolding seg_end_def k by (simp only: mult.assoc mult.commute [of "2 ^ (64 - e1)"])
  ultimately have "p div 2 ^ (64 - e1) < (p div 2 ^ (64 - e0) + 1) * 2 ^ (e1 - e0)" by (metis less_mult_imp_div_less)
  then have "(p div 2 ^ (64 - e1) + 1) * 2 ^ (64 - e1) \<le> (p div 2 ^ (64 - e0) + 1) * 2 ^ (e1 - e0) * 2 ^ (64 - e1)"
    by (intro mult_le_mono1) simp
  then show "seg_end e1 p \<le> seg_end e0 p"
    unfolding seg_end_def k by (simp only: mult.assoc mult.commute [of "2 ^ (64 - e1)"])
  assume less: "seg_end e1 p < seg_end e0 p"
  have q: "p < seg_end e1 p" using seg_end_bounds(1) [of e1 p] e p by simp
  have s: "seg_end e1 p div 2 ^ (64 - e0) = p div 2 ^ (64 - e0)" using same_segment [OF less_imp_le [OF q] less] .
  have "seg_end e1 p mod 2 ^ (64 - e0) \<noteq> 0"
  proof
    assume "seg_end e1 p mod 2 ^ (64 - e0) = 0"
    then have "seg_end e1 p = p div 2 ^ (64 - e0) * 2 ^ (64 - e0)" using s div_mult_mod_eq [of "seg_end e1 p" "2 ^ (64 - e0)"] by simp
    then have "seg_end e1 p \<le> p" by simp
    then show False using q by simp
  qed
  then show "seg_end e1 p mod 2 ^ (64 - e0) \<noteq> 0 \<and> seg_end e0 (seg_end e1 p) = seg_end e0 p" using seg_end_cong [OF s] by simp
qed

lemma mod_2_64: "e \<le> 60 \<Longrightarrow> (n :: nat) mod 2 ^ 64 mod 2 ^ (64 - e) = n mod 2 ^ (64 - e)"
  by (rule mod_mod_cancel, rule le_imp_power_dvd) simp

lemma scan_big_ok:
  assumes inv: "dict_inv X s" and t: "ht_table s t \<noteq> None" "t = 0 \<or> t = 1" and e: "ht_size_exp s t = int e1" "e0 \<le> e1" "e1 \<le> 60"
  shows "\<exists>w out'. scan_big None s t (DICTHT_SIZE_MASK (int e0)) (DICTHT_SIZE_MASK (int e1)) v out = Some (s, w, out @ out') \<and>
    pos w = seg_end e0 (pos v) mod 2 ^ 64 \<and> set out' \<subseteq> set (concat (tab s t)) \<and>
    (\<forall>r \<in> set (concat (tab s t)). pos v \<le> hpos s r \<and> hpos s r < seg_end e0 (pos v) \<longrightarrow> r \<in> set out')"
proof (induction "seg_end e0 (pos v) - pos v" arbitrary: v out rule: less_induct)
  case less
  let ?m0 = "DICTHT_SIZE_MASK (int e0)" and ?m1 = "DICTHT_SIZE_MASK (int e1)" and ?E0 = "seg_end e0 (pos v)" and ?E1 = "seg_end e1 (pos v)"
  let ?c = "tab s t ! unat (v AND ?m1)" and ?w = "next_cursor v ?m1"
  note cb = cursor_bucket [OF inv t e(1,3), where v = v]
  have b: "scan_bucket None s t (unat (v AND ?m1)) = Some (s, ?c)" by (rule scan_bucket_ok [OF inv t(2) cb(1)])
  have sub: "set ?c \<subseteq> set (concat (tab s t))" using in_concat [OF cb(1)] by blast
  have here: "r \<in> set ?c" if "r \<in> set (concat (tab s t))" "pos v \<le> hpos s r" "hpos s r < ?E1" for r
    by (rule cb(2) [OF that(1)]) (rule same_segment [OF that(2,3)])
  note ends = seg_ends [OF e(2,3) pos_less [of v]] and nx = pos_next_cursor [OF e(3), of v]
  have m1: "pos ?w mod 2 ^ (64 - e1) = 0" using nx ends(2) mod_2_64 [OF e(3)] by simp
  have more: "?w AND (?m0 XOR ?m1) = 0 \<longleftrightarrow> ?E1 mod 2 ^ (64 - e0) = 0"
    unfolding more_expansions [OF e(2,3) m1] nx using mod_2_64 [of e0 ?E1] e(2,3) by simp
  note loop = scan_big.simps [of None s t ?m0 ?m1 v out, unfolded b Option.bind.bind_lunit prod.case Let_def]
  have b1: "pos v < ?E1" and b0: "?E0 \<le> 2 ^ 64" using seg_end_bounds [OF _ pos_less [of v]] e(2,3) by simp_all
  show ?case
  proof (cases "?E1 = ?E0")
    case True
    then have "scan_big None s t ?m0 ?m1 v out = Some (s, ?w, out @ ?c)" using loop more ends(3) by simp
    then show ?thesis using here nx True sub by (intro exI [of _ ?w] exI [of _ ?c]) simp
  next
    case False
    then have lt: "?E1 < ?E0" using ends(1) by simp
    have pw: "pos ?w = ?E1" using nx lt b0 by simp
    have "?w AND (?m0 XOR ?m1) \<noteq> 0" using more ends(4) [OF lt] by simp
    then have go: "scan_big None s t ?m0 ?m1 v out = scan_big None s t ?m0 ?m1 ?w (out @ ?c)" using loop by simp
    have E: "seg_end e0 ?E1 = ?E0" using ends(4) [OF lt] by simp
    have dec: "seg_end e0 (pos ?w) - pos ?w < ?E0 - pos v" unfolding pw E using b1 lt by simp
    obtain w out' where w: "scan_big None s t ?m0 ?m1 ?w (out @ ?c) = Some (s, w, (out @ ?c) @ out')" "pos w = ?E0 mod 2 ^ 64"
      "set out' \<subseteq> set (concat (tab s t))"
      "\<And>r. r \<in> set (concat (tab s t)) \<Longrightarrow> ?E1 \<le> hpos s r \<Longrightarrow> hpos s r < ?E0 \<Longrightarrow> r \<in> set out'"
      using less.hyps [OF dec, of "out @ ?c"] unfolding pw E by blast
    have "r \<in> set (?c @ out')" if "r \<in> set (concat (tab s t))" "pos v \<le> hpos s r" "hpos s r < ?E0" for r
      using here [OF that(1,2)] w(4) [OF that(1) _ that(3)] by (cases "hpos s r < ?E1") auto
    then show ?thesis using go w(1-3) sub by (intro exI [of _ w] exI [of _ "?c @ out'"]) auto
  qed
qed

lemma DICTHT_SIZE_less: "e0 \<le> 60 \<Longrightarrow> e1 \<le> 60 \<Longrightarrow> DICTHT_SIZE (int e0) < DICTHT_SIZE (int e1) \<longleftrightarrow> e0 < e1"
  by (simp add: word_less_nat_alt unat_DICTHT_SIZE)

definition scanned :: "dstate \<Rightarrow> 64 word \<Rightarrow> 64 word \<Rightarrow> ref list \<Rightarrow> bool" where
  "scanned s v w out \<longleftrightarrow> (\<exists>E. pos v < E \<and> E \<le> 2 ^ 64 \<and> pos w = E mod 2 ^ 64 \<and> set out \<subseteq> set (refs s) \<and>
    (\<forall>r \<in> set (refs s). pos v \<le> hpos s r \<and> hpos s r < E \<longrightarrow> r \<in> set out) \<and>
    (\<forall>e. e \<le> 60 \<and> ht_size_exp s 0 \<le> int e \<longrightarrow> E mod 2 ^ (64 - e) = 0))"

lemma seg_end_mod: "e \<le> f \<Longrightarrow> seg_end e p mod 2 ^ (64 - f) = 0"
  unfolding seg_end_def by (simp only: mod_mult_right_eq [symmetric, of _ "2 ^ (64 - e)"] mod_eq_0_iff_dvd) (simp add: dvd_mult le_imp_power_dvd)

text \<open>One table.\<close>

lemma scan_single:
  assumes inv: "dict_inv X s" and t: "ht_table s 0 \<noteq> None" and re: "\<not> dictIsRehashing s"
  shows "\<exists>out. scan_bucket None s 0 (unat (v AND DICTHT_SIZE_MASK (ht_size_exp s 0))) = Some (s, out) \<and>
    scanned s v (next_cursor v (DICTHT_SIZE_MASK (ht_size_exp s 0))) out"
proof -
  have "tab_inv s 0" using inv by (simp add: dict_inv_def)
  then obtain e where e: "e \<le> 60" "ht_size_exp s 0 = int e" using t by (elim tab_invE)
  let ?c = "tab s 0 ! unat (v AND DICTHT_SIZE_MASK (int e))"
  note cb = cursor_bucket [OF inv t _ e(2,1), where v = v]
  have b: "scan_bucket None s 0 (unat (v AND DICTHT_SIZE_MASK (int e))) = Some (s, ?c)" using scan_bucket_ok [OF inv _ cb(1)] by simp
  have "tab s 1 = []" using inv re by (simp add: tab_None dict_inv_def rehash_inv_def dictIsRehashing_def)
  then have rs: "refs s = concat (tab s 0)" by (simp add: refs_def)
  have "set ?c \<subseteq> set (refs s)" unfolding rs using in_concat [OF cb(1)] by blast
  moreover have "r \<in> set ?c" if "r \<in> set (refs s)" "pos v \<le> hpos s r" "hpos s r < seg_end e (pos v)" for r
    using cb(2) [of r] same_segment [OF that(2,3)] that(1) unfolding rs by simp
  ultimately have "scanned s v (next_cursor v (DICTHT_SIZE_MASK (int e))) ?c"
    unfolding scanned_def e(2) using seg_end_bounds [OF e(1) pos_less [of v]] pos_next_cursor [OF e(1), of v] seg_end_mod [of e]
    by (intro exI [of _ "seg_end e (pos v)"]) simp
  then show ?thesis using b e(2) by simp
qed

text \<open>Two tables, \<open>a\<close> the smaller one.\<close>

lemma scan_both:
  assumes inv: "dict_inv X s" and re: "dictIsRehashing s" and ab: "(a, b) = (0, 1) \<or> (a, b) = (1, 0)"
    and e: "ht_size_exp s a = int e0" "ht_size_exp s b = int e1" "e0 \<le> e1" "e1 \<le> 60"
  shows "\<exists>w out1 out. scan_bucket None s a (unat (v AND DICTHT_SIZE_MASK (int e0))) = Some (s, out1) \<and>
    scan_big None s b (DICTHT_SIZE_MASK (int e0)) (DICTHT_SIZE_MASK (int e1)) v out1 = Some (s, w, out) \<and> scanned s v w out"
proof -
  have t: "ht_table s a \<noteq> None" "a = 0 \<or> a = 1" "ht_table s b \<noteq> None" "b = 0 \<or> b = 1"
    using rehashing_tables(1,2) [OF inv re] ab by auto
  have e0: "e0 \<le> 60" using e by simp
  let ?c = "tab s a ! unat (v AND DICTHT_SIZE_MASK (int e0))" and ?E = "seg_end e0 (pos v)"
  note cb = cursor_bucket [OF inv t(1,2) e(1) e0, where v = v]
  have b: "scan_bucket None s a (unat (v AND DICTHT_SIZE_MASK (int e0))) = Some (s, ?c)" by (rule scan_bucket_ok [OF inv t(2) cb(1)])
  obtain w out' where w: "scan_big None s b (DICTHT_SIZE_MASK (int e0)) (DICTHT_SIZE_MASK (int e1)) v ?c = Some (s, w, ?c @ out')"
      "pos w = ?E mod 2 ^ 64" "set out' \<subseteq> set (concat (tab s b))"
      "\<And>r. r \<in> set (concat (tab s b)) \<Longrightarrow> pos v \<le> hpos s r \<Longrightarrow> hpos s r < ?E \<Longrightarrow> r \<in> set out'"
    using scan_big_ok [OF inv t(3,4) e(2-4), of v ?c] by blast
  have rs: "set (refs s) = set (concat (tab s a)) \<union> set (concat (tab s b))" using ab unfolding refs_def by auto
  have "set (?c @ out') \<subseteq> set (refs s)" unfolding rs using in_concat [OF cb(1)] w(3) by auto
  moreover have "r \<in> set (?c @ out')" if "r \<in> set (refs s)" "pos v \<le> hpos s r" "hpos s r < ?E" for r
    using that(1) cb(2) [of r] same_segment [OF that(2,3)] w(4) [of r] that(2,3) unfolding rs by auto
  ultimately have "scanned s v w (?c @ out')"
    unfolding scanned_def using seg_end_bounds [OF e0 pos_less [of v]] w(2) seg_end_mod [of e0] ab e
    by (intro exI [of _ ?E]) auto
  then show ?thesis using b w(1) by blast
qed

lemma dictScan_ok:
  assumes inv: "dict_inv X s" and sm: "small X s"
  shows "\<exists>w out. dictScan s v = Some (s, w, out) \<and> scanned s v w out"
proof (cases "dictSize s = 0")
  case True
  then have "refs s = []" using dictSize_zero(1) [OF inv sm] by (simp add: ents_def)
  then have "scanned s v 0 []" unfolding scanned_def using pos_less [of v] mod_2_64 [of _ "2 ^ 64"] by (intro exI [of _ "2 ^ 64"]) simp
  then show ?thesis using True by (simp add: dictScan_def dictScanDefrag_def)
next
  case False
  let ?p = "dictPauseRehashing s"
  have resume: "dictResumeRehashing ?p = s" by (simp add: dictPauseRehashing_def dictResumeRehashing_def)
  have inv': "dict_inv X ?p" and refs: "refs ?p = refs s" and re': "dictIsRehashing ?p = dictIsRehashing s"
    and f: "ht_table ?p = ht_table s" "ht_size_exp ?p = ht_size_exp s" "dtype ?p = dtype s" "store ?p = store s"
    using inv same_dict [of ?p s] by (simp_all add: dictPauseRehashing_def dictIsRehashing_def)
  have sc: "scanned ?p v w out = scanned s v w out" for w out
    by (simp add: scanned_def refs hpos_def dictHashKey_def f)
  have t0: "ht_table s 0 \<noteq> None" using dictSize_zero(2) [OF inv sm] False by simp
  note eq = dictScan_def dictScanDefrag_def [of None s v, unfolded Let_def [of ?p]]
  show ?thesis
  proof (cases "dictIsRehashing s")
    case nre: False
    obtain out where "scan_bucket None ?p 0 (unat (v AND DICTHT_SIZE_MASK (ht_size_exp s 0))) = Some (?p, out)"
        "scanned s v (next_cursor v (DICTHT_SIZE_MASK (ht_size_exp s 0))) out"
      using scan_single [OF inv', of v] t0 nre re' f sc by auto
    then show ?thesis using False nre re' f resume by (simp add: eq)
  next
    case re: True
    note tabs = rehashing_tables(1,2) [OF inv re]
    obtain e0 where e0: "e0 \<le> 60" "ht_size_exp s 0 = int e0" using inv tabs(1) by (auto simp: dict_inv_def elim: tab_invE)
    obtain e1 where e1: "e1 \<le> 60" "ht_size_exp s 1 = int e1" using inv tabs(2) by (auto simp: dict_inv_def elim: tab_invE)
    have ge: "DICTHT_SIZE (ht_size_exp s 1) < DICTHT_SIZE (ht_size_exp s 0) \<longleftrightarrow> e1 < e0"
      using e0 e1 DICTHT_SIZE_less by simp
    show ?thesis
    proof (cases "e1 < e0")
      case True
      then show ?thesis
        using scan_both [OF inv', of 1 0 e1 e0 v] e0 e1 re re' f sc ge False resume by (auto simp: eq)
    next
      case le: False
      then show ?thesis
        using scan_both [OF inv', of 0 1 e0 e1 v] e0 e1 re re' f sc ge False resume by (auto simp: eq)
    qed
  qed
qed

subsection \<open>The whole scan\<close>

text \<open>
  The calls of a scan, each on the state the dictionary has by then; the caller stops when the cursor is zero. The
  flag says that it came to that.
\<close>

primrec scan_calls :: "dstate list \<Rightarrow> 64 word \<Rightarrow> (bool \<times> ref list list) option" where
  "scan_calls [] v = Some (False, [])"
| "scan_calls (s # ss) v = do {
     (s', w, out) \<leftarrow> dictScan s v;
     if w = 0 then Some (True, [out])
     else do {
       (fin, outs) \<leftarrow> scan_calls ss w;
       Some (fin, out # outs)
     }
   }"

definition returned :: "dstate list \<Rightarrow> ref list list \<Rightarrow> ref \<Rightarrow> bool" where
  "returned ss outs k \<longleftrightarrow> (\<exists>(s, out) \<in> set (zip ss outs). \<exists>r \<in> set out. key_of s r = k)"

lemma returned_Cons: "returned (s # ss) (out # outs) k \<longleftrightarrow> (\<exists>r \<in> set out. key_of s r = k) \<or> returned ss outs k"
  by (simp add: returned_def)

lemma dvd_less_add: "(K :: nat) dvd a \<Longrightarrow> K dvd b \<Longrightarrow> a < b \<Longrightarrow> a + K \<le> b"
  by (metis dvd_diff_nat dvd_imp_le less_diff_conv le_diff_conv2 less_imp_le_nat zero_less_diff add.commute)

lemma scanned_keys:
  assumes "scanned s v w out" and "dtype s = ty" and "e \<le> 60"
  obtains E where "pos v < E" "E \<le> 2 ^ 64" "pos w = E mod 2 ^ 64" "ht_size_exp s 0 \<le> int e \<Longrightarrow> E mod 2 ^ (64 - e) = 0"
    "\<And>k. k \<in> fst ` set_mset (ents s) \<Longrightarrow> pos v \<le> pos (hashFunction ty k) \<Longrightarrow> pos (hashFunction ty k) < E \<Longrightarrow>
      \<exists>r \<in> set out. key_of s r = k"
proof -
  obtain E where E: "pos v < E" "E \<le> 2 ^ 64" "pos w = E mod 2 ^ 64" "ht_size_exp s 0 \<le> int e \<Longrightarrow> E mod 2 ^ (64 - e) = 0"
    "\<And>r. r \<in> set (refs s) \<Longrightarrow> pos v \<le> hpos s r \<Longrightarrow> hpos s r < E \<Longrightarrow> r \<in> set out"
    using assms unfolding scanned_def by blast
  have key: "\<exists>r \<in> set out. key_of s r = k"
    if k: "k \<in> fst ` set_mset (ents s)" and "pos v \<le> pos (hashFunction ty k)" "pos (hashFunction ty k) < E" for k
  proof -
    obtain kv where kv: "kv \<in># ents s" "k = fst kv" using k by blast
    obtain r where r: "r \<in> set (refs s)" "key_of s r = k" using refs_ents [OF kv(1)] kv(2) by blast
    then have "hpos s r = pos (hashFunction ty k)" by (simp add: hpos_def dictHashKey_def assms(2))
    then show ?thesis using E(5) [OF r(1)] that r(2) by auto
  qed
  show thesis by (rule that [OF E(1-4) key])
qed

lemma scan_calls_ok:
  assumes "e \<le> 60"
  shows "\<forall>s \<in> set ss. (\<exists>X. dict_inv X s \<and> small X s) \<and> dtype s = ty \<Longrightarrow>
    \<exists>fin outs. scan_calls ss v = Some (fin, outs) \<and>
      (\<forall>k. fin \<and> (\<forall>s \<in> set ss. k \<in> fst ` set_mset (ents s)) \<and> pos v \<le> pos (hashFunction ty k) \<longrightarrow> returned ss outs k) \<and>
      ((\<forall>s \<in> set ss. ht_size_exp s 0 \<le> int e) \<and> 2 ^ (64 - e) dvd pos v \<and> 2 ^ 64 \<le> pos v + 2 ^ (64 - e) * length ss \<longrightarrow> fin)"
proof (induction ss arbitrary: v)
  case Nil
  then show ?case using pos_less [of v] by (intro exI [of _ False]) simp
next
  case (Cons s ss)
  obtain X where s: "dict_inv X s" "small X s" "dtype s = ty" using Cons.prems by auto
  obtain w out where sc: "dictScan s v = Some (s, w, out)" "scanned s v w out" using dictScan_ok [OF s(1,2)] by blast
  obtain E where E: "pos v < E" "E \<le> 2 ^ 64" "pos w = E mod 2 ^ 64"
    "ht_size_exp s 0 \<le> int e \<Longrightarrow> E mod 2 ^ (64 - e) = 0"
    and here: "\<And>k. k \<in> fst ` set_mset (ents s) \<Longrightarrow> pos v \<le> pos (hashFunction ty k) \<Longrightarrow> pos (hashFunction ty k) < E \<Longrightarrow>
      \<exists>r \<in> set out. key_of s r = k"
    by (rule scanned_keys [OF sc(2) s(3) assms]) (rule that, assumption+)
  show ?case
  proof (cases "w = 0")
    case True
    then have "E = 2 ^ 64" using E(1-3) by (cases "E = 2 ^ 64") auto
    then show ?thesis using sc(1) True here pos_less
      by (intro exI [of _ True] exI [of _ "[out]"]) (simp add: returned_Cons)
  next
    case False
    then have pw: "pos w = E" using E(2,3) pos_eq_0 [of w] by (cases "E = 2 ^ 64") simp_all
    have prems: "\<forall>s \<in> set ss. (\<exists>X. dict_inv X s \<and> small X s) \<and> dtype s = ty" using Cons.prems by simp
    obtain fin outs where IH: "scan_calls ss w = Some (fin, outs)"
      "\<And>k. fin \<Longrightarrow> \<forall>s \<in> set ss. k \<in> fst ` set_mset (ents s) \<Longrightarrow> pos w \<le> pos (hashFunction ty k) \<Longrightarrow> returned ss outs k"
      "(\<forall>s \<in> set ss. ht_size_exp s 0 \<le> int e) \<and> 2 ^ (64 - e) dvd pos w \<and> 2 ^ 64 \<le> pos w + 2 ^ (64 - e) * length ss \<longrightarrow> fin"
      using Cons.IH [OF prems, of w] by blast
    have "returned (s # ss) (out # outs) k"
      if "fin" "\<forall>s \<in> set (s # ss). k \<in> fst ` set_mset (ents s)" "pos v \<le> pos (hashFunction ty k)" for k
      using here [of k] IH(2) [of k] that pw by (cases "pos (hashFunction ty k) < E") (auto simp: returned_Cons)
    moreover have "fin" if "\<forall>s \<in> set (s # ss). ht_size_exp s 0 \<le> int e" "2 ^ (64 - e) dvd pos v"
        "2 ^ 64 \<le> pos v + 2 ^ (64 - e) * length (s # ss)"
    proof -
      have "2 ^ (64 - e) dvd E" using E(4) that(1) by auto
      then show ?thesis using dvd_less_add [OF that(2) _ E(1)] IH(3) that pw by simp
    qed
    ultimately show ?thesis using sc(1) False IH(1) by (intro exI [of _ fin] exI [of _ "out # outs"]) auto
  qed
qed

text \<open>C4. A full scan returns every key that is there from its first to its last call, however the dictionary is
  changed between the calls: also when other keys are added and deleted, the tables grow and shrink and a rehash is under way. No call
  goes wrong, and when the tables stay within \<^verbatim>\<open>2^e\<close> buckets, the cursor is back at zero after at most that many calls.
\<close>

theorem dictScan_returns_all:
  assumes "\<forall>s \<in> set ss. (\<exists>X. dict_inv X s \<and> small X s) \<and> dtype s = ty" and "e \<le> 60"
  shows "\<exists>fin outs. scan_calls ss 0 = Some (fin, outs) \<and>
    (\<forall>k. fin \<and> (\<forall>s \<in> set ss. k \<in> fst ` set_mset (ents s)) \<longrightarrow> returned ss outs k) \<and>
    ((\<forall>s \<in> set ss. ht_size_exp s 0 \<le> int e) \<and> 2 ^ e \<le> length ss \<longrightarrow> fin)"
proof -
  have p: "pos 0 = 0" by simp
  obtain fin outs where ok: "scan_calls ss 0 = Some (fin, outs)"
    "\<forall>k. fin \<and> (\<forall>s \<in> set ss. k \<in> fst ` set_mset (ents s)) \<and> pos 0 \<le> pos (hashFunction ty k) \<longrightarrow> returned ss outs k"
    "(\<forall>s \<in> set ss. ht_size_exp s 0 \<le> int e) \<and> 2 ^ (64 - e) dvd pos 0 \<and> 2 ^ 64 \<le> pos 0 + 2 ^ (64 - e) * length ss \<longrightarrow> fin"
    using scan_calls_ok [OF assms(2,1), of 0] by blast
  have "2 ^ 64 \<le> 2 ^ (64 - e) * length ss" if "2 ^ e \<le> length ss"
  proof -
    have "(2 :: nat) ^ 64 = 2 ^ (64 - e) * 2 ^ e" using assms(2) by (simp flip: power_add)
    then show ?thesis using mult_le_mono2 [OF that, of "2 ^ (64 - e)"] by simp
  qed
  then show ?thesis using ok unfolding p by (intro exI [of _ fin] exI [of _ outs]) simp
qed

theorem dictScan_returns_all_witness:
  "\<exists>outs. scan_calls (replicate 4 moving_dict) 0 = Some (True, outs) \<and> returned (replicate 4 moving_dict) outs 80"
proof -
  have "dtype moving_dict = demo_type" "ht_size_exp moving_dict 0 = 2" by (simp_all add: moving_dict_def demo_dict_def)
  moreover have "80 \<in> fst ` set_mset (ents moving_dict)"
    by (simp add: ents_def refs_def tab_def moving_dict_def ent_def entryIsKey_def addr_def ENTRY_PTR_MASK_def)
  ultimately show ?thesis
    using dictScan_returns_all [of "replicate 4 moving_dict" demo_type 2] moving_dict_inv by fastforce
qed

subsection \<open>Table sizes\<close>

text \<open>C30. The exponent for a requested size is that of the least power of two, from the four buckets of the smallest table on, that is at
  least the size; for sizes above \<open>2 ^ 63\<close>, which no table can have, the exponent is 63. The search always ends.
\<close>

theorem dictNextExp_least_power:
  "\<exists>e. dictNextExp sz = Some e \<and> 2 \<le> e \<and> e \<le> 63 \<and> (unat sz \<le> 2 ^ 63 \<longrightarrow> unat sz \<le> 2 ^ e) \<and>
    (2 ^ 63 < unat sz \<longrightarrow> e = 63) \<and> (\<forall>f. 2 \<le> f \<and> unat sz \<le> 2 ^ f \<longrightarrow> e \<le> f)"
proof (cases "unat sz < 2 ^ 63 - 1")
  case True
  then obtain e where e: "dictNextExp sz = Some e" "2 \<le> e" "e \<le> 63" "unat sz \<le> 2 ^ e" "e = 2 \<or> 2 ^ (e - 1) < unat sz"
    using dictNextExp_least by blast
  have "e \<le> f" if "2 \<le> f" "unat sz \<le> 2 ^ f" for f
  proof (rule ccontr)
    assume "\<not> e \<le> f"
    then have "(2 :: nat) ^ f \<le> 2 ^ (e - 1)" by (intro power_increasing) simp_all
    moreover have "2 ^ (e - 1) < unat sz" using e(5) that(1) \<open>\<not> e \<le> f\<close> by linarith
    ultimately show False using that(2) by linarith
  qed
  moreover have "\<not> 2 ^ 63 < unat sz" using True by simp
  ultimately show ?thesis using e by blast
next
  case False
  then have "LONG_MAX \<le> sz" by (simp add: LONG_MAX_def word_le_nat_alt)
  then have "dictNextExp sz = Some 63" by (simp add: dictNextExp_def)
  moreover have "63 \<le> f" if "unat sz \<le> 2 ^ f" for f
  proof (rule ccontr)
    assume "\<not> 63 \<le> f"
    then have "(2 :: nat) ^ f \<le> 2 ^ 62" by (intro power_increasing) simp_all
    moreover have "(2 :: nat) ^ 62 < 2 ^ 63 - 1" by simp
    ultimately show False using that False by linarith
  qed
  moreover have "2 \<le> (63 :: nat)" by simp
  ultimately show ?thesis by blast
qed

theorem dictNextExp_least_power_witness: "\<exists>e. dictNextExp 1000 = Some e \<and> 1000 \<le> (2 :: nat) ^ e \<and> e \<le> 10"
proof -
  have u: "unat (1000 :: 64 word) = 1000" by simp
  obtain e where e: "dictNextExp 1000 = Some e" "(1000 :: nat) \<le> 2 ^ 63 \<longrightarrow> (1000 :: nat) \<le> 2 ^ e"
    "\<forall>f. 2 \<le> f \<and> 1000 \<le> (2 :: nat) ^ f \<longrightarrow> e \<le> f"
    using dictNextExp_least_power [of 1000] unfolding u by blast
  have "e \<le> 10" using e(3) [rule_format, of 10] by simp
  then show ?thesis using e(1,2) by (intro exI [of _ e]) simp
qed

end
