(* ===== verification/Redis_Hash.thy ===== *)
theory Redis_Hash
  imports Redis_Prelude
begin

text \<open>
  The hash functions: the table-driven CRC16 of \<^verbatim>\<open>src/crc16.c\<close>, the slot of a key in a cluster (\<^verbatim>\<open>keyHashSlot\<close> of
  \<^verbatim>\<open>src/cluster.c\<close>), and SipHash with its case-insensitive variant (\<^verbatim>\<open>src/siphash.c\<close>, the code for little-endian
  processors with unaligned loads). Strings are blocks of bytes with checked reads.

  The table is shown to be eight steps of the shift register of the polynomial; the slot depends on the hash tag only; the
  variant of SipHash is SipHash of the string in lower case.
\<close>

subsection \<open>The checksum\<close>

definition crc16tab :: "16 word list" where
  "crc16tab = [
    0x0000, 0x1021, 0x2042, 0x3063, 0x4084, 0x50a5, 0x60c6, 0x70e7,
    0x8108, 0x9129, 0xa14a, 0xb16b, 0xc18c, 0xd1ad, 0xe1ce, 0xf1ef,
    0x1231, 0x0210, 0x3273, 0x2252, 0x52b5, 0x4294, 0x72f7, 0x62d6,
    0x9339, 0x8318, 0xb37b, 0xa35a, 0xd3bd, 0xc39c, 0xf3ff, 0xe3de,
    0x2462, 0x3443, 0x0420, 0x1401, 0x64e6, 0x74c7, 0x44a4, 0x5485,
    0xa56a, 0xb54b, 0x8528, 0x9509, 0xe5ee, 0xf5cf, 0xc5ac, 0xd58d,
    0x3653, 0x2672, 0x1611, 0x0630, 0x76d7, 0x66f6, 0x5695, 0x46b4,
    0xb75b, 0xa77a, 0x9719, 0x8738, 0xf7df, 0xe7fe, 0xd79d, 0xc7bc,
    0x48c4, 0x58e5, 0x6886, 0x78a7, 0x0840, 0x1861, 0x2802, 0x3823,
    0xc9cc, 0xd9ed, 0xe98e, 0xf9af, 0x8948, 0x9969, 0xa90a, 0xb92b,
    0x5af5, 0x4ad4, 0x7ab7, 0x6a96, 0x1a71, 0x0a50, 0x3a33, 0x2a12,
    0xdbfd, 0xcbdc, 0xfbbf, 0xeb9e, 0x9b79, 0x8b58, 0xbb3b, 0xab1a,
    0x6ca6, 0x7c87, 0x4ce4, 0x5cc5, 0x2c22, 0x3c03, 0x0c60, 0x1c41,
    0xedae, 0xfd8f, 0xcdec, 0xddcd, 0xad2a, 0xbd0b, 0x8d68, 0x9d49,
    0x7e97, 0x6eb6, 0x5ed5, 0x4ef4, 0x3e13, 0x2e32, 0x1e51, 0x0e70,
    0xff9f, 0xefbe, 0xdfdd, 0xcffc, 0xbf1b, 0xaf3a, 0x9f59, 0x8f78,
    0x9188, 0x81a9, 0xb1ca, 0xa1eb, 0xd10c, 0xc12d, 0xf14e, 0xe16f,
    0x1080, 0x00a1, 0x30c2, 0x20e3, 0x5004, 0x4025, 0x7046, 0x6067,
    0x83b9, 0x9398, 0xa3fb, 0xb3da, 0xc33d, 0xd31c, 0xe37f, 0xf35e,
    0x02b1, 0x1290, 0x22f3, 0x32d2, 0x4235, 0x5214, 0x6277, 0x7256,
    0xb5ea, 0xa5cb, 0x95a8, 0x8589, 0xf56e, 0xe54f, 0xd52c, 0xc50d,
    0x34e2, 0x24c3, 0x14a0, 0x0481, 0x7466, 0x6447, 0x5424, 0x4405,
    0xa7db, 0xb7fa, 0x8799, 0x97b8, 0xe75f, 0xf77e, 0xc71d, 0xd73c,
    0x26d3, 0x36f2, 0x0691, 0x16b0, 0x6657, 0x7676, 0x4615, 0x5634,
    0xd94c, 0xc96d, 0xf90e, 0xe92f, 0x99c8, 0x89e9, 0xb98a, 0xa9ab,
    0x5844, 0x4865, 0x7806, 0x6827, 0x18c0, 0x08e1, 0x3882, 0x28a3,
    0xcb7d, 0xdb5c, 0xeb3f, 0xfb1e, 0x8bf9, 0x9bd8, 0xabbb, 0xbb9a,
    0x4a75, 0x5a54, 0x6a37, 0x7a16, 0x0af1, 0x1ad0, 0x2ab3, 0x3a92,
    0xfd2e, 0xed0f, 0xdd6c, 0xcd4d, 0xbdaa, 0xad8b, 0x9de8, 0x8dc9,
    0x7c26, 0x6c07, 0x5c64, 0x4c45, 0x3ca2, 0x2c83, 0x1ce0, 0x0cc1,
    0xef1f, 0xff3e, 0xcf5d, 0xdf7c, 0xaf9b, 0xbfba, 0x8fd9, 0x9ff8,
    0x6e17, 0x7e36, 0x4e55, 0x5e74, 0x2e93, 0x3eb2, 0x0ed1, 0x1ef0
   ]"

text \<open>
  \<^verbatim>\<open>char\<close> is signed, and the operands are promoted to \<^verbatim>\<open>int\<close>; the assignment keeps the low 16 bits.
\<close>

definition crc16_step :: "byte \<Rightarrow> 16 word \<Rightarrow> 16 word" where
  "crc16_step b crc =
    ucast (push_bit 8 (ucast crc :: 32 word) XOR ucast (crc16tab ! unat ((drop_bit 8 (ucast crc) XOR scast b) AND 0x00FF :: 32 word)))"

fun crc16_loop :: "mem \<Rightarrow> nat \<Rightarrow> nat \<Rightarrow> 16 word \<Rightarrow> 16 word option" where
  "crc16_loop buf p 0 crc = Some crc"
| "crc16_loop buf p (Suc n) crc = do {
     b \<leftarrow> rd buf p;
     crc16_loop buf (p + 1) n (crc16_step b crc)
   }"

text \<open>The checksum of the \<open>len\<close> bytes at offset \<open>p\<close>.\<close>

definition crc16 :: "mem \<Rightarrow> nat \<Rightarrow> nat \<Rightarrow> 16 word option" where
  "crc16 buf p len = crc16_loop buf p len 0"

subsection \<open>The slot of a key\<close>

text \<open>The index of a byte from a position on, or the length.\<close>

function find_byte :: "mem \<Rightarrow> byte \<Rightarrow> nat \<Rightarrow> nat \<Rightarrow> nat option" where
  "find_byte key c i keylen =
    (if i < keylen then
       (case rd key i of None \<Rightarrow> None | Some b \<Rightarrow> if b = c then Some i else find_byte key c (i + 1) keylen)
     else Some i)"
  by pat_completeness auto

termination find_byte
  by (relation "measure (\<lambda>(key, c, i, keylen). keylen - i)") auto

declare find_byte.simps [simp del]

definition slot_of :: "16 word \<Rightarrow> 32 word" where
  "slot_of crc = ucast crc AND 0x3FFF"

definition keyHashSlot :: "mem \<Rightarrow> nat \<Rightarrow> 32 word option" where
  "keyHashSlot key keylen = do {
     s \<leftarrow> find_byte key 123 0 keylen;
     if s = keylen then map_option slot_of (crc16 key 0 keylen)
     else do {
       e \<leftarrow> find_byte key 125 (s + 1) keylen;
       if e = keylen \<or> e = s + 1 then map_option slot_of (crc16 key 0 keylen)
       else map_option slot_of (crc16 key (s + 1) (e - s - 1))
     }
   }"

subsection \<open>The checksum bit by bit\<close>

text \<open>
  The shift register of the generator polynomial \<^verbatim>\<open>x^16 + x^12 + x^5 + 1\<close>: each message bit moves the register by one, and a bit
  that leaves it subtracts the polynomial.
\<close>

definition crc_bit :: "16 word \<Rightarrow> 16 word" where
  "crc_bit r = push_bit 1 r XOR (if bit r 15 then 0x1021 else 0)"

definition crc_byte :: "byte \<Rightarrow> 16 word \<Rightarrow> 16 word" where
  "crc_byte b r = (crc_bit ^^ 8) (r XOR push_bit 8 (ucast b))"

definition crc_ref :: "byte list \<Rightarrow> 16 word" where
  "crc_ref bs = fold crc_byte bs 0"

lemma crc_bit_xor: "crc_bit (a XOR b) = crc_bit a XOR crc_bit b"
  by (rule bit_word_eqI) (auto simp: crc_bit_def bit_simps)

lemma crc_bits_xor: "(crc_bit ^^ n) (a XOR b) = (crc_bit ^^ n) a XOR (crc_bit ^^ n) b"
  by (induction n) (simp_all add: crc_bit_xor)

text \<open>The table has the effect of eight steps on a register with an empty low byte.\<close>

lemma crc16tab_doubles:
  "concat (map (\<lambda>t. [crc_bit t, crc_bit t XOR 0x1021]) (take 128 crc16tab)) = crc16tab"
  by (simp add: crc16tab_def crc_bit_def)

lemma nth_pairs:
  "i < length xs \<Longrightarrow> concat (map (\<lambda>t. [f t, g t]) xs) ! (2 * i) = f (xs ! i) \<and> concat (map (\<lambda>t. [f t, g t]) xs) ! Suc (2 * i) = g (xs ! i)"
proof (induction xs arbitrary: i)
  case (Cons x xs)
  then show ?case by (cases i) auto
qed simp

lemma crc_bit_0: "crc_bit 0 = 0"
  by (simp add: crc_bit_def)

lemma crc_bits_0: "(crc_bit ^^ n) 0 = 0"
  by (induction n) (simp_all add: crc_bit_0)

lemma funpow_8: "(f ^^ 8) x = f (f (f (f (f (f (f (f x)))))))"
  by (simp add: numeral_eq_Suc)

lemma crc_bits_1: "(crc_bit ^^ 8) (push_bit 8 1) = 0x1021"
  by (simp add: funpow_8 crc_bit_def)

lemma crc_bit_small: "i < 128 \<Longrightarrow> crc_bit (push_bit 8 (word_of_nat i)) = push_bit 8 (word_of_nat (2 * i))"
proof -
  assume i: "i < 128"
  then have "\<not> bit i 7" using bit_take_bit_iff [of 7 i 7] take_bit_nat_eq_self [of i 7] by simp
  then have "\<not> bit (push_bit 8 (word_of_nat i) :: 16 word) 15" by (simp add: bit_push_bit_iff bit_of_nat_iff)
  then show ?thesis by (simp add: crc_bit_def push_bit_of_nat mult.commute push_bit_eq_mult)
qed

lemma crc16tab_nth: "i < 256 \<Longrightarrow> crc16tab ! i = (crc_bit ^^ 8) (push_bit 8 (word_of_nat i))"
proof (induction i rule: less_induct)
  case (less i)
  have len: "length crc16tab = 256" by (simp add: crc16tab_def)
  have pair: "crc16tab ! (2 * j) = crc_bit (crc16tab ! j)" "crc16tab ! Suc (2 * j) = crc_bit (crc16tab ! j) XOR 0x1021" if "j < 128" for j
    using nth_pairs [of j "take 128 crc16tab" crc_bit "\<lambda>t. crc_bit t XOR 0x1021"] that len unfolding crc16tab_doubles by simp_all
  have even: "crc_bit (crc16tab ! j) = (crc_bit ^^ 8) (push_bit 8 (word_of_nat (2 * j)))" if "j < i" "j < 128" for j
  proof -
    have "crc16tab ! j = (crc_bit ^^ 8) (push_bit 8 (word_of_nat j))" using less.IH [of j] that by simp
    then have "crc_bit (crc16tab ! j) = (crc_bit ^^ 8) (crc_bit (push_bit 8 (word_of_nat j)))" by (simp only: funpow_swap1)
    then show ?thesis using crc_bit_small [OF that(2)] by simp
  qed
  show ?case
  proof (cases "i = 0")
    case True
    then show ?thesis by (simp add: crc16tab_def crc_bits_0)
  next
    case False
    define j where "j = i div 2"
    have j: "j < i" "j < 128" using False less.prems by (auto simp: j_def)
    show ?thesis
    proof (cases "even i")
      case True
      then have "i = 2 * j" by (simp add: j_def)
      then show ?thesis using pair(1) [OF j(2)] even [OF j] by simp
    next
      case False
      then have i: "i = Suc (2 * j)" by (simp add: j_def)
      have "(word_of_nat i :: 16 word) = word_of_nat (2 * j) XOR 1"
        unfolding i by (rule bit_word_eqI) (auto simp: bit_simps even_bit_succ_iff bit_1_iff)
      then have "push_bit 8 (word_of_nat i :: 16 word) = push_bit 8 (word_of_nat (2 * j)) XOR push_bit 8 1"
        by (simp only: push_bit_xor)
      then have "(crc_bit ^^ 8) (push_bit 8 (word_of_nat i)) = crc_bit (crc16tab ! j) XOR 0x1021"
        by (simp only: crc_bits_xor even [OF j] crc_bits_1)
      then show ?thesis using pair(2) [OF j(2)] i by simp
    qed
  qed
qed

lemma crc_bits_shift: "n \<le> 16 \<Longrightarrow> (\<And>k. 16 - n \<le> k \<Longrightarrow> \<not> bit x k) \<Longrightarrow> (crc_bit ^^ n) x = push_bit n x"
proof (induction n)
  case (Suc n)
  have x: "\<not> bit x k" if "16 - n \<le> k" for k using Suc.prems(2) [of k] that by simp
  have "\<not> bit (push_bit n x) 15" using Suc.prems by (simp add: bit_push_bit_iff)
  then have "crc_bit (push_bit n x) = push_bit 1 (push_bit n x)" by (simp add: crc_bit_def)
  also have "\<dots> = push_bit (Suc n) x" by (simp only: push_bit_push_bit plus_1_eq_Suc)
  finally show ?case using Suc.IH x Suc.prems(1) by simp
qed simp

lemma crc16_index:
  "unat ((drop_bit 8 (ucast crc) XOR scast b) AND 0x00FF :: 32 word) = unat (drop_bit 8 (crc XOR push_bit 8 (ucast b)))"
  for crc :: "16 word" and b :: byte
proof -
  have m: "(0x00FF :: 32 word) = mask 8" by (simp add: mask_eq_exp_minus_1)
  have "(drop_bit 8 (ucast crc) XOR scast b) AND mask 8 = (ucast (drop_bit 8 (crc XOR push_bit 8 (ucast b))) :: 32 word)"
  proof (rule bit_word_eqI)
    fix n assume n: "n < LENGTH(32)"
    have hi: "\<not> bit crc (8 + n)" if "\<not> n < 8" using that bit_imp_le_length [of crc "8 + n"] by auto
    have lo: "min 7 n = n" if "n < 8" using that by simp
    show "bit ((drop_bit 8 (ucast crc) XOR scast b) AND mask 8 :: 32 word) n \<longleftrightarrow>
        bit (ucast (drop_bit 8 (crc XOR push_bit 8 (ucast b))) :: 32 word) n"
      using n hi lo by (cases "n < 8") (auto simp: bit_simps)
  qed
  then have "unat ((drop_bit 8 (ucast crc) XOR scast b) AND mask 8 :: 32 word) = unat (ucast (drop_bit 8 (crc XOR push_bit 8 (ucast b))) :: 32 word)"
    by simp
  moreover have "unat (drop_bit 8 (crc XOR push_bit 8 (ucast b))) < 2 ^ 32"
    using unsigned_less [of "drop_bit 8 (crc XOR push_bit 8 (ucast b))", where ?'a = nat] by simp
  ultimately show ?thesis unfolding m unsigned_ucast_eq by (simp only: len_num1 len_bit0 take_bit_nat_eq_self) (simp add: take_bit_nat_eq_self)
qed

lemma crc16_step_bits: "crc16_step b crc = crc_byte b crc"
proof -
  define x where "x = crc XOR push_bit 8 (ucast b)"
  have x: "x = push_bit 8 (drop_bit 8 x) XOR (x AND mask 8)"
    by (rule bit_word_eqI) (auto simp: bit_simps)
  have i: "unat (drop_bit 8 x) < 256"
    using unsigned_less [of x, where ?'a = nat] unfolding unsigned_drop_bit_eq
    by (simp add: take_bit_nat_eq_self drop_bit_eq_div less_mult_imp_div_less)
  have low: "(crc_bit ^^ 8) (x AND mask 8) = push_bit 8 crc"
  proof -
    have "(crc_bit ^^ 8) (x AND mask 8) = push_bit 8 (x AND mask 8)" by (rule crc_bits_shift) (auto simp: bit_simps)
    also have "\<dots> = push_bit 8 crc" by (rule bit_word_eqI) (auto simp: x_def bit_simps)
    finally show ?thesis .
  qed
  have "crc_byte b crc = (crc_bit ^^ 8) (push_bit 8 (drop_bit 8 x)) XOR push_bit 8 crc"
    using crc_bits_xor [of 8 "push_bit 8 (drop_bit 8 x)" "x AND mask 8"] x low by (simp add: crc_byte_def x_def)
  also have "(crc_bit ^^ 8) (push_bit 8 (drop_bit 8 x)) = crc16tab ! unat (drop_bit 8 x)" using crc16tab_nth [OF i] by simp
  finally have "crc_byte b crc = push_bit 8 crc XOR crc16tab ! unat (drop_bit 8 x)" by (simp add: xor.commute)
  moreover have "ucast (push_bit 8 (ucast crc :: 32 word) XOR ucast w) = push_bit 8 crc XOR w" for w :: "16 word"
    by (rule bit_word_eqI) (auto simp: bit_simps)
  ultimately show ?thesis unfolding crc16_step_def crc16_index x_def [symmetric] by simp
qed

lemma crc16_loop_ref:
  "p + n \<le> length buf \<Longrightarrow> crc16_loop buf p n crc = Some (fold crc_byte (take n (drop p buf)) crc)"
proof (induction n arbitrary: p crc)
  case (Suc n)
  then have "drop p buf = buf ! p # drop (p + 1) buf" by (simp add: Cons_nth_drop_Suc)
  then show ?case using Suc by (simp add: rd_def crc16_step_bits)
qed simp

lemma crc16_ok: "p + n \<le> length buf \<Longrightarrow> crc16 buf p n = Some (crc_ref (take n (drop p buf)))"
  by (simp add: crc16_def crc_ref_def crc16_loop_ref)

text \<open>C32. The table-driven checksum of \<^verbatim>\<open>crc16\<close> is the one that the shift register of the polynomial \<^verbatim>\<open>x^16 + x^12 + x^5 + 1\<close>,
  started at zero, computes bit by bit, for every buffer and every length within it.
\<close>

theorem crc16_shift_register:
  assumes "len \<le> length buf"
  shows "crc16 buf 0 len = Some (crc_ref (take len buf))"
  using crc16_ok [of 0 len buf] assms by simp

text \<open>The check value given in the comment: the digits one to nine.\<close>

theorem crc16_shift_register_witness: "crc16 [49, 50, 51, 52, 53, 54, 55, 56, 57] 0 9 = Some 0x31C3"
proof -
  have "crc_ref [49, 50, 51, 52, 53, 54, 55, 56, 57] = 0x31C3"
    by (simp add: crc_ref_def crc_byte_def funpow_8 crc_bit_def)
  then show ?thesis using crc16_shift_register [of 9 "[49, 50, 51, 52, 53, 54, 55, 56, 57]"] by simp
qed

subsection \<open>Hash tags\<close>

lemma find_byte_ok:
  "i \<le> n \<Longrightarrow> n \<le> length key \<Longrightarrow> find_byte key c i n = Some (i + length (takeWhile (\<lambda>b. b \<noteq> c) (take (n - i) (drop i key))))"
proof (induction key c i n rule: find_byte.induct)
  case (1 key c i n)
  show ?case
  proof (cases "i < n")
    case True
    then have d: "take (n - i) (drop i key) = key ! i # take (n - (i + 1)) (drop (i + 1) key)"
      using "1.prems" by (simp add: Cons_nth_drop_Suc [symmetric] take_Cons' Suc_diff_Suc)
    then show ?thesis using "1.IH" [of "key ! i"] "1.prems" True by (subst find_byte.simps) (simp add: rd_def)
  qed (use "1.prems" in \<open>simp add: find_byte.simps\<close>)
qed

text \<open>The part of a key that is hashed: what is between the first brace and the first closing brace after it, if that is something.\<close>

definition hash_tag :: "byte list \<Rightarrow> byte list" where
  "hash_tag key =
    (let r = tl (dropWhile (\<lambda>b. b \<noteq> 123) key); t = takeWhile (\<lambda>b. b \<noteq> 125) r
     in if 123 \<in> set key \<and> 125 \<in> set r \<and> t \<noteq> [] then t else key)"

lemma find_byte_all: "i \<le> length key \<Longrightarrow> find_byte key c i (length key) = Some (i + length (takeWhile (\<lambda>b. b \<noteq> c) (drop i key)))"
  using find_byte_ok [of i "length key" key c] by simp

lemma takeWhile_full: "length (takeWhile (\<lambda>b. b \<noteq> c) xs) = length xs \<longleftrightarrow> c \<notin> set xs"
  by (induction xs) auto

lemma first_split: "c \<notin> set a \<Longrightarrow> takeWhile (\<lambda>b. b \<noteq> c) (a @ c # r) = a \<and> tl (dropWhile (\<lambda>b. b \<noteq> c) (a @ c # r)) = r"
  by (induction a) auto

lemma keyHashSlot_ref: "keyHashSlot key (length key) = Some (slot_of (crc_ref (hash_tag key)))"
proof (cases "123 \<in> set key")
  case False
  then have "find_byte key 123 0 (length key) = Some (length key)"
    using find_byte_all [of 0 key 123] takeWhile_full [of 123 key] by simp
  then show ?thesis using False crc16_ok [of 0 "length key" key] by (simp add: keyHashSlot_def hash_tag_def Let_def)
next
  case True
  then obtain a r where key: "key = a @ 123 # r" "123 \<notin> set a" by (metis split_list_first)
  have tw: "takeWhile (\<lambda>b. b \<noteq> 123) key = a" "tl (dropWhile (\<lambda>b. b \<noteq> 123) key) = r"
    using first_split [OF key(2), of r] key(1) by simp_all
  let ?t = "takeWhile (\<lambda>b. b \<noteq> 125) r" and ?s = "length a"
  have s: "find_byte key 123 0 (length key) = Some ?s" using find_byte_all [of 0 key 123] tw by simp
  have e: "find_byte key 125 (?s + 1) (length key) = Some (?s + 1 + length ?t)"
    using find_byte_all [of "?s + 1" key 125] key by simp
  have none: "?s + 1 + length ?t = length key \<longleftrightarrow> 125 \<notin> set r" using takeWhile_full [of 125 r] key by simp
  have all: "crc16 key 0 (length key) = Some (crc_ref key)" using crc16_ok [of 0 "length key" key] by simp
  have part: "crc16 key (?s + 1) (length ?t) = Some (crc_ref ?t)"
    using crc16_ok [of "?s + 1" "length ?t" key] key takeWhile_eq_take [of "\<lambda>b. b \<noteq> 125" r] by (simp add: length_takeWhile_le)
  have tag: "hash_tag key = (if 125 \<in> set r \<and> ?t \<noteq> [] then ?t else key)"
    unfolding hash_tag_def Let_def tw(2) using True by simp
  have "?s \<noteq> length key" using key by simp
  then have "keyHashSlot key (length key) =
    (if 125 \<notin> set r \<or> ?t = [] then map_option slot_of (crc16 key 0 (length key)) else map_option slot_of (crc16 key (?s + 1) (length ?t)))"
    unfolding keyHashSlot_def s Option.bind.bind_lunit e none by simp
  then show ?thesis using tag all part by auto
qed

lemma slot_of_less: "unat (slot_of crc) < 16384"
proof -
  have "(0x3FFF :: 32 word) = mask 14" by (simp add: mask_eq_exp_minus_1)
  then have "unat (slot_of crc) = unat (ucast crc :: 32 word) mod 2 ^ 14"
    unfolding slot_of_def by (simp only: take_bit_eq_mask [symmetric] unsigned_take_bit_eq) (simp add: take_bit_eq_mod)
  then show ?thesis by simp
qed

text \<open>C33. Keys with the same hash tag, the part between the first opening brace and the first closing brace after it, go to the
  same one of the 16384 slots, that of the tag itself, whatever surrounds the tag; the two searches for the braces and
  the checksum stay inside the key.
\<close>

theorem keyHashSlot_same_tag:
  assumes "123 \<notin> set pre" and "125 \<notin> set tag" and "tag \<noteq> []" and "key = pre @ [123] @ tag @ [125] @ post"
  shows "\<exists>slot. keyHashSlot key (length key) = Some slot \<and> keyHashSlot tag (length tag) = Some slot \<and> unat slot < 16384"
proof -
  have r: "tl (dropWhile (\<lambda>b. b \<noteq> 123) key) = tag @ [125] @ post" using first_split [OF assms(1)] assms(4) by simp
  have "takeWhile (\<lambda>b. b \<noteq> 125) (tag @ [125] @ post) = tag" using first_split [OF assms(2), of post] by simp
  then have "hash_tag key = tag" using r assms(3,4) by (simp add: hash_tag_def)
  moreover have "b \<in> set tag" if "b \<in> set (tl (dropWhile (\<lambda>b. b \<noteq> 123) tag))" for b
    using set_dropWhileD [of b "\<lambda>b. b \<noteq> 123" tag] that by (cases "dropWhile (\<lambda>b. b \<noteq> 123) tag") auto
  then have "hash_tag tag = tag" using assms(2) by (auto simp: hash_tag_def Let_def)
  ultimately show ?thesis using keyHashSlot_ref [of key] keyHashSlot_ref [of tag] slot_of_less by auto
qed

theorem keyHashSlot_same_tag_witness:
  "\<exists>slot. keyHashSlot [123, 117, 49, 125, 46, 97] 6 = Some slot \<and> keyHashSlot [117, 49] 2 = Some slot \<and> unat slot < 16384"
proof -
  have l: "length [123, 117, 49, 125, 46, 97 :: byte] = 6" "length [117, 49 :: byte] = 2" by simp_all
  show ?thesis
    using keyHashSlot_same_tag [of "[]" "[117, 49]" "[123, 117, 49, 125, 46, 97]" "[46, 97]", unfolded l] by simp
qed

subsection \<open>SipHash\<close>

definition siptlw :: "int \<Rightarrow> int" where
  "siptlw c = (if c \<ge> 65 \<and> c \<le> 90 then c + (97 - 65) else c)"

definition ROTL :: "64 word \<Rightarrow> nat \<Rightarrow> 64 word" where
  "ROTL x b = push_bit b x OR drop_bit (64 - b) x"

text \<open>The unaligned load of a little-endian machine, and the one that folds the case of each byte.\<close>

definition U8TO64_LE :: "mem \<Rightarrow> nat \<Rightarrow> 64 word option" where
  "U8TO64_LE m p = map_option (\<lambda>bs. word_of_nat (load_le bs)) (rdn m p 8)"

definition fold_byte :: "byte \<Rightarrow> 64 word" where
  "fold_byte b = word_of_int (siptlw (uint b))"

definition U8TO64_LE_NOCASE :: "mem \<Rightarrow> nat \<Rightarrow> 64 word option" where
  "U8TO64_LE_NOCASE m p = do {
     b0 \<leftarrow> rd m p; b1 \<leftarrow> rd m (p + 1); b2 \<leftarrow> rd m (p + 2); b3 \<leftarrow> rd m (p + 3);
     b4 \<leftarrow> rd m (p + 4); b5 \<leftarrow> rd m (p + 5); b6 \<leftarrow> rd m (p + 6); b7 \<leftarrow> rd m (p + 7);
     Some (fold_byte b0 OR push_bit 8 (fold_byte b1) OR push_bit 16 (fold_byte b2) OR push_bit 24 (fold_byte b3) OR
       push_bit 32 (fold_byte b4) OR push_bit 40 (fold_byte b5) OR push_bit 48 (fold_byte b6) OR push_bit 56 (fold_byte b7))
   }"

type_synonym sip = "64 word \<times> 64 word \<times> 64 word \<times> 64 word"

definition SIPROUND :: "sip \<Rightarrow> sip" where
  "SIPROUND v =
    (let (v0, v1, v2, v3) = v;
         v0 = v0 + v1; v1 = ROTL v1 13; v1 = v1 XOR v0; v0 = ROTL v0 32;
         v2 = v2 + v3; v3 = ROTL v3 16; v3 = v3 XOR v2;
         v0 = v0 + v3; v3 = ROTL v3 21; v3 = v3 XOR v0;
         v2 = v2 + v1; v1 = ROTL v1 17; v1 = v1 XOR v2; v2 = ROTL v2 32
     in (v0, v1, v2, v3))"

definition sip_init :: "64 word \<Rightarrow> 64 word \<Rightarrow> sip" where
  "sip_init k0 k1 =
    (0x736f6d6570736575 XOR k0, 0x646f72616e646f6d XOR k1, 0x6c7967656e657261 XOR k0, 0x7465646279746573 XOR k1)"

text \<open>One block of the message.\<close>

definition sip_block :: "64 word \<Rightarrow> sip \<Rightarrow> sip" where
  "sip_block m v =
    (let (v0, v1, v2, v3) = v; (v0, v1, v2, v3) = SIPROUND (v0, v1, v2, v3 XOR m) in (v0 XOR m, v1, v2, v3))"

definition sip_final :: "64 word \<Rightarrow> sip \<Rightarrow> 64 word" where
  "sip_final b v =
    (let (v0, v1, v2, v3) = sip_block b v; (v0, v1, v2, v3) = SIPROUND (SIPROUND (v0, v1, v2 XOR 0xff, v3))
     in v0 XOR v1 XOR v2 XOR v3)"

fun siphash_blocks :: "mem \<Rightarrow> nat \<Rightarrow> nat \<Rightarrow> sip \<Rightarrow> sip option" where
  "siphash_blocks inp p 0 v = Some v"
| "siphash_blocks inp p (Suc n) v = do {
     m \<leftarrow> U8TO64_LE inp p;
     siphash_blocks inp (p + 8) n (sip_block m v)
   }"

text \<open>The cases of the switch fall through from the last byte to the first.\<close>

fun siphash_tail :: "mem \<Rightarrow> nat \<Rightarrow> nat \<Rightarrow> 64 word \<Rightarrow> 64 word option" where
  "siphash_tail inp p 0 b = Some b"
| "siphash_tail inp p (Suc j) b = do {
     x \<leftarrow> rd inp (p + j);
     siphash_tail inp p j (b OR push_bit (8 * j) (ucast x))
   }"

definition siphash :: "mem \<Rightarrow> nat \<Rightarrow> mem \<Rightarrow> 64 word option" where
  "siphash inp inlen k = do {
     k0 \<leftarrow> U8TO64_LE k 0;
     k1 \<leftarrow> U8TO64_LE k 8;
     let left = inlen mod 8;
     let last = inlen - left;
     v \<leftarrow> siphash_blocks inp 0 (inlen div 8) (sip_init k0 k1);
     b \<leftarrow> siphash_tail inp last left (push_bit 56 (word_of_nat inlen));
     Some (sip_final b v)
   }"

fun siphash_nocase_blocks :: "mem \<Rightarrow> nat \<Rightarrow> nat \<Rightarrow> sip \<Rightarrow> sip option" where
  "siphash_nocase_blocks inp p 0 v = Some v"
| "siphash_nocase_blocks inp p (Suc n) v = do {
     m \<leftarrow> U8TO64_LE_NOCASE inp p;
     siphash_nocase_blocks inp (p + 8) n (sip_block m v)
   }"

fun siphash_nocase_tail :: "mem \<Rightarrow> nat \<Rightarrow> nat \<Rightarrow> 64 word \<Rightarrow> 64 word option" where
  "siphash_nocase_tail inp p 0 b = Some b"
| "siphash_nocase_tail inp p (Suc j) b = do {
     x \<leftarrow> rd inp (p + j);
     siphash_nocase_tail inp p j (b OR push_bit (8 * j) (fold_byte x))
   }"

definition siphash_nocase :: "mem \<Rightarrow> nat \<Rightarrow> mem \<Rightarrow> 64 word option" where
  "siphash_nocase inp inlen k = do {
     k0 \<leftarrow> U8TO64_LE k 0;
     k1 \<leftarrow> U8TO64_LE k 8;
     let left = inlen mod 8;
     let last = inlen - left;
     v \<leftarrow> siphash_nocase_blocks inp 0 (inlen div 8) (sip_init k0 k1);
     b \<leftarrow> siphash_nocase_tail inp last left (push_bit 56 (word_of_nat inlen));
     Some (sip_final b v)
   }"

text \<open>A byte in lower case.\<close>

definition lower_byte :: "byte \<Rightarrow> byte" where
  "lower_byte b = (if 65 \<le> b \<and> b \<le> 90 then b + 32 else b)"

lemma fold_byte_lower: "fold_byte b = ucast (lower_byte b)"
proof (cases "65 \<le> b \<and> b \<le> 90")
  case True
  then have u: "65 \<le> uint b" "uint b \<le> 90" by (simp_all add: word_le_def)
  have "uint (b + 32) = uint b + 32" using u by (simp add: uint_word_ariths)
  then have "(ucast (b + 32) :: 64 word) = word_of_int (uint b + 32)" by (simp only: ucast_eq)
  moreover have "fold_byte b = word_of_int (uint b + 32)" using u by (simp add: fold_byte_def siptlw_def)
  moreover have "lower_byte b = b + 32" using True by (simp only: lower_byte_def if_True simp_thms)
  ultimately show ?thesis by simp
next
  case False
  then have "\<not> (65 \<le> uint b \<and> uint b \<le> 90)" by (simp add: word_le_def)
  then have "fold_byte b = word_of_int (uint b)" unfolding fold_byte_def siptlw_def by (simp only: if_False)
  moreover have "lower_byte b = b" using False by (simp only: lower_byte_def if_False)
  ultimately show ?thesis by (simp only: ucast_eq)
qed

lemma rd_map: "rd (map f m) i = map_option f (rd m i)"
  by (simp add: rd_def)

lemma rd_split:
  assumes "p + 8 \<le> length m"
  shows "rdn m p 8 = Some [m ! p, m ! (p + 1), m ! (p + 2), m ! (p + 3), m ! (p + 4), m ! (p + 5), m ! (p + 6), m ! (p + 7)]"
proof -
  have "take 8 (drop p m) = map (\<lambda>i. m ! (p + i)) [0..<8]"
    using assms by (intro nth_equalityI) simp_all
  moreover have "[0..<8] = [0, 1, 2, 3, 4, 5, 6, 7 :: nat]" by (simp add: upt_rec)
  ultimately show ?thesis using assms by (simp add: rdn_def)
qed

lemma load_word:
  "(word_of_nat (load_le [b0, b1, b2, b3, b4, b5, b6, b7]) :: 64 word) =
    ucast b0 OR push_bit 8 (ucast b1) OR push_bit 16 (ucast b2) OR push_bit 24 (ucast b3) OR
    push_bit 32 (ucast b4) OR push_bit 40 (ucast b5) OR push_bit 48 (ucast b6) OR push_bit 56 (ucast b7)"
proof -
  have u: "(word_of_nat (unat b) :: 64 word) = ucast b" for b :: byte
  proof -
    have "(word_of_nat (unat (ucast b :: 64 word)) :: 64 word) = ucast b" by simp
    then show ?thesis by (simp only: unat_ucast_byte)
  qed
  have "load_le [b0, b1, b2, b3, b4, b5, b6, b7] =
    unat b0 OR push_bit 8 (unat b1) OR push_bit 16 (unat b2) OR push_bit 24 (unat b3) OR
    push_bit 32 (unat b4) OR push_bit 40 (unat b5) OR push_bit 48 (unat b6) OR push_bit 56 (unat b7)"
    by (simp add: load_le.simps push_bit_or push_bit_push_bit or.assoc)
  then show ?thesis by (simp only: of_nat_or_eq of_nat_push_bit u)
qed

lemma NOCASE_lower:
  assumes "p + 8 \<le> length m"
  shows "U8TO64_LE_NOCASE m p = U8TO64_LE (map lower_byte m) p" and "U8TO64_LE m p \<noteq> None"
proof -
  have r: "rd m (p + i) = Some (m ! (p + i))" if "i < 8" for i using that assms by (simp add: rd_def)
  have r0: "rd m p = Some (m ! p)" "rd m (Suc p) = Some (m ! Suc p)" "rd m (Suc (Suc p)) = Some (m ! Suc (Suc p))"
    using r [of 0] r [of 1] r [of 2] by simp_all
  show "U8TO64_LE_NOCASE m p = U8TO64_LE (map lower_byte m) p"
    using rd_split [of p "map lower_byte m"] assms r r0
    by (simp add: U8TO64_LE_NOCASE_def U8TO64_LE_def load_word fold_byte_lower)
  show "U8TO64_LE m p \<noteq> None" using rd_split [OF assms] by (simp add: U8TO64_LE_def)
qed

lemma siphash_blocks_lower:
  "p + 8 * n \<le> length m \<Longrightarrow>
    siphash_nocase_blocks m p n v = siphash_blocks (map lower_byte m) p n v \<and> siphash_blocks (map lower_byte m) p n v \<noteq> None"
proof (induction n arbitrary: p v)
  case (Suc n)
  obtain w where "U8TO64_LE (map lower_byte m) p = Some w" using NOCASE_lower(2) [of p "map lower_byte m"] Suc.prems by auto
  then show ?case using Suc.IH [of "p + 8" "sip_block w v"] Suc.prems NOCASE_lower(1) [of p m] by simp
qed simp

lemma siphash_tail_lower:
  "p + n \<le> length m \<Longrightarrow>
    siphash_nocase_tail m p n b = siphash_tail (map lower_byte m) p n b \<and> siphash_tail (map lower_byte m) p n b \<noteq> None"
proof (induction n arbitrary: b)
  case (Suc n)
  have "rd m (p + n) = Some (m ! (p + n))" using Suc.prems by (simp add: rd_def)
  then show ?case using Suc by (simp add: rd_map fold_byte_lower)
qed simp

text \<open>C34. The case-insensitive hash of a string is the hash of the string in lower case, so that strings which differ in the case of
  ASCII letters only have the same hash. Neither reads outside the string and the 16 bytes of the key.
\<close>

theorem siphash_nocase_lower:
  assumes "inlen \<le> length inp" and "16 \<le> length k"
  shows "\<exists>h. siphash_nocase inp inlen k = Some h \<and> siphash (map lower_byte inp) inlen k = Some h"
proof -
  obtain k0 k1 where k: "U8TO64_LE k 0 = Some k0" "U8TO64_LE k 8 = Some k1"
    using NOCASE_lower(2) [of 0 k] NOCASE_lower(2) [of 8 k] assms(2) by auto
  let ?n = "inlen div 8" and ?l = "inlen mod 8" and ?b = "push_bit 56 (word_of_nat inlen) :: 64 word"
  have len: "0 + 8 * ?n \<le> length inp" "inlen - ?l + ?l \<le> length inp"
    using assms(1) div_times_less_eq_dividend [of inlen 8] mod_less_eq_dividend [of inlen 8] by linarith+
  obtain v where v: "siphash_blocks (map lower_byte inp) 0 ?n (sip_init k0 k1) = Some v" "siphash_nocase_blocks inp 0 ?n (sip_init k0 k1) = Some v"
    using siphash_blocks_lower [OF len(1), of "sip_init k0 k1"] by (metis not_Some_eq)
  obtain b where "siphash_tail (map lower_byte inp) (inlen - ?l) ?l ?b = Some b" "siphash_nocase_tail inp (inlen - ?l) ?l ?b = Some b"
    using siphash_tail_lower [OF len(2), of ?b] by (metis not_Some_eq)
  then show ?thesis using k v by (simp add: siphash_def siphash_nocase_def Let_def)
qed

theorem siphash_nocase_lower_witness:
  "\<exists>h. siphash_nocase [72, 105] 2 (replicate 16 7) = Some h \<and> siphash [104, 105] 2 (replicate 16 7) = Some h"
  using siphash_nocase_lower [of 2 "[72, 105]" "replicate 16 7"] by (simp add: lower_byte_def)

end
