(* ===== verification/Pip_Python.thy ===== *)
theory Pip_Python
  imports Double "HOL-Library.Monad_Syntax"
begin

text \<open>
  What the power controller of \<^verbatim>\<open>src/control\<close> uses of Python: floats, lists with their negative indices, ranges with a
  negative step, and the text functions \<^verbatim>\<open>strip\<close>, \<^verbatim>\<open>split\<close> and \<^verbatim>\<open>int\<close>. An exception is \<open>None\<close>.

  Floats are doubles, and a division by zero raises. Text is ASCII.
\<close>

subsection \<open>Floats\<close>

definition f_div :: "double \<Rightarrow> double \<Rightarrow> double option" where
  "f_div x y = (if y = 0 then None else Some (f_quot x y))"

text \<open>The quotient of two integers is rounded once.\<close>

definition int_div :: "int \<Rightarrow> int \<Rightarrow> double option" where
  "int_div a b = (if b = 0 then None else Some (rne (of_int a / of_int b)))"

text \<open>\<^verbatim>\<open>int\<close> of a float cuts off the fraction.\<close>

definition f_trunc :: "double \<Rightarrow> int" where
  "f_trunc x = (if x < 0 then - \<lfloor>- x\<rfloor> else \<lfloor>x\<rfloor>)"

subsection \<open>Lists and ranges\<close>

definition py_index :: "'a list \<Rightarrow> int \<Rightarrow> nat option" where
  "py_index xs i =
    (if 0 \<le> i \<and> i < int (length xs) then Some (nat i)
     else if - int (length xs) \<le> i \<and> i < 0 then Some (nat (i + int (length xs)))
     else None)"

definition py_get :: "'a list \<Rightarrow> int \<Rightarrow> 'a option" where
  "py_get xs i = map_option (\<lambda>n. xs ! n) (py_index xs i)"

definition py_set :: "'a list \<Rightarrow> int \<Rightarrow> 'a \<Rightarrow> 'a list option" where
  "py_set xs i v = map_option (\<lambda>n. xs[n := v]) (py_index xs i)"

text \<open>\<^verbatim>\<open>range(a, b, -5)\<close>.\<close>

function range_down :: "int \<Rightarrow> int \<Rightarrow> int list" where
  "range_down a b = (if a > b then a # range_down (a - 5) b else [])"
  by pat_completeness auto

termination range_down
  by (relation "measure (\<lambda>(a, b). nat (a - b))") auto

declare range_down.simps [simp del]

text \<open>A loop whose body may raise.\<close>

fun fold_opt :: "('a \<Rightarrow> 's \<Rightarrow> 's option) \<Rightarrow> 'a list \<Rightarrow> 's \<Rightarrow> 's option" where
  "fold_opt f [] s = Some s"
| "fold_opt f (x # xs) s = Option.bind (f x s) (fold_opt f xs)"

subsection \<open>Text\<close>

definition is_space :: "char \<Rightarrow> bool" where
  "is_space c \<longleftrightarrow> of_char c = (32 :: nat) \<or> 9 \<le> (of_char c :: nat) \<and> of_char c \<le> (13 :: nat) \<or> 28 \<le> (of_char c :: nat) \<and> of_char c \<le> (31 :: nat)"

definition py_strip :: "string \<Rightarrow> string" where
  "py_strip s = rev (dropWhile is_space (rev (dropWhile is_space s)))"

text \<open>\<^verbatim>\<open>split\<close> at a character, and at runs of white space.\<close>

fun py_split :: "char \<Rightarrow> string \<Rightarrow> string list" where
  "py_split c [] = [[]]"
| "py_split c (x # xs) =
    (if x = c then [] # py_split c xs
     else (case py_split c xs of [] \<Rightarrow> [[x]] | w # ws \<Rightarrow> (x # w) # ws))"

fun py_words :: "string \<Rightarrow> string list" where
  "py_words [] = []"
| "py_words (x # xs) =
    (if is_space x then py_words xs
     else (case xs of [] \<Rightarrow> [[x]]
       | y # ys \<Rightarrow> if is_space y then [x] # py_words xs
           else (case py_words xs of [] \<Rightarrow> [[x]] | w # ws \<Rightarrow> (x # w) # ws)))"

fun py_digits :: "string \<Rightarrow> bool \<Rightarrow> int \<Rightarrow> int option" where
  "py_digits [] d acc = (if d then Some acc else None)"
| "py_digits (c # cs) d acc =
    (if 48 \<le> (of_char c :: int) \<and> (of_char c :: int) \<le> 57 then py_digits cs True (acc * 10 + (of_char c - 48))
     else if c = CHR ''_'' \<and> d then py_digits cs False acc
     else None)"

definition py_int :: "string \<Rightarrow> int option" where
  "py_int s =
    (case py_strip s of
       [] \<Rightarrow> None
     | c # cs \<Rightarrow>
         if c = CHR ''-'' then map_option uminus (py_digits cs False 0)
         else if c = CHR ''+'' then py_digits cs False 0
         else py_digits (c # cs) False 0)"

subsection \<open>Lemmas\<close>

lemma py_get_ok: "0 \<le> i \<Longrightarrow> i < int (length xs) \<Longrightarrow> py_get xs i = Some (xs ! nat i)"
  by (simp add: py_get_def py_index_def)

lemma py_set_ok: "0 \<le> i \<Longrightarrow> i < int (length xs) \<Longrightarrow> py_set xs i v = Some (xs[nat i := v])"
  by (simp add: py_set_def py_index_def)

lemma range_down_bounds: "x \<in> set (range_down a b) \<Longrightarrow> b < x \<and> x \<le> a"
  by (induction a b rule: range_down.induct) (subst (asm) (2) range_down.simps, auto split: if_splits)

lemma fold_opt_inv:
  assumes "P s" and "\<And>x s. x \<in> set xs \<Longrightarrow> P s \<Longrightarrow> \<exists>s'. f x s = Some s' \<and> P s'"
  shows "\<exists>s'. fold_opt f xs s = Some s' \<and> P s'"
  using assms
proof (induction xs arbitrary: s)
  case (Cons x xs)
  then obtain s1 where s1: "f x s = Some s1" "P s1" by (metis list.set_intros(1))
  have "\<exists>s'. fold_opt f xs s1 = Some s' \<and> P s'" by (rule Cons.IH [OF s1(2)]) (rule Cons.prems(2), simp_all)
  then show ?case using s1(1) by simp
qed simp

lemma py_digits_nonneg: "py_digits s d acc = Some n \<Longrightarrow> 0 \<le> acc \<Longrightarrow> 0 \<le> n"
  by (induction s d acc rule: py_digits.induct) (auto split: if_splits)

lemma strip_subset: "set (py_strip s) \<subseteq> set s"
  unfolding py_strip_def by (metis (no_types, opaque_lifting) set_dropWhileD set_rev subsetI)

lemma py_int_nonneg: "py_int s = Some n \<Longrightarrow> CHR ''-'' \<notin> set s \<Longrightarrow> 0 \<le> n"
  using strip_subset [of s] by (auto simp: py_int_def py_digits_nonneg split: list.splits if_splits)

lemma py_split_parts: "w \<in> set (py_split c s) \<Longrightarrow> c \<notin> set w"
  by (induction c s arbitrary: w rule: py_split.induct) (auto split: if_splits list.splits)

end
