(* ===== verification/Pip_Control.thy ===== *)
theory Pip_Control
  imports Pip_Python
begin

text \<open>
  The power controller, \<^verbatim>\<open>src/control/powercap_CPU_powertrace-final.py\<close>: it lowers and raises the CPU bandwidth of the
  groups \<^verbatim>\<open>user\<close> and \<^verbatim>\<open>critical\<close>, in percent, so that the measured power meets a budget. The state holds the global
  variables and the quotas in the two \<^verbatim>\<open>cpu.max\<close> files, \<open>None\<close> for \<^verbatim>\<open>max\<close>. What an iteration of the control loop gets from
  outside is its environment: the budget file, the measured power and the metrics as the functions that parse the output
  of \<^verbatim>\<open>perf\<close> and \<^verbatim>\<open>cpupower\<close> return them, the \<^verbatim>\<open>cpuset\<close> files, whether the \<^verbatim>\<open>cpu.max\<close> files can be written and read, and the
  regression model, a function that may raise. The globals that start as the integer 0 and become floats are floats.

  A function that may raise after it has changed the globals returns a flag, false for an exception, with the state.
\<close>

subsection \<open>Data\<close>

datatype cgroup = User | Critical

text \<open>
  An element of a feature map: a float, an integer, the text of an integer, or something \<^verbatim>\<open>float\<close> raises on (the error pair
  of \<^verbatim>\<open>parse_perf_metrics\<close> puts such elements into the map).
\<close>

datatype feat = F double | I int | S int | Bad

fun py_float :: "feat \<Rightarrow> double option" where
  "py_float (F x) = Some x"
| "py_float (I n) = Some (f_int n)"
| "py_float (S n) = Some (f_int n)"
| "py_float Bad = None"

text \<open>\<^verbatim>\<open>float(m[i])\<close>.\<close>

definition get_float :: "feat list \<Rightarrow> int \<Rightarrow> double option" where
  "get_float m i = Option.bind (py_get m i) py_float"

record topology =
  topol_size :: int
  direct_metrics_size :: int
  max_freq :: int
  core_info_count :: int
  num_cores :: int

record env =
  budget_file :: "string option"
  measured :: "double option"
  metrics :: "feat list option"
  user_effective :: "string option"
  user_cpus :: "string option"
  critical_effective :: "string option"
  critical_cpus :: "string option"
  writable :: "cgroup \<Rightarrow> int \<Rightarrow> bool"
  readable :: "cgroup \<Rightarrow> bool"
  regression :: "(feat list \<Rightarrow> double option) option"

record pip =
  current_bandwidth :: int
  current_bandwidth2 :: int
  adjustment_ratio :: "int \<Rightarrow> double option"
  predictive_feature_map :: "feat list"
  actual_power :: "double option"
  prev_prediction :: double
  prev :: int
  retry :: int
  calibration_offset :: double
  used_map :: bool
  full_mode :: bool
  target_power :: int
  cpu_max :: "cgroup \<Rightarrow> int option"

definition TOLERANCE :: double where
  "TOLERANCE = 5"

definition ceiling_ratio :: double where
  "ceiling_ratio = rne (3 / 100)"

definition smoothing_cal :: double where
  "smoothing_cal = rne (8 / 10)"

definition pip_init :: "(cgroup \<Rightarrow> int option) \<Rightarrow> pip" where
  "pip_init files = \<lparr>current_bandwidth = 100, current_bandwidth2 = 100, adjustment_ratio = (\<lambda>i. None), predictive_feature_map = [],
     actual_power = Some 0, prev_prediction = 0, prev = 0, retry = 0, calibration_offset = 0, used_map = False, full_mode = False,
     target_power = 0, cpu_max = files\<rparr>"

subsection \<open>Files\<close>

definition first_line :: "string \<Rightarrow> string" where
  "first_line s = takeWhile (\<lambda>c. c \<noteq> CHR 0x0A \<and> c \<noteq> CHR 0x0D) s"

definition load_topology_metrics :: "int \<Rightarrow> string option \<Rightarrow> topology" where
  "load_topology_metrics n file =
    (case (do {
       text \<leftarrow> file;
       let data = py_words (first_line text);
       a \<leftarrow> Option.bind (py_get data 0) py_int;
       b \<leftarrow> Option.bind (py_get data 1) py_int;
       c \<leftarrow> Option.bind (py_get data 2) py_int;
       d \<leftarrow> (if n \<noteq> 0 then map_option f_trunc (int_div a n) else Some 0);
       Some \<lparr>topol_size = a, direct_metrics_size = b, max_freq = c, core_info_count = d, num_cores = n\<rparr>
     }) of
       Some t \<Rightarrow> t
     | None \<Rightarrow> \<lparr>topol_size = 0, direct_metrics_size = 0, max_freq = 0, core_info_count = 0, num_cores = n\<rparr>)"

definition cpuset_part :: "string \<Rightarrow> int list option" where
  "cpuset_part part =
    (if CHR ''-'' \<in> set part then
       (case py_split CHR ''-'' part of
          [a, b] \<Rightarrow> do { start \<leftarrow> py_int a; end_core \<leftarrow> py_int b; Some [start..end_core] }
        | _ \<Rightarrow> None)
     else map_option (\<lambda>n. [n]) (py_int part))"

text \<open>The loop stops at the first part that raises and keeps what it has.\<close>

fun cpuset_parts :: "string list \<Rightarrow> int list" where
  "cpuset_parts [] = []"
| "cpuset_parts (p # ps) = (case cpuset_part p of None \<Rightarrow> [] | Some cs \<Rightarrow> cs @ cpuset_parts ps)"

definition read_cpuset :: "string option \<Rightarrow> int list" where
  "read_cpuset file =
    (case file of
       None \<Rightarrow> []
     | Some text \<Rightarrow>
         let s = py_strip text in if s \<noteq> [] then sort (cpuset_parts (py_split CHR '','' s)) else [])"

definition get_user_cores :: "env \<Rightarrow> int list" where
  "get_user_cores e =
    (let cores = read_cpuset (user_effective e) in if length cores < 2 then read_cpuset (user_cpus e) else cores)"

definition get_critical_cores :: "topology \<Rightarrow> env \<Rightarrow> int list" where
  "get_critical_cores T e =
    (let cores = read_cpuset (critical_effective e)
     in if int (length cores) < num_cores T div 2 then read_cpuset (critical_cpus e) else cores)"

fun effective :: "cgroup \<Rightarrow> env \<Rightarrow> string option" where
  "effective User e = user_effective e"
| "effective Critical e = critical_effective e"

fun cpus :: "cgroup \<Rightarrow> env \<Rightarrow> string option" where
  "cpus User e = user_cpus e"
| "cpus Critical e = critical_cpus e"

fun group_cores :: "topology \<Rightarrow> env \<Rightarrow> cgroup \<Rightarrow> int list" where
  "group_cores T e User = get_user_cores e"
| "group_cores T e Critical = get_critical_cores T e"

fun bandwidth :: "pip \<Rightarrow> cgroup \<Rightarrow> int" where
  "bandwidth s User = current_bandwidth s"
| "bandwidth s Critical = current_bandwidth2 s"

fun set_bandwidth :: "cgroup \<Rightarrow> int \<Rightarrow> pip \<Rightarrow> pip" where
  "set_bandwidth User v s = s\<lparr>current_bandwidth := v\<rparr>"
| "set_bandwidth Critical v s = s\<lparr>current_bandwidth2 := v\<rparr>"

definition quota_percent :: "int \<Rightarrow> int \<Rightarrow> int" where
  "quota_percent quota n = f_trunc (f_mul (rne (of_int quota / of_int (100000 * n))) (f_int 100))"

definition read_cpu_max :: "env \<Rightarrow> cgroup \<Rightarrow> pip \<Rightarrow> int option" where
  "read_cpu_max e g s =
    (if \<not> readable e g then None
     else case cpu_max s g of
       None \<Rightarrow> None
     | Some quota \<Rightarrow>
         let cores = read_cpuset (effective g e);
             cores = (if cores = [] then read_cpuset (cpus g e) else cores)
         in if cores \<noteq> [] then Some (quota_percent quota (int (length cores))) else None)"

definition quota_of :: "int \<Rightarrow> int \<Rightarrow> int" where
  "quota_of n throttle = f_trunc (rne (of_int (100000 * n * throttle) / of_int 100))"

definition set_cpu_limit :: "env \<Rightarrow> cgroup \<Rightarrow> int \<Rightarrow> int list \<Rightarrow> pip \<Rightarrow> pip" where
  "set_cpu_limit e g throttle available_cores s =
    (let quota = quota_of (int (length available_cores)) throttle
     in if writable e g quota then
          let s = s\<lparr>cpu_max := (cpu_max s)(g := Some quota)\<rparr>
          in (case read_cpu_max e g s of None \<Rightarrow> s | Some t \<Rightarrow> set_bandwidth g t s)
        else s)"

subsection \<open>Feature maps\<close>

definition update_feature_map_generic :: "topology \<Rightarrow> pip \<Rightarrow> feat list \<Rightarrow> int \<Rightarrow> int \<Rightarrow> cgroup \<Rightarrow> feat list option" where
  "update_feature_map_generic T s feature_map future_throttle available_cores g = do {
     avail_ratio \<leftarrow> int_div available_cores (num_cores T);
     ratio \<leftarrow> int_div future_throttle (bandwidth s g);
     fold_opt (\<lambda>i m. do {
         base \<leftarrow> get_float m i;
         let sensitivity = (case adjustment_ratio s i of None \<Rightarrow> 0 | Some r \<Rightarrow> r);
         py_set m i (F (f_mul base (f_add (f_sub 1 avail_ratio)
           (f_mul avail_ratio (f_add 1 (f_mul sensitivity (f_sub ratio 1)))))))
       }) [direct_metrics_size T..int (length feature_map) - 1] feature_map
   }"

text \<open>The entries written before an exception stay.\<close>

fun update_adjustment_loop ::
    "feat list \<Rightarrow> feat list \<Rightarrow> double \<Rightarrow> int list \<Rightarrow> (int \<Rightarrow> double option) \<Rightarrow> bool \<times> (int \<Rightarrow> double option)" where
  "update_adjustment_loop predictive_map actual_map smoothing [] a = (True, a)"
| "update_adjustment_loop predictive_map actual_map smoothing (i # is) a =
    (case get_float predictive_map i of
       None \<Rightarrow> (False, a)
     | Some pred \<Rightarrow>
         if pred \<noteq> 0 then
           (case Option.bind (get_float actual_map i) (\<lambda>x. f_div x pred) of
              None \<Rightarrow> (False, a)
            | Some new_sens \<Rightarrow>
                update_adjustment_loop predictive_map actual_map smoothing is (a(i \<mapsto>
                  (case a i of
                     Some r \<Rightarrow> f_add (f_mul smoothing r) (f_mul (f_sub 1 smoothing) new_sens)
                   | None \<Rightarrow> new_sens))))
         else update_adjustment_loop predictive_map actual_map smoothing is (a(i \<mapsto> 0)))"

definition update_adjustment :: "topology \<Rightarrow> feat list \<Rightarrow> feat list \<Rightarrow> pip \<Rightarrow> bool \<times> pip" where
  "update_adjustment T predictive_map actual_map s =
    (let (ok, a) = update_adjustment_loop predictive_map actual_map (rne (8 / 10))
           [direct_metrics_size T..int (length actual_map) - 1] (adjustment_ratio s)
     in (ok, s\<lparr>adjustment_ratio := a\<rparr>))"

definition py_max :: "double \<Rightarrow> int \<Rightarrow> feat" where
  "py_max x n = (if of_int n > x then I n else F x)"

definition py_min :: "double \<Rightarrow> int \<Rightarrow> feat" where
  "py_min x n = (if of_int n < x then I n else F x)"

text \<open>The features of a core at a higher bandwidth, and at a lower one, with the count of the cores that changed.\<close>

definition recover_core :: "topology \<Rightarrow> int \<Rightarrow> int \<Rightarrow> int \<Rightarrow> feat list \<times> int \<Rightarrow> (feat list \<times> int) option" where
  "recover_core T current_val candidate core mc =
    (let (m, core_count) = mc; idx = core * core_info_count T
     in if idx < topol_size T then do {
          x \<leftarrow> get_float m idx;
          if x \<ge> of_int current_val then do {
            m \<leftarrow> py_set m idx (py_max x candidate);
            m \<leftarrow> py_set m (idx + 1) (I (100 - candidate));
            m \<leftarrow> py_set m (idx + 5) (I (100 - candidate));
            m \<leftarrow> py_set m (idx + 2) (S (max_freq T));
            Some (m, core_count + 1)
          } else Some (m, core_count)
        } else Some (m, core_count))"

definition throttle_core :: "topology \<Rightarrow> int \<Rightarrow> int \<Rightarrow> feat list \<times> int \<Rightarrow> (feat list \<times> int) option" where
  "throttle_core T throttle core mc =
    (let (m, core_count) = mc; idx = core * core_info_count T
     in if idx < topol_size T then do {
          x \<leftarrow> get_float m idx;
          m \<leftarrow> py_set m idx (py_min x throttle);
          (m, core_count) \<leftarrow>
            (if idx + 1 < topol_size T then do {
               y \<leftarrow> get_float m (idx + 1);
               if y < of_int (100 - throttle)
               then map_option (\<lambda>m. (m, core_count + 1)) (py_set m (idx + 1) (I (100 - throttle)))
               else Some (m, core_count)
             } else Some (m, core_count));
          if idx + 5 < topol_size T then do {
            z \<leftarrow> get_float m (idx + 5);
            if z < of_int (100 - throttle) then do {
              m \<leftarrow> py_set m (idx + 5) (I (100 - throttle));
              m \<leftarrow> py_set m (idx + 2) (S (max_freq T));
              Some (m, core_count)
            } else Some (m, core_count)
          } else Some (m, core_count)
        } else Some (m, core_count))"

definition minimum_core :: "topology \<Rightarrow> int \<Rightarrow> feat list \<Rightarrow> feat list option" where
  "minimum_core T core m =
    (let idx = core * core_info_count T
     in if idx < topol_size T then do {
          m \<leftarrow> py_set m idx (S 1);
          m \<leftarrow> py_set m (idx + 1) (S (100 - 1));
          m \<leftarrow> py_set m (idx + 5) (S (100 - 1));
          py_set m (idx + 2) (S (max_freq T))
        } else Some m)"

subsection \<open>Raising the bandwidth\<close>

text \<open>The count of the cores is not reset between the candidates.\<close>

fun recover_scan ::
    "topology \<Rightarrow> pip \<Rightarrow> (feat list \<Rightarrow> double option) \<Rightarrow> feat list \<Rightarrow> int list \<Rightarrow> cgroup \<Rightarrow> int \<Rightarrow> int list \<Rightarrow> int option option" where
  "recover_scan T s predict feature_map cores g core_count [] = Some None"
| "recover_scan T s predict feature_map cores g core_count (candidate # cs) = do {
     (new_map, core_count) \<leftarrow> fold_opt (recover_core T (bandwidth s g) candidate) cores (feature_map, core_count);
     new_map \<leftarrow> update_feature_map_generic T s new_map candidate core_count g;
     p \<leftarrow> predict new_map;
     if f_add p (calibration_offset s) \<le> f_add (f_int (target_power s)) (calibration_offset s) then Some (Some candidate)
     else recover_scan T s predict feature_map cores g core_count cs
   }"

definition recover_bandwidth :: "topology \<Rightarrow> env \<Rightarrow> feat list \<Rightarrow> cgroup \<Rightarrow> pip \<Rightarrow> int option \<times> pip" where
  "recover_bandwidth T e feature_map g s =
    (case do {
       predict \<leftarrow> regression e;
       recover_scan T s predict feature_map (group_cores T e g) g 0 (range_down 100 (bandwidth s g))
     } of
       None \<Rightarrow> (None, s)
     | Some None \<Rightarrow> (Some (bandwidth s g), s)
     | Some (Some candidate) \<Rightarrow> (Some candidate, s\<lparr>used_map := True\<rparr>))"

text \<open>The map and the prediction are local: the function only sets \<^verbatim>\<open>used_map\<close>, or raises.\<close>

definition predict_featuremap :: "topology \<Rightarrow> env \<Rightarrow> feat list \<Rightarrow> cgroup \<Rightarrow> int \<Rightarrow> pip \<Rightarrow> bool \<times> pip" where
  "predict_featuremap T e feature_map g throttle s =
    (let s = s\<lparr>used_map := True\<rparr>
     in (do {
       predict \<leftarrow> regression e;
       (modified_map, core_count) \<leftarrow>
         (if throttle > bandwidth s g
          then fold_opt (recover_core T (current_bandwidth s) throttle) (group_cores T e g) (feature_map, 0)
          else fold_opt (throttle_core T throttle) (group_cores T e g) (feature_map, 0));
       modified_map \<leftarrow> update_feature_map_generic T s modified_map throttle core_count g;
       predict modified_map
     } \<noteq> None, s))"

text \<open>The same code for the one group and the other.\<close>

definition raise_value :: "topology \<Rightarrow> env \<Rightarrow> feat list \<Rightarrow> double \<Rightarrow> cgroup \<Rightarrow> pip \<Rightarrow> int option \<times> pip" where
  "raise_value T e feature_map gap g s =
    (if gap < 10 then (Some (bandwidth s g + 1), s)
     else case recover_bandwidth T e feature_map g s of
            (None, s) \<Rightarrow> (None, s)
          | (Some candidate, s) \<Rightarrow>
              (Some (if candidate = bandwidth s g \<or> bandwidth s g < 10 then min (bandwidth s g + 5) 100 else candidate), s))"

definition raise_group :: "topology \<Rightarrow> env \<Rightarrow> feat list \<Rightarrow> double \<Rightarrow> cgroup \<Rightarrow> pip \<Rightarrow> bool \<times> pip" where
  "raise_group T e feature_map gap g s =
    (case raise_value T e feature_map gap g s of
       (None, s) \<Rightarrow> (False, s)
     | (Some new_val, s) \<Rightarrow>
         let new_val = min new_val 100;
             s = set_cpu_limit e g new_val (group_cores T e g) s;
             (ok, s) = predict_featuremap T e feature_map g new_val s
         in if ok then (True, set_bandwidth g new_val s) else (False, s))"

definition increase_bandwidth :: "topology \<Rightarrow> env \<Rightarrow> feat list \<Rightarrow> double \<Rightarrow> pip \<Rightarrow> bool \<times> pip" where
  "increase_bandwidth T e feature_map gap s =
    (let s = s\<lparr>used_map := False\<rparr>
     in if current_bandwidth2 s < 100 then
          let s = s\<lparr>current_bandwidth := 1\<rparr>;
              s = set_cpu_limit e User (current_bandwidth s) (get_user_cores e) s;
              (ok, s) = predict_featuremap T e feature_map User (current_bandwidth s) s
          in if ok then raise_group T e feature_map gap Critical s else (False, s)
        else if current_bandwidth s < 100 then raise_group T e feature_map gap User s
        else (True, s))"

subsection \<open>Lowering the bandwidth\<close>

fun cap_scan ::
    "topology \<Rightarrow> pip \<Rightarrow> (feat list \<Rightarrow> double option) \<Rightarrow> feat list \<Rightarrow> int list \<Rightarrow> cgroup \<Rightarrow> int \<Rightarrow> (feat list \<times> double) option \<Rightarrow>
      int list \<Rightarrow> (int option \<times> (feat list \<times> double) option) option" where
  "cap_scan T s predict feature_map cores g core_count last_try [] = Some (None, last_try)"
| "cap_scan T s predict feature_map cores g core_count last_try (throttle # ts) = do {
     (modified_map, core_count) \<leftarrow> fold_opt (throttle_core T throttle) cores (feature_map, core_count);
     modified_map \<leftarrow> update_feature_map_generic T s modified_map throttle core_count g;
     prediction \<leftarrow> predict modified_map;
     if f_add prediction (calibration_offset s) \<le> f_int (target_power s) then Some (Some throttle, Some (modified_map, prediction))
     else cap_scan T s predict feature_map cores g core_count (Some (modified_map, prediction)) ts
   }"

definition count_retry :: "pip \<Rightarrow> pip" where
  "count_retry s = (if prev s = 1 then s\<lparr>retry := retry s + 1\<rparr> else s\<lparr>retry := 0\<rparr>)"

definition critical_power_capping :: "topology \<Rightarrow> env \<Rightarrow> feat list \<Rightarrow> pip \<Rightarrow> bool \<times> pip" where
  "critical_power_capping T e feature_map s =
    (case regression e of
       None \<Rightarrow> (False, s)
     | Some predict \<Rightarrow>
         let s = count_retry s;
             critical_cores = get_critical_cores T e
         in case cap_scan T s predict feature_map critical_cores Critical 0 None (range_down (current_bandwidth2 s) 0) of
              None \<Rightarrow> (False, s)
            | Some (found, last_try) \<Rightarrow>
                let s = set_cpu_limit e Critical (case found of None \<Rightarrow> 1 | Some t \<Rightarrow> t) critical_cores s
                in case last_try of
                     None \<Rightarrow> (False, s)
                   | Some (m, p) \<Rightarrow> (True, s\<lparr>predictive_feature_map := m, prev_prediction := p\<rparr>))"

text \<open>The step of a limit when the power is close to the budget.\<close>

definition baby_step :: "double \<Rightarrow> int \<Rightarrow> int \<Rightarrow> int" where
  "baby_step watts target v = (if watts < of_int target then max (v - 5) 1 else max (v - 10) 1)"

definition strict_search :: "topology \<Rightarrow> env \<Rightarrow> feat list \<Rightarrow> pip \<Rightarrow> (int \<times> int) option \<times> pip" where
  "strict_search T e feature_map s =
    (let s = count_retry s;
         user_cores = get_user_cores e
     in case do {
          predict \<leftarrow> regression e;
          if current_bandwidth s > 5
          then cap_scan T s predict feature_map user_cores User 0 None (range_down (current_bandwidth s - 5) 0)
          else Some (None, None)
        } of
          None \<Rightarrow> (None, s)
        | Some (Some throttle, last_try) \<Rightarrow>
            let s = (case last_try of None \<Rightarrow> s | Some (m, p) \<Rightarrow> s\<lparr>predictive_feature_map := m, prev_prediction := p\<rparr>);
                s = set_cpu_limit e User throttle user_cores s
            in (Some (throttle, current_bandwidth2 s), s)
        | Some (None, last_try) \<Rightarrow>
            (case fold_opt (minimum_core T) user_cores feature_map of
               None \<Rightarrow> (None, s)
             | Some modified_map \<Rightarrow>
                 let (ok, s) = critical_power_capping T e modified_map s
                 in if \<not> ok then (None, s)
                    else let s = set_cpu_limit e User 1 user_cores s in (Some (1, current_bandwidth2 s), s)))"

definition strict_power_capping :: "topology \<Rightarrow> env \<Rightarrow> double \<Rightarrow> feat list \<Rightarrow> pip \<Rightarrow> (int \<times> int) option \<times> pip" where
  "strict_power_capping T e watts feature_map s =
    (if f_sub watts (f_int (target_power s)) < TOLERANCE then
       if current_bandwidth s > 1 then
         let new_throttle = baby_step watts (target_power s) (current_bandwidth s);
             s = set_cpu_limit e User new_throttle (get_user_cores e) s;
             s = s\<lparr>current_bandwidth := new_throttle\<rparr>
         in (Some (new_throttle, current_bandwidth2 s), s)
       else if current_bandwidth2 s > 1 then
         let new_throttle = baby_step watts (target_power s) (current_bandwidth2 s);
             s = set_cpu_limit e Critical new_throttle (get_critical_cores T e) s;
             s = s\<lparr>current_bandwidth2 := new_throttle\<rparr>
         in (Some (current_bandwidth s, new_throttle), s)
       else (Some (current_bandwidth s, current_bandwidth2 s), s)
     else strict_search T e feature_map s)"

subsection \<open>The control loop\<close>

definition upper_mark :: "int \<Rightarrow> double" where
  "upper_mark target = f_mul (f_int target) (f_sub 1 ceiling_ratio)"

definition lower_mark :: "int \<Rightarrow> double" where
  "lower_mark target = f_mul (f_int target) (f_sub 1 (f_mul ceiling_ratio 2))"

definition calibrate :: "topology \<Rightarrow> double \<Rightarrow> feat list \<Rightarrow> pip \<Rightarrow> bool \<times> pip" where
  "calibrate T watts metrics_data s =
    (if used_map s then
       update_adjustment T (predictive_feature_map s) metrics_data
         (s\<lparr>calibration_offset := f_add (f_mul smoothing_cal (calibration_offset s))
              (f_mul (f_sub 1 smoothing_cal) (f_sub watts (prev_prediction s)))\<rparr>)
     else (True, s))"

definition adjust :: "topology \<Rightarrow> env \<Rightarrow> double \<Rightarrow> feat list \<Rightarrow> pip \<Rightarrow> bool \<times> pip" where
  "adjust T e watts metrics_data s =
    (let (ok, s) = calibrate T watts metrics_data s
     in if \<not> ok then (False, s)
        else
          let s = s\<lparr>used_map := False\<rparr>
          in if watts \<ge> upper_mark (target_power s) then
               (case strict_power_capping T e watts metrics_data s of
                  (None, s) \<Rightarrow> (False, s)
                | (Some (a, b), s) \<Rightarrow>
                    (True, s\<lparr>current_bandwidth := a, current_bandwidth2 := b, prev := 1, retry := retry s + 1, used_map := True\<rparr>))
             else if watts < lower_mark (target_power s) then
               let (ok, s) = increase_bandwidth T e metrics_data (f_sub (f_int (target_power s)) watts) s
               in if ok then (True, s\<lparr>prev := 0\<rparr>) else (False, s)
             else (True, s\<lparr>retry := 0, prev := 0, used_map := False\<rparr>))"

text \<open>One iteration of the loop of \<^verbatim>\<open>run_stress_test\<close>. An error in the samples skips the rest.\<close>

definition pip_iteration :: "topology \<Rightarrow> env \<Rightarrow> pip \<Rightarrow> bool \<times> pip" where
  "pip_iteration T e s =
    (case Option.bind (budget_file e) (\<lambda>text. py_int (first_line text)) of
       None \<Rightarrow> (True, s)
     | Some budget \<Rightarrow>
         let s = s\<lparr>target_power := budget, actual_power := measured e\<rparr>
         in case measured e of
              None \<Rightarrow> (True, s)
            | Some watts \<Rightarrow>
                if \<not> full_mode s then
                  (True, if watts \<ge> upper_mark (target_power s) then s\<lparr>full_mode := True\<rparr> else s)
                else (case metrics e of
                    None \<Rightarrow> (True, s)
                  | Some metrics_data \<Rightarrow>
                      adjust T e watts metrics_data
                        (if predictive_feature_map s = [] then s\<lparr>predictive_feature_map := metrics_data\<rparr> else s)))"

text \<open>An exception ends the thread; the main loop starts the next one, which resets two of the globals.\<close>

definition pip_restart :: "pip \<Rightarrow> pip" where
  "pip_restart s = s\<lparr>calibration_offset := 0, current_bandwidth := 100\<rparr>"

fun pip_run :: "topology \<Rightarrow> env list \<Rightarrow> pip \<Rightarrow> bool \<times> pip" where
  "pip_run T [] s = (True, s)"
| "pip_run T (e # es) s =
    (let (ok, s) = pip_iteration T e s; (ok', s) = pip_run T es (if ok then s else pip_restart s) in (ok \<and> ok', s))"

end
