(* ===== verification/Pip_Quota.thy ===== *)
theory Pip_Quota
  imports Pip_Control
begin

text \<open>
  The limits of the power controller: the quota written for a percentage, the percentage read back from it in doubles, and
  what \<^verbatim>\<open>set_cpu_limit\<close> does to the state.
\<close>

subsection \<open>The quota and its percentage\<close>

text \<open>The value that comes back for a throttle: 29, 57 and 58 percent are read as one percent less.\<close>

definition drift :: "int \<Rightarrow> int" where
  "drift t = (if t = 29 \<or> t = 57 \<or> t = 58 then t - 1 else t)"

lemmas float_eval = f_trunc_def rne_def ulp_exp_def scale_def half_even_def bits.simps Let_def

definition percent_back :: "int \<Rightarrow> int" where
  "percent_back t = f_trunc (rne (rne (of_int t / 100) * 100))"

definition percent_tens :: "int \<Rightarrow> bool" where
  "percent_tens a \<longleftrightarrow> list_all (\<lambda>k. percent_back (a + k) = drift (a + k)) [0, 1, 2, 3, 4, 5, 6, 7, 8, 9]"

lemma percent_tens_all:
  shows "percent_tens 1"
    "percent_tens 11"
    "percent_tens 21"
    "percent_tens 31"
    "percent_tens 41"
    "percent_tens 51"
    "percent_tens 61"
    "percent_tens 71"
    "percent_tens 81"
    "percent_tens 91"
  by (simp_all add: percent_tens_def percent_back_def drift_def float_eval)

lemma percent_back_drift:
  assumes "1 \<le> t" and "t \<le> 100"
  shows "percent_back t = drift t"
proof -
  define q r where "q = (t - 1) div 10" and "r = (t - 1) mod 10"
  have t: "10 * q + 1 + r = t" unfolding q_def r_def using mult_div_mod_eq [of 10 "t - 1"] by linarith
  have "0 \<le> q" "q \<le> 9" using assms by (auto simp: q_def)
  then have "q = 0 \<or> q = 1 \<or> q = 2 \<or> q = 3 \<or> q = 4 \<or> q = 5 \<or> q = 6 \<or> q = 7 \<or> q = 8 \<or> q = 9" by presburger
  then have p: "percent_tens (10 * q + 1)" using percent_tens_all by (elim disjE) simp_all
  have "0 \<le> r" "r \<le> 9" using pos_mod_bound [of 10 "t - 1"] by (auto simp: r_def)
  then have "r = 0 \<or> r = 1 \<or> r = 2 \<or> r = 3 \<or> r = 4 \<or> r = 5 \<or> r = 6 \<or> r = 7 \<or> r = 8 \<or> r = 9" by presburger
  then have "percent_back (10 * q + 1 + r) = drift (10 * q + 1 + r)" using p unfolding percent_tens_def by (elim disjE) simp_all
  then show ?thesis by (simp only: t)
qed

lemma quota_of_exact: "0 \<le> n \<Longrightarrow> n < 2 ^ 30 \<Longrightarrow> 1 \<le> t \<Longrightarrow> t \<le> 100 \<Longrightarrow> quota_of n t = 1000 * n * t"
proof -
  assume a: "0 \<le> n" "n < 2 ^ 30" "1 \<le> t" "t \<le> 100"
  have b: "0 \<le> n * t" "n * t \<le> 2 ^ 30 * 100" using a by (simp, intro mult_mono) auto
  have "(of_int (100000 * n * t) :: real) / of_int 100 = of_int (1000 * n * t)" by simp
  moreover have "rne (of_int (1000 * n * t)) = of_int (1000 * n * t)" by (rule rne_int) (use b in \<open>simp add: mult.assoc\<close>)
  ultimately have "quota_of n t = f_trunc (of_int (1000 * n * t))" by (simp only: quota_of_def)
  moreover have "\<not> real_of_int (1000 * n * t) < 0" using b(1) by (simp only: of_int_less_0_iff not_less mult.assoc)
  ultimately show ?thesis by (simp only: f_trunc_def if_False floor_of_int)
qed

lemma quota_percent_drift:
  "0 < n \<Longrightarrow> n < 2 ^ 30 \<Longrightarrow> 1 \<le> t \<Longrightarrow> t \<le> 100 \<Longrightarrow> quota_percent (quota_of n t) n = drift t"
proof -
  assume a: "0 < n" "n < 2 ^ 30" "1 \<le> t" "t \<le> 100"
  have "(of_int (1000 * n * t) :: real) / of_int (100000 * n) = of_int t / 100" using a(1) by (simp add: field_simps)
  moreover have "f_int 100 = 100" using rne_int [of 100] by (simp add: f_int_def)
  ultimately show ?thesis using a percent_back_drift [OF a(3,4)] by (simp only: quota_percent_def quota_of_exact f_mul_def less_imp_le percent_back_def)
qed

lemma drift_bounds: "1 \<le> t \<Longrightarrow> t \<le> 100 \<Longrightarrow> 1 \<le> drift t \<and> drift t \<le> t \<and> t - 1 \<le> drift t \<and> (drift t = 100 \<longleftrightarrow> t = 100)"
  by (auto simp: drift_def)

subsection \<open>The cores of a group\<close>

lemma cpuset_part_nonneg:
  assumes "cpuset_part p = Some cs" and "c \<in> set cs"
  shows "0 \<le> c"
proof (cases "CHR ''-'' \<in> set p")
  case True
  then obtain a b x y where "py_split CHR ''-'' p = [a, b]" and x: "py_int a = Some x" "cs = [x..y]"
    using assms(1) by (auto simp: cpuset_part_def bind_eq_Some_conv split: list.splits)
  then have "CHR ''-'' \<notin> set a" using py_split_parts [of a "CHR ''-''" p] by simp
  then show ?thesis using py_int_nonneg [OF x(1)] assms(2) x(2) by simp
next
  case False
  then show ?thesis using assms by (auto simp: cpuset_part_def intro: py_int_nonneg)
qed

lemma cpuset_parts_nonneg: "c \<in> set (cpuset_parts ps) \<Longrightarrow> 0 \<le> c"
  by (induction ps) (auto split: option.splits dest: cpuset_part_nonneg [OF sym])

lemma read_cpuset_nonneg: "c \<in> set (read_cpuset f) \<Longrightarrow> 0 \<le> c"
  by (auto simp: read_cpuset_def Let_def split: option.splits if_splits intro: cpuset_parts_nonneg)

lemma group_cores_nonneg: "c \<in> set (group_cores T e g) \<Longrightarrow> 0 \<le> c"
  by (cases g) (auto simp: get_user_cores_def get_critical_cores_def Let_def split: if_splits intro: read_cpuset_nonneg)

text \<open>The cores a quota is computed for and the cores it is read back for.\<close>

definition back_cores :: "env \<Rightarrow> cgroup \<Rightarrow> int list" where
  "back_cores e g = (if read_cpuset (effective g e) = [] then read_cpuset (cpus g e) else read_cpuset (effective g e))"

definition cores_agree :: "topology \<Rightarrow> env \<Rightarrow> bool" where
  "cores_agree T e \<longleftrightarrow> (\<forall>g \<in> {User, Critical}. length (group_cores T e g) = length (back_cores e g) \<and> length (back_cores e g) < 2 ^ 30)"

lemma read_back:
  assumes "cores_agree T e" and "1 \<le> t" and "t \<le> 100" and "read_cpu_max e g (s\<lparr>cpu_max := f(g := Some (quota_of (int (length (group_cores T e g))) t))\<rparr>) = Some v"
  shows "v = drift t"
proof -
  have c: "length (group_cores T e g) = length (back_cores e g)" "length (back_cores e g) < 2 ^ 30"
    using assms(1) by (cases g; simp add: cores_agree_def)+
  have v: "back_cores e g \<noteq> []" "v = quota_percent (quota_of (int (length (group_cores T e g))) t) (int (length (back_cores e g)))"
    using assms(4) by (auto simp: read_cpu_max_def back_cores_def Let_def split: if_splits)
  have "int (length (back_cores e g)) < 2 ^ 30" using c(2) by (simp flip: of_nat_less_iff)
  then show ?thesis unfolding v(2) c(1) by (rule quota_percent_drift [rotated]) (use v(1) assms(2,3) in auto)
qed

text \<open>The files of both groups can be written and read, and the groups have cores.\<close>

definition steady :: "env \<Rightarrow> bool" where
  "steady e \<longleftrightarrow> (\<forall>g \<in> {User, Critical}. (\<forall>q. writable e g q) \<and> readable e g \<and> back_cores e g \<noteq> [])"

lemma read_back_steady:
  assumes "steady e"
  shows "\<exists>v. read_cpu_max e g (s\<lparr>cpu_max := f(g := Some q)\<rparr>) = Some v"
  using assms by (cases g) (auto simp: steady_def read_cpu_max_def back_cores_def Let_def)

definition limit_quota :: "topology \<Rightarrow> env \<Rightarrow> cgroup \<Rightarrow> int \<Rightarrow> int" where
  "limit_quota T e g t = quota_of (int (length (group_cores T e g))) t"

text \<open>Setting a limit changes the file and the variable of that group only.\<close>

lemma set_cpu_limit_cases:
  assumes "cores_agree T e" and "1 \<le> t" and "t \<le> 100"
  obtains b f where "set_cpu_limit e g t (group_cores T e g) s = set_bandwidth g b (s\<lparr>cpu_max := f\<rparr>)"
    and "b = bandwidth s g \<or> b = drift t"
    and "steady e \<Longrightarrow> b = drift t \<and> f = (cpu_max s)(g := Some (limit_quota T e g t))"
proof -
  let ?f = "(cpu_max s)(g := Some (limit_quota T e g t))"
  have same: "s' = set_bandwidth g (bandwidth s' g) s'" for s' by (cases g) simp_all
  show thesis
  proof (cases "writable e g (limit_quota T e g t)")
    case False
    then have "set_cpu_limit e g t (group_cores T e g) s = set_bandwidth g (bandwidth s g) (s\<lparr>cpu_max := cpu_max s\<rparr>)"
      using same [of s] by (simp add: set_cpu_limit_def limit_quota_def)
    moreover have "\<not> steady e" using False by (cases g) (auto simp: steady_def)
    ultimately show ?thesis using that by blast
  next
    case True
    show ?thesis
    proof (cases "read_cpu_max e g (s\<lparr>cpu_max := ?f\<rparr>)")
      case None
      then have "set_cpu_limit e g t (group_cores T e g) s = s\<lparr>cpu_max := ?f\<rparr>"
        using True by (simp add: set_cpu_limit_def limit_quota_def Let_def)
      also have "\<dots> = set_bandwidth g (bandwidth s g) (s\<lparr>cpu_max := ?f\<rparr>)" by (cases g) simp_all
      finally show ?thesis using None read_back_steady that by (metis option.distinct(1))
    next
      case (Some v)
      then have "set_cpu_limit e g t (group_cores T e g) s = set_bandwidth g v (s\<lparr>cpu_max := ?f\<rparr>)"
        using True by (simp add: set_cpu_limit_def limit_quota_def Let_def)
      then show ?thesis by (rule that) (use read_back [OF assms Some [unfolded limit_quota_def]] in simp_all)
    qed
  qed
qed

end
