(* ===== verification/Pip_Search.thy ===== *)
theory Pip_Search
  imports Pip_Quota
begin

text \<open>
  The feature maps of the power controller stay well formed, and its searches for a bandwidth return: on metrics that are
  numbers, with a model that predicts a power for every map of their length, nothing raises.
\<close>

subsection \<open>Feature maps stay well formed\<close>

definition map_ok :: "nat \<Rightarrow> feat list \<Rightarrow> bool" where
  "map_ok n m \<longleftrightarrow> length m = n \<and> Bad \<notin> set m"

definition topology_ok :: "topology \<Rightarrow> nat \<Rightarrow> bool" where
  "topology_ok T n \<longleftrightarrow> 0 < num_cores T \<and> 6 \<le> core_info_count T \<and> topol_size T = num_cores T * core_info_count T \<and>
     topol_size T \<le> int n \<and> 0 \<le> direct_metrics_size T"

lemma float_ok: "map_ok n m \<Longrightarrow> 0 \<le> i \<Longrightarrow> i < int n \<Longrightarrow> \<exists>x. get_float m i = Some x"
proof -
  assume a: "map_ok n m" "0 \<le> i" "i < int n"
  then have "nat i < length m" by (simp add: map_ok_def)
  then have "m ! nat i \<noteq> Bad" using a(1) nth_mem by (fastforce simp: map_ok_def)
  then show ?thesis using a by (cases "m ! nat i") (auto simp: map_ok_def py_get_ok get_float_def)
qed

lemma set_ok: "map_ok n m \<Longrightarrow> v \<noteq> Bad \<Longrightarrow> 0 \<le> i \<Longrightarrow> i < int n \<Longrightarrow> \<exists>m'. py_set m i v = Some m' \<and> map_ok n m'"
  by (auto simp: map_ok_def py_set_ok dest!: set_update_subset_insert [THEN subsetD])

lemma py_max_min_ok [simp]: "py_max x t \<noteq> Bad" "py_min x t \<noteq> Bad"
  by (simp_all add: py_max_def py_min_def)

lemma core_index:
  assumes "topology_ok T n" and "0 \<le> core" and "core * core_info_count T < topol_size T"
  shows "0 \<le> core * core_info_count T" and "core * core_info_count T + 5 < topol_size T" and "topol_size T \<le> int n"
proof -
  have c: "6 \<le> core_info_count T" "topol_size T = num_cores T * core_info_count T" "topol_size T \<le> int n"
    using assms(1) by (simp_all add: topology_ok_def)
  have "core < num_cores T" using assms(3) c(1,2) by (simp add: mult_less_cancel_right)
  then have "(core + 1) * core_info_count T \<le> num_cores T * core_info_count T" using c(1) by (intro mult_right_mono) auto
  then show "core * core_info_count T + 5 < topol_size T" using c by (simp add: distrib_right)
  show "0 \<le> core * core_info_count T" using assms(2) c(1) by simp
  show "topol_size T \<le> int n" by (rule c(3))
qed

lemma recover_core_ok:
  assumes "topology_ok T n" and "0 \<le> core" and "map_ok n (fst mc)"
  shows "\<exists>mc'. recover_core T v c core mc = Some mc' \<and> map_ok n (fst mc')"
proof (cases "core * core_info_count T < topol_size T")
  case True
  let ?i = "core * core_info_count T"
  note i = core_index [OF assms(1,2) True]
  obtain m k where mc: "mc = (m, k)" and m: "map_ok n m" using assms(3) by (cases mc) auto
  obtain x where x: "get_float m ?i = Some x" using float_ok [OF m, of ?i] i by auto
  obtain m1 where m1: "py_set m ?i (py_max x c) = Some m1" "map_ok n m1" using set_ok [OF m, of "py_max x c" "?i"] i by auto
  obtain m2 where m2: "py_set m1 (?i + 1) (I (100 - c)) = Some m2" "map_ok n m2" using set_ok [OF m1(2), of "I (100 - c)" "?i + 1"] i by auto
  obtain m3 where m3: "py_set m2 (?i + 5) (I (100 - c)) = Some m3" "map_ok n m3" using set_ok [OF m2(2), of "I (100 - c)" "?i + 5"] i by auto
  obtain m4 where m4: "py_set m3 (?i + 2) (S (max_freq T)) = Some m4" "map_ok n m4" using set_ok [OF m3(2), of "S (max_freq T)" "?i + 2"] i by auto
  show ?thesis using True mc m x m1 m2 m3 m4 by (simp add: recover_core_def Let_def)
qed (use assms in \<open>simp add: recover_core_def split_beta\<close>)

lemma throttle_core_ok:
  assumes "topology_ok T n" and "0 \<le> core" and "map_ok n (fst mc)"
  shows "\<exists>mc'. throttle_core T t core mc = Some mc' \<and> map_ok n (fst mc')"
proof (cases "core * core_info_count T < topol_size T")
  case True
  let ?i = "core * core_info_count T"
  note i = core_index [OF assms(1,2) True]
  obtain m k where mc: "mc = (m, k)" and m: "map_ok n m" using assms(3) by (cases mc) auto
  obtain x where x: "get_float m ?i = Some x" using float_ok [OF m, of ?i] i by auto
  obtain m1 where m1: "py_set m ?i (py_min x t) = Some m1" "map_ok n m1" using set_ok [OF m, of "py_min x t" "?i"] i by auto
  obtain y where y: "get_float m1 (?i + 1) = Some y" using float_ok [OF m1(2), of "?i + 1"] i by auto
  obtain m2 where m2: "py_set m1 (?i + 1) (I (100 - t)) = Some m2" "map_ok n m2" using set_ok [OF m1(2), of "I (100 - t)" "?i + 1"] i by auto
  define mk where "mk = (if y < of_int (100 - t) then (m2, k + 1) else (m1, k))"
  have mk: "map_ok n (fst mk)" using m1 m2 by (simp add: mk_def)
  obtain z where z: "get_float (fst mk) (?i + 5) = Some z" using float_ok [OF mk, of "?i + 5"] i by auto
  obtain m3 where m3: "py_set (fst mk) (?i + 5) (I (100 - t)) = Some m3" "map_ok n m3" using set_ok [OF mk, of "I (100 - t)" "?i + 5"] i by auto
  obtain m4 where m4: "py_set m3 (?i + 2) (S (max_freq T)) = Some m4" "map_ok n m4" using set_ok [OF m3(2), of "S (max_freq T)" "?i + 2"] i by auto
  have "throttle_core T t core mc = Some (if z < of_int (100 - t) then (m4, snd mk) else mk)"
    using True i mc x m1(1) y m2(1) z m3(1) m4(1) by (simp add: throttle_core_def mk_def Let_def split: if_splits)
  then show ?thesis using m4(2) mk by auto
qed (use assms in \<open>simp add: throttle_core_def split_beta\<close>)

lemma minimum_core_ok:
  assumes "topology_ok T n" and "0 \<le> core" and m: "map_ok n m"
  shows "\<exists>m'. minimum_core T core m = Some m' \<and> map_ok n m'"
proof (cases "core * core_info_count T < topol_size T")
  case True
  let ?i = "core * core_info_count T"
  note i = core_index [OF assms(1,2) True]
  obtain m1 where m1: "py_set m ?i (S 1) = Some m1" "map_ok n m1" using set_ok [OF m, of "S 1" "?i"] i by auto
  obtain m2 where m2: "py_set m1 (?i + 1) (S (100 - 1)) = Some m2" "map_ok n m2" using set_ok [OF m1(2), of "S (100 - 1)" "?i + 1"] i by auto
  obtain m3 where m3: "py_set m2 (?i + 5) (S (100 - 1)) = Some m3" "map_ok n m3" using set_ok [OF m2(2), of "S (100 - 1)" "?i + 5"] i by auto
  obtain m4 where m4: "py_set m3 (?i + 2) (S (max_freq T)) = Some m4" "map_ok n m4" using set_ok [OF m3(2), of "S (max_freq T)" "?i + 2"] i by auto
  show ?thesis using True m1 m2 m3 m4 by (simp add: minimum_core_def Let_def)
qed (use assms in \<open>simp add: minimum_core_def\<close>)

lemma update_feature_map_ok:
  assumes "topology_ok T n" and "map_ok n m" and "bandwidth s g \<noteq> 0"
  shows "\<exists>m'. update_feature_map_generic T s m t k g = Some m' \<and> map_ok n m'"
proof -
  obtain a where a: "int_div k (num_cores T) = Some a" using assms(1) by (simp add: int_div_def topology_ok_def)
  obtain r where r: "int_div t (bandwidth s g) = Some r" using assms(3) by (simp add: int_div_def)
  show ?thesis
    unfolding update_feature_map_generic_def a r bind.bind_lunit Let_def
  proof (rule fold_opt_inv [where P = "map_ok n", OF assms(2)])
    fix i m'
    assume i: "i \<in> set [direct_metrics_size T..int (length m) - 1]" and m': "map_ok n m'"
    then have "0 \<le> i" "i < int n" using assms(1,2) by (auto simp: topology_ok_def map_ok_def)
    then show "\<exists>m''. Option.bind (get_float m' i) (\<lambda>base. py_set m' i (F (f_mul base (f_add (f_sub 1 a)
        (f_mul a (f_add 1 (f_mul (case adjustment_ratio s i of None \<Rightarrow> 0 | Some r \<Rightarrow> r) (f_sub r 1)))))))) = Some m'' \<and> map_ok n m''"
      using float_ok [OF m', of i] set_ok [OF m', of "F x" i for x] by auto
  qed
qed

subsection \<open>The searches return\<close>

definition inputs_ok :: "topology \<Rightarrow> nat \<Rightarrow> env \<Rightarrow> bool" where
  "inputs_ok T n e \<longleftrightarrow> cores_agree T e \<and> (\<forall>m. metrics e = Some m \<longrightarrow> map_ok n m) \<and>
     (\<exists>f. regression e = Some f \<and> (\<forall>m. map_ok n m \<longrightarrow> f m \<noteq> None))"

definition total_on :: "nat \<Rightarrow> (feat list \<Rightarrow> double option) \<Rightarrow> bool" where
  "total_on n f \<longleftrightarrow> (\<forall>m. map_ok n m \<longrightarrow> f m \<noteq> None)"

lemma inputs_okE:
  assumes "inputs_ok T n e"
  obtains f where "regression e = Some f" and "total_on n f"
  using assms by (auto simp: inputs_ok_def total_on_def)

lemma group_cores_all: "\<forall>c \<in> set (group_cores T e g). 0 \<le> c"
  using group_cores_nonneg by blast

lemma recover_cores_ok:
  assumes "topology_ok T n" and "map_ok n m" and "\<forall>c \<in> set cores. 0 \<le> c"
  obtains m' k' where "fold_opt (recover_core T v t) cores (m, k) = Some (m', k')" and "map_ok n m'"
proof -
  have "\<exists>mk. fold_opt (recover_core T v t) cores (m, k) = Some mk \<and> map_ok n (fst mk)"
    by (rule fold_opt_inv) (use assms(2) in simp, rule recover_core_ok [OF assms(1)], rule bspec [OF assms(3)], assumption+)
  then show thesis using that by auto
qed

lemma throttle_cores_ok:
  assumes "topology_ok T n" and "map_ok n m" and "\<forall>c \<in> set cores. 0 \<le> c"
  obtains m' k' where "fold_opt (throttle_core T t) cores (m, k) = Some (m', k')" and "map_ok n m'"
proof -
  have "\<exists>mk. fold_opt (throttle_core T t) cores (m, k) = Some mk \<and> map_ok n (fst mk)"
    by (rule fold_opt_inv) (use assms(2) in simp, rule throttle_core_ok [OF assms(1)], rule bspec [OF assms(3)], assumption+)
  then show thesis using that by auto
qed

lemma minimum_cores_ok:
  assumes "topology_ok T n" and "map_ok n m" and "\<forall>c \<in> set cores. 0 \<le> c"
  obtains m' where "fold_opt (minimum_core T) cores m = Some m'" and "map_ok n m'"
proof -
  have "\<exists>m'. fold_opt (minimum_core T) cores m = Some m' \<and> map_ok n m'"
    by (rule fold_opt_inv) (use assms(2) in simp, rule minimum_core_ok [OF assms(1)], rule bspec [OF assms(3)], assumption+)
  then show thesis using that by auto
qed

lemma recover_scan_ok:
  assumes "topology_ok T n" and "map_ok n m" and "\<forall>c \<in> set cores. 0 \<le> c" and "total_on n f" and "bandwidth s g \<noteq> 0"
  shows "\<exists>r. recover_scan T s f m cores g k cs = Some r \<and> (\<forall>c. r = Some c \<longrightarrow> c \<in> set cs)"
proof (induction cs arbitrary: k)
  case (Cons c cs)
  obtain m1 k1 where m1: "fold_opt (recover_core T (bandwidth s g) c) cores (m, k) = Some (m1, k1)" "map_ok n m1"
    by (rule recover_cores_ok [OF assms(1-3)])
  obtain m2 where m2: "update_feature_map_generic T s m1 c k1 g = Some m2" "map_ok n m2"
    using update_feature_map_ok [OF assms(1) m1(2) assms(5)] by blast
  obtain p where "f m2 = Some p" using assms(4) m2(2) by (auto simp: total_on_def)
  then show ?case using m1(1) m2(1) Cons.IH [of k1] by auto
qed simp

lemma cap_scan_ok:
  assumes "topology_ok T n" and "map_ok n m" and "\<forall>c \<in> set cores. 0 \<le> c" and "total_on n f" and "bandwidth s g \<noteq> 0"
    and "\<forall>m' p. l = Some (m', p) \<longrightarrow> map_ok n m'"
  shows "\<exists>r l'. cap_scan T s f m cores g k l ts = Some (r, l') \<and> (\<forall>t. r = Some t \<longrightarrow> t \<in> set ts) \<and>
    (l \<noteq> None \<or> ts \<noteq> [] \<longrightarrow> l' \<noteq> None) \<and> (\<forall>m' p. l' = Some (m', p) \<longrightarrow> map_ok n m')"
  using assms(6)
proof (induction ts arbitrary: k l)
  case (Cons t ts)
  obtain m1 k1 where m1: "fold_opt (throttle_core T t) cores (m, k) = Some (m1, k1)" "map_ok n m1"
    by (rule throttle_cores_ok [OF assms(1-3)])
  obtain m2 where m2: "update_feature_map_generic T s m1 t k1 g = Some m2" "map_ok n m2"
    using update_feature_map_ok [OF assms(1) m1(2) assms(5)] by blast
  obtain p where p: "f m2 = Some p" using assms(4) m2(2) by (auto simp: total_on_def)
  have "\<forall>m' p'. Some (m2, p) = Some (m', p') \<longrightarrow> map_ok n m'" using m2(2) by simp
  from Cons.IH [OF this, of k1] show ?case using m1(1) m2 p by auto
qed auto

lemma recover_bandwidth_ok:
  assumes "topology_ok T n" and "inputs_ok T n e" and "map_ok n m" and "bandwidth s g \<noteq> 0"
  obtains c b where "recover_bandwidth T e m g s = (Some c, s\<lparr>used_map := b\<rparr>)"
    and "c = bandwidth s g \<or> bandwidth s g < c \<and> c \<le> 100"
proof -
  obtain f where f: "regression e = Some f" "total_on n f" by (rule inputs_okE [OF assms(2)])
  obtain r where r: "recover_scan T s f m (group_cores T e g) g 0 (range_down 100 (bandwidth s g)) = Some r"
      "\<And>c. r = Some c \<Longrightarrow> c \<in> set (range_down 100 (bandwidth s g))"
    using recover_scan_ok [OF assms(1,3) group_cores_all f(2) assms(4)] by blast
  show thesis
  proof (cases r)
    case None
    then show ?thesis using that [of "bandwidth s g" "used_map s"] f(1) r(1) by (simp add: recover_bandwidth_def)
  next
    case (Some c)
    then show ?thesis using that [of c True] f(1) r(1) range_down_bounds [OF r(2) [OF Some]] by (simp add: recover_bandwidth_def)
  qed
qed

lemma predict_featuremap_ok:
  assumes "topology_ok T n" and "inputs_ok T n e" and "map_ok n m" and "bandwidth s g \<noteq> 0"
  shows "predict_featuremap T e m g t s = (True, s\<lparr>used_map := True\<rparr>)"
proof -
  let ?s = "s\<lparr>used_map := True\<rparr>"
  have b: "bandwidth ?s g \<noteq> 0" using assms(4) by (cases g) simp_all
  obtain f where f: "regression e = Some f" "total_on n f" by (rule inputs_okE [OF assms(2)])
  obtain m1 k1 where m1: "(if t > bandwidth ?s g
          then fold_opt (recover_core T (current_bandwidth ?s) t) (group_cores T e g) (m, 0)
          else fold_opt (throttle_core T t) (group_cores T e g) (m, 0)) = Some (m1, k1)" "map_ok n m1"
    using recover_cores_ok [OF assms(1,3) group_cores_all]
      throttle_cores_ok [OF assms(1,3) group_cores_all] by metis
  obtain m2 where m2: "update_feature_map_generic T ?s m1 t k1 g = Some m2" "map_ok n m2"
    using update_feature_map_ok [OF assms(1) m1(2) b] by blast
  obtain p where "f m2 = Some p" using f(2) m2(2) by (auto simp: total_on_def)
  then show ?thesis unfolding predict_featuremap_def Let_def f(1) bind.bind_lunit m1(1) using m2(1) by simp
qed

end
