(* ===== verification/Pip_Safety.thy ===== *)
theory Pip_Safety
  imports Pip_Search
begin

text \<open>
  The steps of the power controller and its runs. Raising a bandwidth and lowering one are taken apart into what they do to
  the two variables and to the two files; an iteration combines them, and the properties are about runs from the start of
  the program.
\<close>

subsection \<open>Raising\<close>

lemma set_bandwidth_simps [simp]:
  "bandwidth (set_bandwidth g v s) g = v" "set_bandwidth g v (set_bandwidth g w s) = set_bandwidth g v s"
  "bandwidth (s\<lparr>used_map := b\<rparr>) g = bandwidth s g" "bandwidth (s\<lparr>cpu_max := f\<rparr>) g = bandwidth s g"
  "(set_bandwidth g v s)\<lparr>used_map := b\<rparr> = set_bandwidth g v (s\<lparr>used_map := b\<rparr>)"
  "(set_bandwidth g v s)\<lparr>cpu_max := f\<rparr> = set_bandwidth g v (s\<lparr>cpu_max := f\<rparr>)"
  by (cases g; simp)+

text \<open>
  What a step does to the limit of a group: nothing, or the file gets the quota of a percentage that is the new value of
  the variable, exactly or as it is read back.
\<close>

definition moved :: "topology \<Rightarrow> env \<Rightarrow> pip \<Rightarrow> cgroup \<Rightarrow> int \<Rightarrow> int option \<Rightarrow> bool" where
  "moved T e s g b q \<longleftrightarrow> b = bandwidth s g \<and> q = cpu_max s g \<or>
     (\<exists>v. 1 \<le> v \<and> v \<le> 100 \<and> q = Some (limit_quota T e g v) \<and> (b = v \<or> b = drift v))"

definition follows :: "topology \<Rightarrow> env \<Rightarrow> pip \<Rightarrow> int \<Rightarrow> int \<Rightarrow> (cgroup \<Rightarrow> int option) \<Rightarrow> bool" where
  "follows T e s a b f \<longleftrightarrow> moved T e s User a (f User) \<and> moved T e s Critical b (f Critical)"

lemma moved_to: "1 \<le> v \<Longrightarrow> v \<le> 100 \<Longrightarrow> moved T e s g v (Some (limit_quota T e g v))"
  "1 \<le> v \<Longrightarrow> v \<le> 100 \<Longrightarrow> moved T e s g (drift v) (Some (limit_quota T e g v))"
  by (auto simp: moved_def)

lemma moved_not: "moved T e s g (bandwidth s g) (cpu_max s g)"
  by (simp add: moved_def)

lemma inputs_ok_agree: "inputs_ok T n e \<Longrightarrow> cores_agree T e"
  by (simp add: inputs_ok_def)

lemma raise_value_ok:
  assumes "topology_ok T n" and "inputs_ok T n e" and "map_ok n m" and "1 \<le> bandwidth s g" and "bandwidth s g < 100"
  obtains v b where "raise_value T e m gap g s = (Some v, s\<lparr>used_map := b\<rparr>)" and "bandwidth s g < v"
proof (cases "gap < 10")
  case True
  then have "raise_value T e m gap g s = (Some (bandwidth s g + 1), s\<lparr>used_map := used_map s\<rparr>)" by (simp add: raise_value_def)
  then show ?thesis by (rule that) simp
next
  case False
  have b0: "bandwidth s g \<noteq> 0" using assms(4) by simp
  obtain c b where c: "recover_bandwidth T e m g s = (Some c, s\<lparr>used_map := b\<rparr>)" "c = bandwidth s g \<or> bandwidth s g < c \<and> c \<le> 100"
    by (rule recover_bandwidth_ok [OF assms(1-3) b0])
  have "raise_value T e m gap g s =
      (Some (if c = bandwidth s g \<or> bandwidth s g < 10 then min (bandwidth s g + 5) 100 else c), s\<lparr>used_map := b\<rparr>)"
    using False c(1) by (simp add: raise_value_def)
  then show ?thesis by (rule that) (use c(2) assms(5) in auto)
qed

lemma raise_group_ok:
  assumes "topology_ok T n" and "inputs_ok T n e" and "map_ok n m" and "1 \<le> bandwidth s g" and "bandwidth s g < 100"
  obtains v f where "raise_group T e m gap g s = (True, set_bandwidth g v (s\<lparr>used_map := True, cpu_max := f\<rparr>))"
    and "bandwidth s g < v" and "v \<le> 100" and "steady e \<Longrightarrow> f = (cpu_max s)(g := Some (limit_quota T e g v))"
proof -
  obtain u b where u: "raise_value T e m gap g s = (Some u, s\<lparr>used_map := b\<rparr>)" "bandwidth s g < u"
    by (rule raise_value_ok [OF assms])
  let ?v = "min u 100" and ?s = "s\<lparr>used_map := b\<rparr>"
  have v: "bandwidth s g < ?v" "?v \<le> 100" "1 \<le> ?v" using u(2) assms(4,5) by auto
  obtain w f where w: "set_cpu_limit e g ?v (group_cores T e g) ?s = set_bandwidth g w (?s\<lparr>cpu_max := f\<rparr>)" "w = bandwidth ?s g \<or> w = drift ?v"
      "steady e \<Longrightarrow> w = drift ?v \<and> f = (cpu_max ?s)(g := Some (limit_quota T e g ?v))"
    using set_cpu_limit_cases [OF inputs_ok_agree [OF assms(2)] v(3,2), of g ?s] by blast
  have "w \<noteq> 0" using w(2) drift_bounds [OF v(3,2)] assms(4) by auto
  then have p: "predict_featuremap T e m g ?v (set_bandwidth g w (?s\<lparr>cpu_max := f\<rparr>)) =
      (True, set_bandwidth g w (s\<lparr>used_map := True, cpu_max := f\<rparr>))"
    using predict_featuremap_ok [OF assms(1-3), of "set_bandwidth g w (?s\<lparr>cpu_max := f\<rparr>)" g ?v]
    by (cases g) simp_all
  have "raise_group T e m gap g s = (True, set_bandwidth g ?v (s\<lparr>used_map := True, cpu_max := f\<rparr>))"
    by (simp only: raise_group_def u(1) prod.case option.case Let_def w(1) p if_True set_bandwidth_simps)
  then show thesis by (rule that [OF _ v(1,2)]) (use w(3) in simp)
qed

lemma drift_1 [simp]: "drift 1 = 1"
  by (simp add: drift_def)

lemma increase_bandwidth_ok:
  assumes "topology_ok T n" and "inputs_ok T n e" and "map_ok n m" and "1 \<le> current_bandwidth s" and "current_bandwidth s \<le> 100"
    and "1 \<le> current_bandwidth2 s" and "current_bandwidth2 s \<le> 100"
  obtains a b u f where "increase_bandwidth T e m gap s =
      (True, s\<lparr>current_bandwidth := a, current_bandwidth2 := b, used_map := u, cpu_max := f\<rparr>)"
    and "current_bandwidth2 s < 100 \<Longrightarrow> a = 1 \<and> current_bandwidth2 s < b \<and> b \<le> 100"
    and "current_bandwidth2 s = 100 \<Longrightarrow> b = 100 \<and> a \<le> 100 \<and> (current_bandwidth s < a \<or> a = 100)"
    and "steady e \<Longrightarrow> follows T e s a b f"
proof (cases "current_bandwidth2 s < 100")
  case True
  let ?s = "s\<lparr>used_map := False, current_bandwidth := 1\<rparr>"
  obtain w f where w: "set_cpu_limit e User 1 (group_cores T e User) ?s = set_bandwidth User w (?s\<lparr>cpu_max := f\<rparr>)" "w = bandwidth ?s User \<or> w = drift 1"
      "steady e \<Longrightarrow> w = drift 1 \<and> f = (cpu_max ?s)(User := Some (limit_quota T e User 1))"
    by (rule set_cpu_limit_cases [OF inputs_ok_agree [OF assms(2)], of 1 User ?s]) simp_all
  then have s1: "set_cpu_limit e User 1 (get_user_cores e) ?s = ?s\<lparr>cpu_max := f\<rparr>" by auto
  let ?t = "?s\<lparr>cpu_max := f, used_map := True\<rparr>"
  have p: "predict_featuremap T e m User 1 (?s\<lparr>cpu_max := f\<rparr>) = (True, ?t)"
    using predict_featuremap_ok [OF assms(1-3), of "?s\<lparr>cpu_max := f\<rparr>" User 1] by simp
  obtain v f' where v: "raise_group T e m gap Critical ?t = (True, set_bandwidth Critical v (?t\<lparr>used_map := True, cpu_max := f'\<rparr>))"
      "bandwidth ?t Critical < v" "v \<le> 100" "steady e \<Longrightarrow> f' = (cpu_max ?t)(Critical := Some (limit_quota T e Critical v))"
    by (rule raise_group_ok [OF assms(1-3), of ?t Critical gap]) (use True assms(6) in auto)
  have "increase_bandwidth T e m gap s = (True, s\<lparr>current_bandwidth := 1, current_bandwidth2 := v, used_map := True, cpu_max := f'\<rparr>)"
    using True s1 p v(1) by (simp add: increase_bandwidth_def Let_def)
  then show ?thesis
  proof (rule that)
    show "follows T e s 1 v f'" if "steady e"
      using w(3) v that assms(6) moved_to(1) [of 1 T e s User] moved_to(1) [of v T e s Critical] by (simp add: follows_def)
  qed (use True v in auto)
next
  case high: False
  show ?thesis
  proof (cases "current_bandwidth s < 100")
    case True
    let ?s = "s\<lparr>used_map := False\<rparr>"
    obtain v f where v: "raise_group T e m gap User ?s = (True, set_bandwidth User v (?s\<lparr>used_map := True, cpu_max := f\<rparr>))"
        "bandwidth ?s User < v" "v \<le> 100" "steady e \<Longrightarrow> f = (cpu_max ?s)(User := Some (limit_quota T e User v))"
      by (rule raise_group_ok [OF assms(1-3), of ?s User gap]) (use True assms(4) in auto)
    have "increase_bandwidth T e m gap s =
        (True, s\<lparr>current_bandwidth := v, current_bandwidth2 := current_bandwidth2 s, used_map := True, cpu_max := f\<rparr>)"
      using high True v(1) by (simp add: increase_bandwidth_def Let_def)
    then show ?thesis
    proof (rule that)
      show "follows T e s v (current_bandwidth2 s) f" if "steady e"
        using v that assms(4) moved_to(1) [of v T e s User] moved_not [of T e s Critical] by (simp add: follows_def)
    qed (use high v in auto)
  next
    case False
    then have "increase_bandwidth T e m gap s = (True, s\<lparr>current_bandwidth := current_bandwidth s,
        current_bandwidth2 := current_bandwidth2 s, used_map := False, cpu_max := cpu_max s\<rparr>)"
      using high by (simp add: increase_bandwidth_def Let_def)
    then show ?thesis
      by (rule that) (use high False assms moved_not [of T e s User] moved_not [of T e s Critical] in \<open>auto simp: follows_def\<close>)
  qed
qed

subsection \<open>Lowering\<close>

text \<open>The new bandwidths: no higher, and that of \<^verbatim>\<open>critical\<close> lower only with \<^verbatim>\<open>user\<close> at its minimum.\<close>

definition lowered :: "pip \<Rightarrow> int \<Rightarrow> int \<Rightarrow> bool" where
  "lowered s a b \<longleftrightarrow> 1 \<le> a \<and> a \<le> current_bandwidth s \<and> 1 \<le> b \<and> b \<le> current_bandwidth2 s \<and> (b = current_bandwidth2 s \<or> a = 1)"

lemma range_down_Nil: "range_down a b = [] \<longleftrightarrow> a \<le> b"
  by (subst range_down.simps) simp

lemma count_retry_form: "\<exists>r. count_retry s = s\<lparr>retry := r\<rparr>"
  unfolding count_retry_def by (cases "prev s = 1") auto

lemma critical_power_capping_ok:
  assumes "topology_ok T n" and "inputs_ok T n e" and "map_ok n m" and "1 \<le> current_bandwidth2 s" and "current_bandwidth2 s \<le> 100"
  obtains b r f m' p where "critical_power_capping T e m s =
      (True, s\<lparr>current_bandwidth2 := b, predictive_feature_map := m', prev_prediction := p, retry := r, cpu_max := f\<rparr>)"
    and "1 \<le> b" and "b \<le> current_bandwidth2 s" and "map_ok n m'"
    and "steady e \<Longrightarrow> moved T e s Critical b (f Critical) \<and> f User = cpu_max s User"
proof -
  obtain r where r: "count_retry s = s\<lparr>retry := r\<rparr>" using count_retry_form by blast
  let ?s = "s\<lparr>retry := r\<rparr>"
  obtain g where g: "regression e = Some g" "total_on n g" by (rule inputs_okE [OF assms(2)])
  have b0: "bandwidth ?s Critical \<noteq> 0" using assms(4) by simp
  obtain x l where x: "cap_scan T ?s g m (group_cores T e Critical) Critical 0 None (range_down (current_bandwidth2 s) 0) = Some (x, l)"
      "\<And>t. x = Some t \<Longrightarrow> t \<in> set (range_down (current_bandwidth2 s) 0)" "l \<noteq> None" "\<And>m' p. l = Some (m', p) \<Longrightarrow> map_ok n m'"
    using cap_scan_ok [OF assms(1,3) group_cores_all [of T e Critical] g(2) b0, of None 0 "range_down (current_bandwidth2 s) 0"] assms(4)
    by (auto simp: range_down_Nil)
  obtain m' p where l: "l = Some (m', p)" using x(3) by auto
  define t where "t = (case x of None \<Rightarrow> 1 | Some t \<Rightarrow> t)"
  have t: "1 \<le> t" "t \<le> current_bandwidth2 s" using x(2) range_down_bounds assms(4) by (fastforce simp: t_def split: option.splits)+
  obtain w f where w: "set_cpu_limit e Critical t (group_cores T e Critical) ?s = set_bandwidth Critical w (?s\<lparr>cpu_max := f\<rparr>)"
      "w = bandwidth ?s Critical \<or> w = drift t" "steady e \<Longrightarrow> w = drift t \<and> f = (cpu_max ?s)(Critical := Some (limit_quota T e Critical t))"
    using set_cpu_limit_cases [OF inputs_ok_agree [OF assms(2)] t(1), of Critical ?s] t(2) assms(5) by auto
  have "1 \<le> w" "w \<le> current_bandwidth2 s" using w(2) drift_bounds [of t] t assms(4,5) by auto
  moreover have "moved T e s Critical w (f Critical) \<and> f User = cpu_max s User" if "steady e"
    using w(3) [OF that] moved_to(2) [of t T e s Critical] t assms(5) by simp
  moreover have "critical_power_capping T e m s =
      (True, s\<lparr>current_bandwidth2 := w, predictive_feature_map := m', prev_prediction := p, retry := r, cpu_max := f\<rparr>)"
    using x(1) w(1) l by (simp add: critical_power_capping_def g(1) r Let_def t_def)
  ultimately show thesis using that x(4) [OF l] by blast
qed

lemma strict_search_ok:
  assumes "topology_ok T n" and "inputs_ok T n e" and "map_ok n m" and "map_ok n (predictive_feature_map s)"
    and "1 \<le> current_bandwidth s" and "current_bandwidth s \<le> 100" and "1 \<le> current_bandwidth2 s" and "current_bandwidth2 s \<le> 100"
  obtains a b a' b' r f m' p where "strict_search T e m s = (Some (a, b), s\<lparr>current_bandwidth := a', current_bandwidth2 := b',
      predictive_feature_map := m', prev_prediction := p, retry := r, cpu_max := f\<rparr>)" and "lowered s a b" and "map_ok n m'"
    and "steady e \<Longrightarrow> follows T e s a b f"
proof -
  obtain r where r: "count_retry s = s\<lparr>retry := r\<rparr>" using count_retry_form by blast
  let ?s = "s\<lparr>retry := r\<rparr>" and ?U = "get_user_cores e"
  obtain g where g: "regression e = Some g" "total_on n g" by (rule inputs_okE [OF assms(2)])
  have b0: "bandwidth ?s User \<noteq> 0" using assms(5) by simp
  obtain x l where x: "(if current_bandwidth s > 5 then cap_scan T ?s g m ?U User 0 None (range_down (current_bandwidth s - 5) 0) else Some (None, None)) = Some (x, l)"
      "\<And>t. x = Some t \<Longrightarrow> t \<in> set (range_down (current_bandwidth s - 5) 0)" "\<And>m' p. l = Some (m', p) \<Longrightarrow> map_ok n m'"
    using cap_scan_ok [OF assms(1,3) group_cores_all [of T e User] g(2) b0, of None 0 "range_down (current_bandwidth s - 5) 0"]
    by (cases "current_bandwidth s > 5") auto
  note agree = inputs_ok_agree [OF assms(2)]
  show thesis
  proof (cases x)
    case (Some t)
    have t: "1 \<le> t" "t \<le> current_bandwidth s" using range_down_bounds [OF x(2) [OF Some]] by auto
    have five: "5 < current_bandwidth s" using x(1) Some by (auto split: if_splits)
    have scan: "cap_scan T ?s g m ?U User 0 None (range_down (current_bandwidth s - 5) 0) = Some (Some t, l)" using x(1) five Some by simp
    define mp where "mp = (case l of None \<Rightarrow> (predictive_feature_map s, prev_prediction s) | Some mp \<Rightarrow> mp)"
    have mp: "map_ok n (fst mp)" using assms(4) x(3) by (cases l) (auto simp: mp_def)
    let ?t = "?s\<lparr>predictive_feature_map := fst mp, prev_prediction := snd mp\<rparr>"
    have l: "(case l of None \<Rightarrow> ?s | Some (m, p) \<Rightarrow> ?s\<lparr>predictive_feature_map := m, prev_prediction := p\<rparr>) = ?t"
      by (cases l) (auto simp: mp_def)
    obtain w f where w: "set_cpu_limit e User t (group_cores T e User) ?t = set_bandwidth User w (?t\<lparr>cpu_max := f\<rparr>)"
        "steady e \<Longrightarrow> f = (cpu_max ?t)(User := Some (limit_quota T e User t))"
      by (rule set_cpu_limit_cases [OF agree t(1), of User ?t]) (use t(2) assms(6) in auto)
    have "strict_search T e m s = (Some (t, current_bandwidth2 s), s\<lparr>current_bandwidth := w, current_bandwidth2 := current_bandwidth2 s,
        predictive_feature_map := fst mp, prev_prediction := snd mp, retry := r, cpu_max := f\<rparr>)"
      using five scan w(1) by (simp add: strict_search_def r g(1) Let_def l)
    then show ?thesis
    proof (rule that)
      show "follows T e s t (current_bandwidth2 s) f" if "steady e"
        using w(2) [OF that] t assms(6) moved_to(1) [of t T e s User] moved_not [of T e s Critical] by (simp add: follows_def)
    qed (use t assms(7) mp in \<open>auto simp: lowered_def\<close>)
  next
    case None
    obtain m1 where m1: "fold_opt (minimum_core T) ?U m = Some m1" "map_ok n m1"
      by (rule minimum_cores_ok [OF assms(1,3) group_cores_all [of T e User]]) simp
    obtain b r' f m' p where c: "critical_power_capping T e m1 ?s =
        (True, ?s\<lparr>current_bandwidth2 := b, predictive_feature_map := m', prev_prediction := p, retry := r', cpu_max := f\<rparr>)"
        "1 \<le> b" "b \<le> current_bandwidth2 ?s" "map_ok n m'"
        "steady e \<Longrightarrow> moved T e ?s Critical b (f Critical) \<and> f User = cpu_max ?s User"
      by (rule critical_power_capping_ok [OF assms(1,2) m1(2), of ?s]) (use assms(7,8) in auto)
    let ?t = "?s\<lparr>current_bandwidth2 := b, predictive_feature_map := m', prev_prediction := p, retry := r', cpu_max := f\<rparr>"
    obtain w f' where w: "set_cpu_limit e User 1 (group_cores T e User) ?t = set_bandwidth User w (?t\<lparr>cpu_max := f'\<rparr>)"
        "steady e \<Longrightarrow> f' = (cpu_max ?t)(User := Some (limit_quota T e User 1))"
      by (rule set_cpu_limit_cases [OF agree, of 1 User ?t]) auto
    have "strict_search T e m s = (Some (1, b), s\<lparr>current_bandwidth := w, current_bandwidth2 := b,
        predictive_feature_map := m', prev_prediction := p, retry := r', cpu_max := f'\<rparr>)"
      using x(1) w(1) c(1) m1(1) by (cases "5 < current_bandwidth s") (simp_all add: strict_search_def r g(1) None Let_def)
    then show ?thesis
    proof (rule that)
      show "follows T e s 1 b f'" if "steady e"
        using w(2) [OF that] c(5) [OF that] moved_to(1) [of 1 T e s User] by (simp add: follows_def moved_def)
    qed (use c assms(5) in \<open>auto simp: lowered_def\<close>)
  qed
qed

lemma baby_step_bounds: "1 < v \<Longrightarrow> v \<le> 100 \<Longrightarrow> 1 \<le> baby_step watts target v \<and> baby_step watts target v < v"
  by (simp add: baby_step_def)

lemma strict_power_capping_ok:
  assumes "topology_ok T n" and "inputs_ok T n e" and "map_ok n m" and "map_ok n (predictive_feature_map s)"
    and "1 \<le> current_bandwidth s" and "current_bandwidth s \<le> 100" and "1 \<le> current_bandwidth2 s" and "current_bandwidth2 s \<le> 100"
  obtains a b a' b' r f m' p where "strict_power_capping T e watts m s = (Some (a, b), s\<lparr>current_bandwidth := a', current_bandwidth2 := b',
      predictive_feature_map := m', prev_prediction := p, retry := r, cpu_max := f\<rparr>)" and "lowered s a b" and "map_ok n m'"
    and "steady e \<Longrightarrow> follows T e s a b f"
    and "f_sub watts (f_int (target_power s)) < TOLERANCE \<Longrightarrow> a + b < current_bandwidth s + current_bandwidth2 s \<or> a = 1 \<and> b = 1"
proof (cases "f_sub watts (f_int (target_power s)) < TOLERANCE")
  case False
  then have "strict_power_capping T e watts m s = strict_search T e m s" by (simp add: strict_power_capping_def)
  then show ?thesis using strict_search_ok [OF assms] that False by metis
next
  case near: True
  note agree = inputs_ok_agree [OF assms(2)]
  let ?p = "predictive_feature_map s" and ?q = "prev_prediction s" and ?r = "retry s"
  consider (user) "1 < current_bandwidth s" | (critical) "current_bandwidth s = 1" "1 < current_bandwidth2 s"
    | (least) "current_bandwidth s = 1" "current_bandwidth2 s = 1" using assms(5,7) by linarith
  then show ?thesis
  proof cases
    case user
    let ?v = "baby_step watts (target_power s) (current_bandwidth s)"
    note v = baby_step_bounds [OF user assms(6), of watts "target_power s"]
    obtain w f where w: "set_cpu_limit e User ?v (group_cores T e User) s = set_bandwidth User w (s\<lparr>cpu_max := f\<rparr>)"
        "steady e \<Longrightarrow> f = (cpu_max s)(User := Some (limit_quota T e User ?v))"
      by (rule set_cpu_limit_cases [OF agree, of ?v User s]) (use v assms(6) in auto)
    have "strict_power_capping T e watts m s = (Some (?v, current_bandwidth2 s), s\<lparr>current_bandwidth := ?v,
        current_bandwidth2 := current_bandwidth2 s, predictive_feature_map := ?p, prev_prediction := ?q, retry := ?r, cpu_max := f\<rparr>)"
      using near user w(1) by (simp add: strict_power_capping_def Let_def)
    then show ?thesis
    proof (rule that)
      show "follows T e s ?v (current_bandwidth2 s) f" if "steady e"
        using w(2) [OF that] v assms(6) moved_to(1) [of ?v T e s User] moved_not [of T e s Critical] by (simp add: follows_def)
    qed (use v assms in \<open>auto simp: lowered_def\<close>)
  next
    case critical
    let ?v = "baby_step watts (target_power s) (current_bandwidth2 s)"
    note v = baby_step_bounds [OF critical(2) assms(8), of watts "target_power s"]
    obtain w f where w: "set_cpu_limit e Critical ?v (group_cores T e Critical) s = set_bandwidth Critical w (s\<lparr>cpu_max := f\<rparr>)"
        "steady e \<Longrightarrow> f = (cpu_max s)(Critical := Some (limit_quota T e Critical ?v))"
      by (rule set_cpu_limit_cases [OF agree, of ?v Critical s]) (use v assms(8) in auto)
    have "strict_power_capping T e watts m s = (Some (1, ?v), s\<lparr>current_bandwidth := 1,
        current_bandwidth2 := ?v, predictive_feature_map := ?p, prev_prediction := ?q, retry := ?r, cpu_max := f\<rparr>)"
      using near critical w(1) by (simp add: strict_power_capping_def Let_def)
    then show ?thesis
    proof (rule that)
      show "follows T e s 1 ?v f" if "steady e"
        using w(2) [OF that] v critical(1) assms(8) moved_to(1) [of ?v T e s Critical] moved_not [of T e s User] by (simp add: follows_def)
    qed (use v critical assms in \<open>auto simp: lowered_def\<close>)
  next
    case least
    have "strict_power_capping T e watts m s = (Some (1, 1), s\<lparr>current_bandwidth := 1,
        current_bandwidth2 := 1, predictive_feature_map := ?p, prev_prediction := ?q, retry := ?r, cpu_max := cpu_max s\<rparr>)"
      using near least by (simp add: strict_power_capping_def)
    then show ?thesis
      by (rule that) (use least assms moved_not [of T e s User] moved_not [of T e s Critical] in \<open>auto simp: lowered_def follows_def\<close>)
  qed
qed

subsection \<open>An iteration\<close>

lemma update_adjustment_loop_ok:
  assumes "map_ok n pm" and "map_ok n am" and "\<forall>i \<in> set is. 0 \<le> i \<and> i < int n"
  shows "\<exists>a'. update_adjustment_loop pm am sm is a = (True, a')"
  using assms(3)
proof (induction "is" arbitrary: a)
  case (Cons i "is")
  obtain x y where xy: "get_float pm i = Some x" "get_float am i = Some y"
    using float_ok [OF assms(1), of i] float_ok [OF assms(2), of i] Cons.prems by auto
  have ih: "\<exists>a'. update_adjustment_loop pm am sm is a = (True, a')" for a by (rule Cons.IH) (use Cons.prems in simp)
  show ?case using xy ih by (cases "x = 0") (simp_all add: f_div_def)
qed simp

lemma calibrate_ok:
  assumes "topology_ok T n" and "map_ok n m" and "map_ok n (predictive_feature_map s)"
  obtains c a where "calibrate T watts m s = (True, s\<lparr>calibration_offset := c, adjustment_ratio := a\<rparr>)"
proof (cases "used_map s")
  case True
  let ?is = "[direct_metrics_size T..int (length m) - 1]"
  have "\<forall>i \<in> set ?is. 0 \<le> i \<and> i < int n" using assms(1,2) by (auto simp: topology_ok_def map_ok_def)
  then obtain a where "update_adjustment_loop (predictive_feature_map s) m (rne (8 / 10)) ?is (adjustment_ratio s) = (True, a)"
    using update_adjustment_loop_ok [OF assms(3,2)] by blast
  then show ?thesis using that True by (simp add: calibrate_def update_adjustment_def)
next
  case False
  then have "calibrate T watts m s = (True, s\<lparr>calibration_offset := calibration_offset s, adjustment_ratio := adjustment_ratio s\<rparr>)"
    by (simp add: calibrate_def)
  then show ?thesis by (rule that)
qed

definition pip_inv :: "nat \<Rightarrow> pip \<Rightarrow> bool" where
  "pip_inv n s \<longleftrightarrow> 1 \<le> current_bandwidth s \<and> current_bandwidth s \<le> 100 \<and> 1 \<le> current_bandwidth2 s \<and> current_bandwidth2 s \<le> 100 \<and>
     (current_bandwidth2 s < 100 \<longrightarrow> current_bandwidth s = 1) \<and> (\<not> full_mode s \<longrightarrow> current_bandwidth s = 100 \<and> current_bandwidth2 s = 100) \<and>
     (predictive_feature_map s = [] \<or> map_ok n (predictive_feature_map s))"

text \<open>What an iteration reads when nothing fails: the budget, the power and the metrics.\<close>

definition reading :: "env \<Rightarrow> (int \<times> double \<times> feat list) option" where
  "reading e = do {
     text \<leftarrow> budget_file e;
     budget \<leftarrow> py_int (first_line text);
     watts \<leftarrow> measured e;
     m \<leftarrow> metrics e;
     Some (budget, watts, m)
   }"

lemma pip_inv_init: "pip_inv n (pip_init files)"
  by (simp add: pip_inv_def pip_init_def)

lemma reading_metrics: "inputs_ok T n e \<Longrightarrow> reading e = Some (budget, watts, m) \<Longrightarrow> map_ok n m"
  by (auto simp: reading_def inputs_ok_def bind_eq_Some_conv)

text \<open>The state in which the limits are adjusted.\<close>

definition ready :: "nat \<Rightarrow> int \<Rightarrow> pip \<Rightarrow> pip \<Rightarrow> bool" where
  "ready n budget s s1 \<longleftrightarrow> target_power s1 = budget \<and> current_bandwidth s1 = current_bandwidth s \<and>
     current_bandwidth2 s1 = current_bandwidth2 s \<and> cpu_max s1 = cpu_max s \<and> full_mode s1 \<and>
     map_ok n (predictive_feature_map s1)"

text \<open>The limits after an iteration.\<close>

definition followed :: "topology \<Rightarrow> env \<Rightarrow> pip \<Rightarrow> pip \<Rightarrow> bool" where
  "followed T e s s' \<longleftrightarrow> follows T e s (current_bandwidth s') (current_bandwidth2 s') (cpu_max s')"

lemma followed_not: "current_bandwidth s' = current_bandwidth s \<Longrightarrow> current_bandwidth2 s' = current_bandwidth2 s \<Longrightarrow> cpu_max s' = cpu_max s \<Longrightarrow> followed T e s s'"
  by (simp add: followed_def follows_def moved_def)

lemma follows_ready:
  "ready n budget s s1 \<Longrightarrow> follows T e (s1\<lparr>calibration_offset := c, adjustment_ratio := r, used_map := u\<rparr>) a b f = follows T e s a b f"
  by (simp add: ready_def follows_def moved_def)

lemma iteration_reads:
  assumes "inputs_ok T n e" and "pip_inv n s" and "full_mode s" and "reading e = Some (budget, watts, m)"
  obtains s1 where "pip_iteration T e s = adjust T e watts m s1" and "ready n budget s s1"
proof -
  let ?s = "s\<lparr>target_power := budget, actual_power := Some watts\<rparr>"
  let ?t = "if predictive_feature_map ?s = [] then ?s\<lparr>predictive_feature_map := m\<rparr> else ?s"
  obtain t where r: "budget_file e = Some t" "py_int (first_line t) = Some budget" "measured e = Some watts" "metrics e = Some m"
    using assms(4) by (auto simp: reading_def bind_eq_Some_conv)
  have "pip_iteration T e s = adjust T e watts m ?t" using assms(3) by (simp add: pip_iteration_def r Let_def)
  moreover have "ready n budget s ?t" using assms(2,3) reading_metrics [OF assms(1,4)] by (auto simp: ready_def pip_inv_def)
  ultimately show thesis by (rule that)
qed

text \<open>An iteration that cannot read, or that comes before the budget is met for the first time, leaves the limits alone.\<close>

lemma iteration_skips:
  assumes "\<not> full_mode s \<or> reading e = None"
  obtains s' where "pip_iteration T e s = (True, s')" and "current_bandwidth s' = current_bandwidth s"
    and "current_bandwidth2 s' = current_bandwidth2 s" and "cpu_max s' = cpu_max s"
    and "predictive_feature_map s' = predictive_feature_map s" and "full_mode s \<Longrightarrow> full_mode s'"
    and "full_mode s' \<Longrightarrow> \<not> full_mode s \<Longrightarrow> \<exists>b w. Option.bind (budget_file e) (\<lambda>text. py_int (first_line text)) = Some b \<and> measured e = Some w \<and> upper_mark b \<le> w"
proof (cases "Option.bind (budget_file e) (\<lambda>text. py_int (first_line text))")
  case None
  then show ?thesis using that [of s] by (simp add: pip_iteration_def)
next
  case (Some b)
  then have r: "reading e = None \<longleftrightarrow> measured e = None \<or> metrics e = None"
    by (auto simp: reading_def bind_eq_Some_conv split: bind_splits)
  let ?s = "s\<lparr>target_power := b, actual_power := measured e\<rparr>"
  show ?thesis
  proof (cases "measured e")
    case None
    then show ?thesis using that [of ?s] Some by (simp add: pip_iteration_def Let_def)
  next
    case w: (Some w)
    show ?thesis
    proof (cases "full_mode s")
      case True
      then have "metrics e = None" using assms r w by simp
      then show ?thesis using that [of ?s] True Some w by (simp add: pip_iteration_def Let_def)
    next
      case False
      let ?t = "if upper_mark b \<le> w then ?s\<lparr>full_mode := True\<rparr> else ?s"
      have "pip_iteration T e s = (True, ?t)" using False Some w by (simp add: pip_iteration_def Let_def)
      then show ?thesis by (rule that) (use False Some w in \<open>auto split: if_splits\<close>)
    qed
  qed
qed

lemma adjust_strict:
  assumes "topology_ok T n" and "inputs_ok T n e" and "map_ok n m" and "pip_inv n s" and "ready n budget s s1" and "upper_mark budget \<le> watts"
  obtains s' where "adjust T e watts m s1 = (True, s')" and "pip_inv n s'" and "full_mode s'" and "steady e \<Longrightarrow> followed T e s s'"
    and "lowered s (current_bandwidth s') (current_bandwidth2 s')"
    and "f_sub watts (f_int budget) < TOLERANCE \<Longrightarrow>
      current_bandwidth s' + current_bandwidth2 s' < current_bandwidth s + current_bandwidth2 s \<or> current_bandwidth s' = 1 \<and> current_bandwidth2 s' = 1"
proof -
  have s1: "target_power s1 = budget" "current_bandwidth s1 = current_bandwidth s" "current_bandwidth2 s1 = current_bandwidth2 s"
      "full_mode s1" "map_ok n (predictive_feature_map s1)" using assms(5) by (simp_all add: ready_def)
  have s: "1 \<le> current_bandwidth s" "current_bandwidth s \<le> 100" "1 \<le> current_bandwidth2 s" "current_bandwidth2 s \<le> 100"
      "current_bandwidth2 s < 100 \<Longrightarrow> current_bandwidth s = 1" using assms(4) by (simp_all add: pip_inv_def)
  obtain c r where c: "calibrate T watts m s1 = (True, s1\<lparr>calibration_offset := c, adjustment_ratio := r\<rparr>)"
    by (rule calibrate_ok [OF assms(1,3) s1(5)])
  let ?s = "s1\<lparr>calibration_offset := c, adjustment_ratio := r, used_map := False\<rparr>"
  obtain a b a' b' k f m' p where x: "strict_power_capping T e watts m ?s = (Some (a, b), ?s\<lparr>current_bandwidth := a', current_bandwidth2 := b',
      predictive_feature_map := m', prev_prediction := p, retry := k, cpu_max := f\<rparr>)" "lowered ?s a b" "map_ok n m'" "steady e \<Longrightarrow> follows T e ?s a b f"
      "f_sub watts (f_int (target_power ?s)) < TOLERANCE \<Longrightarrow> a + b < current_bandwidth ?s + current_bandwidth2 ?s \<or> a = 1 \<and> b = 1"
    by (rule strict_power_capping_ok [OF assms(1-3), of ?s watts]) (use s s1 in simp_all)
  obtain s' where s': "adjust T e watts m s1 = (True, s')" "current_bandwidth s' = a" "current_bandwidth2 s' = b"
      "predictive_feature_map s' = m'" "full_mode s'" "cpu_max s' = f"
    using x(1) assms(6) s1(1,4) by (simp add: adjust_def c)
  have l: "lowered s a b" using x(2) s1 by (simp add: lowered_def)
  have "pip_inv n s'" using s' l x(3) s by (auto simp: pip_inv_def lowered_def)
  moreover have "lowered s (current_bandwidth s') (current_bandwidth2 s')" using l s' by simp
  moreover have "followed T e s s'" if "steady e" using x(4) [OF that] s' follows_ready [OF assms(5)] by (simp add: followed_def)
  ultimately show thesis using that [OF s'(1)] s' x(5) s1 by simp
qed

lemma adjust_increase:
  assumes "topology_ok T n" and "inputs_ok T n e" and "map_ok n m" and "pip_inv n s" and "ready n budget s s1"
    and "\<not> upper_mark budget \<le> watts" and "watts < lower_mark budget"
  obtains s' where "adjust T e watts m s1 = (True, s')" and "pip_inv n s'" and "full_mode s'" and "steady e \<Longrightarrow> followed T e s s'"
    and "current_bandwidth s + current_bandwidth2 s < current_bandwidth s' + current_bandwidth2 s' \<or> current_bandwidth s' = 100 \<and> current_bandwidth2 s' = 100"
proof -
  have s1: "target_power s1 = budget" "current_bandwidth s1 = current_bandwidth s" "current_bandwidth2 s1 = current_bandwidth2 s"
      "full_mode s1" "map_ok n (predictive_feature_map s1)" using assms(5) by (simp_all add: ready_def)
  have s: "1 \<le> current_bandwidth s" "current_bandwidth s \<le> 100" "1 \<le> current_bandwidth2 s" "current_bandwidth2 s \<le> 100"
      "current_bandwidth2 s < 100 \<Longrightarrow> current_bandwidth s = 1"
    using assms(4) by (simp_all add: pip_inv_def)
  obtain c r where c: "calibrate T watts m s1 = (True, s1\<lparr>calibration_offset := c, adjustment_ratio := r\<rparr>)"
    by (rule calibrate_ok [OF assms(1,3) s1(5)])
  let ?s = "s1\<lparr>calibration_offset := c, adjustment_ratio := r, used_map := False\<rparr>" and ?gap = "f_sub (f_int budget) watts"
  obtain a b u f where x: "increase_bandwidth T e m ?gap ?s =
      (True, ?s\<lparr>current_bandwidth := a, current_bandwidth2 := b, used_map := u, cpu_max := f\<rparr>)"
      "current_bandwidth2 ?s < 100 \<Longrightarrow> a = 1 \<and> current_bandwidth2 ?s < b \<and> b \<le> 100"
      "current_bandwidth2 ?s = 100 \<Longrightarrow> b = 100 \<and> a \<le> 100 \<and> (current_bandwidth ?s < a \<or> a = 100)" "steady e \<Longrightarrow> follows T e ?s a b f"
    by (rule increase_bandwidth_ok [OF assms(1-3), of ?s ?gap]) (use s s1 in simp_all)
  obtain s' where s': "adjust T e watts m s1 = (True, s')" "current_bandwidth s' = a" "current_bandwidth2 s' = b"
      "predictive_feature_map s' = predictive_feature_map s1" "full_mode s'" "cpu_max s' = f"
    using x(1) assms(6,7) s1(1,4) by (simp add: adjust_def c)
  have "pip_inv n s'" using s' x(2,3) s s1 by (cases "current_bandwidth2 s < 100") (auto simp: pip_inv_def)
  moreover have "followed T e s s'" if "steady e" using x(4) [OF that] s' follows_ready [OF assms(5)] by (simp add: followed_def)
  moreover have "current_bandwidth s + current_bandwidth2 s < a + b \<or> a = 100 \<and> b = 100"
    using x(2,3) s s1 by (cases "current_bandwidth2 s < 100") auto
  ultimately show thesis using that [OF s'(1)] s' by simp
qed

lemma adjust_hold:
  assumes "topology_ok T n" and "map_ok n m" and "pip_inv n s" and "ready n budget s s1"
    and "\<not> upper_mark budget \<le> watts" and "\<not> watts < lower_mark budget"
  obtains s' where "adjust T e watts m s1 = (True, s')" and "pip_inv n s'" and "followed T e s s'"
proof -
  have p: "map_ok n (predictive_feature_map s1)" using assms(4) by (simp add: ready_def)
  obtain c r where c: "calibrate T watts m s1 = (True, s1\<lparr>calibration_offset := c, adjustment_ratio := r\<rparr>)"
    by (rule calibrate_ok [OF assms(1,2) p])
  have "adjust T e watts m s1 = (True, s1\<lparr>calibration_offset := c, adjustment_ratio := r, used_map := False, retry := 0, prev := 0\<rparr>)"
    using assms(4-6) by (simp add: adjust_def c ready_def)
  then show thesis by (rule that) (use assms(3,4) in \<open>auto simp: pip_inv_def ready_def intro: followed_not\<close>)
qed

text \<open>No iteration raises, and each keeps the invariant.\<close>

lemma iteration_ok:
  assumes "topology_ok T n" and "inputs_ok T n e" and "pip_inv n s"
  shows "\<exists>s'. pip_iteration T e s = (True, s') \<and> pip_inv n s' \<and> (steady e \<longrightarrow> followed T e s s')"
proof (cases "full_mode s \<and> reading e \<noteq> None")
  case True
  then obtain budget watts m where r: "reading e = Some (budget, watts, m)" by auto
  note m = reading_metrics [OF assms(2) r]
  obtain s1 where s1: "pip_iteration T e s = adjust T e watts m s1" "ready n budget s s1"
    using iteration_reads [OF assms(2,3) _ r] True by blast
  show ?thesis unfolding s1(1)
    using adjust_strict [OF assms(1,2) m assms(3) s1(2)] adjust_increase [OF assms(1,2) m assms(3) s1(2)] adjust_hold [OF assms(1) m assms(3) s1(2)]
    by metis
next
  case False
  then show ?thesis using iteration_skips [of s e T] assms(3) followed_not unfolding pip_inv_def by metis
qed

lemma run_ok:
  "topology_ok T n \<Longrightarrow> \<forall>e \<in> set es. inputs_ok T n e \<Longrightarrow> pip_inv n s \<Longrightarrow> \<exists>s'. pip_run T es s = (True, s') \<and> pip_inv n s'"
proof (induction es arbitrary: s)
  case (Cons e es)
  obtain s1 where s1: "pip_iteration T e s = (True, s1)" "pip_inv n s1" using iteration_ok [OF Cons.prems(1) _ Cons.prems(3)] Cons.prems(2) by auto
  then show ?case using Cons.IH [OF Cons.prems(1) _ s1(2)] Cons.prems(2) by auto
qed simp

subsection \<open>Runs\<close>





text \<open>The limits of a group: as they were at the start, or the quota in the file is that of the variable, up to the read-back.\<close>

definition limit_ok :: "(cgroup \<Rightarrow> int) \<Rightarrow> (cgroup \<Rightarrow> int option) \<Rightarrow> pip \<Rightarrow> cgroup \<Rightarrow> bool" where
  "limit_ok N files s g \<longleftrightarrow> bandwidth s g = 100 \<and> cpu_max s g = files g \<or>
     (\<exists>v. 1 \<le> v \<and> v \<le> 100 \<and> cpu_max s g = Some (1000 * N g * v) \<and> (bandwidth s g = v \<or> bandwidth s g = drift v))"

definition cores_number :: "topology \<Rightarrow> (cgroup \<Rightarrow> int) \<Rightarrow> env \<Rightarrow> bool" where
  "cores_number T N e \<longleftrightarrow> (\<forall>g \<in> {User, Critical}. int (length (group_cores T e g)) = N g)"

lemma drift_cases: "b = v \<or> b = drift v \<longleftrightarrow> b = v \<or> v \<in> {29, 57, 58} \<and> b = v - 1"
  by (auto simp: drift_def)

lemma limit_quota_exact:
  assumes "cores_agree T e" and "cores_number T N e" and "1 \<le> v" and "v \<le> 100"
  shows "limit_quota T e g v = 1000 * N g * v"
proof -
  have "int (length (group_cores T e g)) = N g" "int (length (group_cores T e g)) < 2 ^ 30"
    using assms(1,2) by (cases g; simp add: cores_agree_def cores_number_def flip: of_nat_less_iff)+
  then show ?thesis using quota_of_exact [of "N g" v] assms(3,4) by (metis limit_quota_def of_nat_0_le_iff)
qed

lemma limit_ok_init: "\<forall>g. limit_ok N files (pip_init files) g"
proof
  show "limit_ok N files (pip_init files) g" for g by (cases g) (simp_all add: limit_ok_def pip_init_def)
qed

lemma limit_ok_step:
  assumes "inputs_ok T n e" and "cores_number T N e" and "followed T e s s'" and "limit_ok N files s g"
  shows "limit_ok N files s' g"
proof -
  have "moved T e s g (bandwidth s' g) (cpu_max s' g)" using assms(3) by (cases g) (simp_all add: followed_def follows_def)
  then consider "bandwidth s' g = bandwidth s g" "cpu_max s' g = cpu_max s g"
    | v where "1 \<le> v" "v \<le> 100" "cpu_max s' g = Some (limit_quota T e g v)" "bandwidth s' g = v \<or> bandwidth s' g = drift v"
    by (auto simp: moved_def)
  then show ?thesis
  proof cases
    case 1
    then show ?thesis using assms(4) by (simp add: limit_ok_def)
  next
    case (2 v)
    then show ?thesis using limit_quota_exact [OF inputs_ok_agree [OF assms(1)] assms(2) 2(1,2), of g] by (auto simp: limit_ok_def)
  qed
qed

lemma run_limits:
  "topology_ok T n \<Longrightarrow> \<forall>e \<in> set es. inputs_ok T n e \<and> steady e \<and> cores_number T N e \<Longrightarrow> pip_inv n s \<Longrightarrow> \<forall>g. limit_ok N files s g \<Longrightarrow>
    \<exists>s'. pip_run T es s = (True, s') \<and> (\<forall>g. limit_ok N files s' g)"
proof (induction es arbitrary: s)
  case (Cons e es)
  have e: "inputs_ok T n e" "steady e" "cores_number T N e" using Cons.prems(2) by simp_all
  obtain s1 where s1: "pip_iteration T e s = (True, s1)" "pip_inv n s1" "followed T e s s1"
    using iteration_ok [OF Cons.prems(1) e(1) Cons.prems(3)] e(2) by blast
  then have "\<forall>g. limit_ok N files s1 g" using limit_ok_step [OF e(1,3) s1(3)] Cons.prems(4) by blast
  then show ?case using Cons.IH [OF Cons.prems(1) _ s1(2)] Cons.prems(2) s1(1) by auto
qed simp

subsection \<open>A machine with four cores\<close>

text \<open>The concrete machine of the witnesses: a budget of 100 watts and a model that always predicts 90.\<close>

definition demo_topology :: topology where
  "demo_topology = load_topology_metrics 4 (Some ''24 24 3000'')"

definition demo_env :: "double \<Rightarrow> env" where
  "demo_env watts = \<lparr>budget_file = Some ''100'', measured = Some watts, metrics = Some (replicate 25 (F 50)),
     user_effective = Some ''0-3'', user_cpus = Some ''0-3'', critical_effective = Some ''0,1-3'', critical_cpus = Some ''0-3'',
     writable = (\<lambda>g q. True), readable = (\<lambda>g. True), regression = Some (\<lambda>m. Some 90)\<rparr>"

lemma demo_topology_eq: "demo_topology = \<lparr>topol_size = 24, direct_metrics_size = 24, max_freq = 3000, core_info_count = 6, num_cores = 4\<rparr>"
proof -
  have "py_words (first_line ''24 24 3000'') = [''24'', ''24'', ''3000'']" by code_simp
  moreover have "py_int ''24'' = Some 24" "py_int ''3000'' = Some 3000" by code_simp+
  moreover have "int_div 24 4 = Some 6" using rne_int [of 6] by (simp add: int_div_def)
  ultimately show ?thesis by (simp add: demo_topology_def load_topology_metrics_def py_get_def py_index_def f_trunc_def)
qed

lemma demo_cores: "read_cpuset (Some ''0-3'') = [0, 1, 2, 3]" "read_cpuset (Some ''0,1-3'') = [0, 1, 2, 3]"
  by code_simp+

lemma demo_group: "group_cores demo_topology (demo_env w) g = [0, 1, 2, 3]" "back_cores (demo_env w) g = [0, 1, 2, 3]"
  by (cases g; simp add: demo_env_def get_user_cores_def get_critical_cores_def demo_topology_eq demo_cores back_cores_def)+

lemma demo_ok: "topology_ok demo_topology 25" "inputs_ok demo_topology 25 (demo_env w)" "steady (demo_env w)"
    "cores_number demo_topology (\<lambda>g. 4) (demo_env w)"
proof -
  show "topology_ok demo_topology 25" by (simp add: topology_ok_def demo_topology_eq)
  have "cores_agree demo_topology (demo_env w)" by (simp add: cores_agree_def demo_group)
  then show "inputs_ok demo_topology 25 (demo_env w)" by (simp add: inputs_ok_def demo_env_def map_ok_def)
  show "steady (demo_env w)" by (simp add: steady_def demo_group) (simp add: demo_env_def)
  show "cores_number demo_topology (\<lambda>g. 4) (demo_env w)" by (simp add: cores_number_def demo_group)
qed





subsection \<open>Properties\<close>

text \<open>C1: the controller never fails, keeps its limits in range and keeps its priorities. Let the metrics sampled in each
  iteration be numbers, let the model predict for every map of their length, and let the cores of a group be as many when
  its quota is written as when it is read back. Then, whatever budgets and powers are read, no iteration raises an
  exception, both bandwidths stay between 1 and 100 percent, and the critical group is below 100 only while the user group
  is at 1. If moreover the \<^verbatim>\<open>cpu.max\<close> files can be written and read and group \<open>g\<close> always has \<open>N g\<close> cores, then the file of
  each group is as it was at the start with the bandwidth at 100, or it holds the quota of the bandwidth, except that after
  a quota of 29, 57 or 58 percent the bandwidth may be one percent less, because the read-back in floating point is.\<close>

theorem pip_run_invariant:
  assumes "topology_ok T n" and "\<forall>e \<in> set es. inputs_ok T n e"
  shows "\<exists>s. pip_run T es (pip_init files) = (True, s) \<and>
    1 \<le> current_bandwidth s \<and> current_bandwidth s \<le> 100 \<and> 1 \<le> current_bandwidth2 s \<and> current_bandwidth2 s \<le> 100 \<and>
    (current_bandwidth2 s < 100 \<longrightarrow> current_bandwidth s = 1) \<and>
    ((\<forall>e \<in> set es. steady e \<and> cores_number T N e) \<longrightarrow>
      (\<forall>g. bandwidth s g = 100 \<and> cpu_max s g = files g \<or>
        (\<exists>v. 1 \<le> v \<and> v \<le> 100 \<and> cpu_max s g = Some (1000 * N g * v) \<and> (bandwidth s g = v \<or> v \<in> {29, 57, 58} \<and> bandwidth s g = v - 1))))"
proof -
  obtain s where s: "pip_run T es (pip_init files) = (True, s)" "pip_inv n s" using run_ok [OF assms pip_inv_init, of files] by blast
  have "\<forall>g. limit_ok N files s g" if "\<forall>e \<in> set es. steady e \<and> cores_number T N e"
    using run_limits [OF assms(1) _ pip_inv_init limit_ok_init, of es N files] assms(2) that s(1) by simp
  then show ?thesis using s unfolding limit_ok_def drift_cases by (simp add: pip_inv_def)
qed

theorem pip_run_invariant_witness:
  "topology_ok demo_topology 25 \<and> list_all (\<lambda>e. inputs_ok demo_topology 25 e \<and> steady e) [demo_env 120, demo_env 99, demo_env 40] \<and>
    (\<exists>s. pip_run demo_topology [demo_env 120, demo_env 99, demo_env 40] (pip_init (\<lambda>g. None)) = (True, s) \<and>
      current_bandwidth s \<in> {1..100} \<and>
      (\<forall>g. bandwidth s g = 100 \<and> cpu_max s g = None \<or> (\<exists>v \<in> {1..100}. cpu_max s g = Some (4000 * v) \<and> bandwidth s g \<in> {v - 1, v})))"
proof -
  let ?es = "[demo_env 120, demo_env 99, demo_env 40]"
  obtain s where s: "pip_run demo_topology ?es (pip_init (\<lambda>g. None)) = (True, s)" "1 \<le> current_bandwidth s" "current_bandwidth s \<le> 100"
      "(\<forall>e \<in> set ?es. steady e \<and> cores_number demo_topology (\<lambda>g. 4) e) \<longrightarrow>
      (\<forall>g. bandwidth s g = 100 \<and> cpu_max s g = None \<or>
        (\<exists>v. 1 \<le> v \<and> v \<le> 100 \<and> cpu_max s g = Some (1000 * 4 * v) \<and> (bandwidth s g = v \<or> v \<in> {29, 57, 58} \<and> bandwidth s g = v - 1)))"
    using pip_run_invariant [of demo_topology 25 ?es "\<lambda>g. None" "\<lambda>g. 4"] demo_ok by auto
  have "\<forall>g. bandwidth s g = 100 \<and> cpu_max s g = None \<or>
      (\<exists>v. 1 \<le> v \<and> v \<le> 100 \<and> cpu_max s g = Some (1000 * 4 * v) \<and> (bandwidth s g = v \<or> v \<in> {29, 57, 58} \<and> bandwidth s g = v - 1))"
    using s(4) demo_ok by simp
  then have "\<forall>g. bandwidth s g = 100 \<and> cpu_max s g = None \<or> (\<exists>v \<in> {1..100}. cpu_max s g = Some (4000 * v) \<and> bandwidth s g \<in> {v - 1, v})"
    by fastforce
  then show ?thesis using s(1-3) demo_ok by auto
qed





end
