(* ===== verification/Spec2Isabelle.thy ===== *)
theory Spec2Isabelle
  imports Redis_Prelude Redis_Util Redis_Intset Redis_Listpack_Enc Redis_Listpack Redis_Listpack_Ops
    Redis_Listpack_Random Redis_Glob Redis_Adlist Redis_Dict Redis_Dict_Inv Redis_Dict_Ops
    Redis_Dict_Map Redis_Dict_Scan Redis_Hash Double Pip_Python Pip_Control Pip_Quota Pip_Search Pip_Safety
begin

text \<open>
  PIP keeps the power of a server under a budget by limiting the CPU bandwidth of control groups. Its controller samples
  the power and performance metrics, predicts with a regression model what a limit would do, and sets the limits of the
  groups \<^verbatim>\<open>user\<close> and \<^verbatim>\<open>critical\<close>. The repository also has the programs the controller is evaluated with, among them Redis
  7.2.3 (\<^verbatim>\<open>src/benchmark-suites/redis/redis-7.2.3/src\<close>). This development models the controller and the self-contained data
  structures and algorithms of Redis, and proves them correct.

  \<^bold>\<open>How the code is modelled.\<close> A C or Python function is a HOL function of the same name, with its loops as functions of
  their own. State is passed explicitly. In the C models an outer \<open>None\<close> is undefined behaviour, a failed assertion or an
  abort, and an inner \<open>None\<close> a \<^verbatim>\<open>NULL\<close> the code returns: so a theorem that a call is \<open>Some\<close> says that every access is inside
  its block. In the models of Python \<open>None\<close> or a false flag is an exception. Unsigned integers are words or naturals reduced
  modulo \<open>2 ^ w\<close>, signed ones integers with their range checked. Allocators, \<^verbatim>\<open>rand\<close>, \<^verbatim>\<open>qsort\<close>, the clock, the callbacks and the
  regression model are parameters with named contracts. A loop that may not end is a \<^verbatim>\<open>partial_function\<close> in the option
  type, and the theorems show that it returns; no definition runs on fuel.

  \<^bold>\<open>The controller, \<^verbatim>\<open>src/control/powercap_CPU_powertrace-final.py\<close>.\<close>
  \<^item> \<open>Double\<close>: double arithmetic as exact reals rounded to 53 bits, with the proof that the rounding is to the nearest.
  \<^item> \<open>Pip_Python\<close>: Python lists, ranges, \<^verbatim>\<open>int\<close>, \<^verbatim>\<open>strip\<close> and \<^verbatim>\<open>split\<close>.
  \<^item> \<open>Pip_Control\<close>: the global variables and the \<^verbatim>\<open>cpu.max\<close> files (\<open>pip\<close>), the files read (\<^verbatim>\<open>read_cpuset\<close>, \<^verbatim>\<open>read_cpu_max\<close>,
    \<^verbatim>\<open>set_cpu_limit\<close>, \<^verbatim>\<open>load_topology_metrics\<close>), the feature maps (\<^verbatim>\<open>update_feature_map_generic\<close>, \<^verbatim>\<open>update_adjustment\<close>), raising
    (\<^verbatim>\<open>recover_bandwidth\<close>, \<^verbatim>\<open>predict_featuremap\<close>, \<^verbatim>\<open>increase_bandwidth\<close>), lowering (\<^verbatim>\<open>critical_power_capping\<close>,
    \<^verbatim>\<open>strict_power_capping\<close>) and the loop of \<^verbatim>\<open>run_stress_test\<close> (\<open>pip_iteration\<close>, \<open>pip_run\<close>).
  \<^item> \<open>Pip_Quota\<close>: the percentage read back for a quota; it is one less for 29, 57 and 58 percent. \<open>Pip_Search\<close>: the searches
    return and no index is out of range. \<open>Pip_Safety\<close>: no iteration raises, the bandwidths stay in 1..100 and the critical
    group is throttled only with the user group at 1, the files hold the quotas of the variables, an iteration over the
    budget lowers the limits, and 198 iterations under the budget give all bandwidth back.

  \<^bold>\<open>Redis.\<close>
  \<^item> \<open>Redis_Prelude\<close>: bytes, little-endian integers, blocks with checked accesses, the allocator.
  \<^item> \<open>Redis_Util\<close> (\<^verbatim>\<open>util.c\<close>): printing and parsing of integers and memory sizes. \<^verbatim>\<open>string2ll\<close> accepts exactly the decimal
    notations and is inverse to \<^verbatim>\<open>ll2string\<close> (interface \<open>int_text\<close>); what \<^verbatim>\<open>string2ull\<close> and \<^verbatim>\<open>memtoull\<close> do out of range.
  \<^item> \<open>Redis_Glob\<close> (\<^verbatim>\<open>util.c\<close>): \<^verbatim>\<open>stringmatchlen\<close> agrees with a matcher on tokens, in spite of its early exit.
  \<^item> \<open>Redis_Intset\<close> (\<^verbatim>\<open>intset.c\<close>, \<^verbatim>\<open>intset.h\<close>): the integer set on its bytes implements finite sets (interface \<open>int_set\<close>), and the deep
    validation accepts exactly the encodings of sets.
  \<^item> \<open>Redis_Listpack_Enc\<close>, \<open>Redis_Listpack\<close>, \<open>Redis_Listpack_Ops\<close>, \<open>Redis_Listpack_Random\<close> (\<^verbatim>\<open>listpack.c\<close>, \<^verbatim>\<open>listpack.h\<close>): the entry encodings
    and their round trip; navigation, insertion, replacement and deletion on the bytes (interface \<open>byte_seq\<close>); search, ranges,
    batches, merging and the integrity check; random picks.
  \<^item> \<open>Redis_Adlist\<close> (\<^verbatim>\<open>adlist.c\<close>, \<^verbatim>\<open>adlist.h\<close>): the linked list on a heap of nodes implements functional lists, without leaks.
  \<^item> \<open>Redis_Dict\<close> (\<^verbatim>\<open>dict.c\<close>, \<^verbatim>\<open>dict.h\<close>): the hash table with incremental rehashing, on tagged entry pointers. \<open>Redis_Dict_Inv\<close> has its
    invariant, \<open>Redis_Dict_Ops\<close> the operations, \<open>Redis_Dict_Map\<close> the refinement to finite maps, the end of rehashing and the release of
    all memory, \<open>Redis_Dict_Scan\<close> the cursor scan that misses no key and the table sizes.
  \<^item> \<open>Redis_Hash\<close> (\<^verbatim>\<open>crc16.c\<close>, \<^verbatim>\<open>siphash.c\<close>, \<^verbatim>\<open>keyHashSlot\<close> of \<^verbatim>\<open>cluster.c\<close>): the checksum table is the polynomial, the slot depends on the
    hash tag only, and the case-insensitive hash is the hash in lower case.

  In Redis the listpacks and integer sets are the small encodings of hashes, sets and lists, with their numbers parsed and
  printed by \<^verbatim>\<open>util.c\<close>; the hash table holds the key space and the large encodings, its keys are hashed by \<^verbatim>\<open>siphash.c\<close>, its
  scan filters by the glob matcher, and lists of clients and replies are linked lists.

  \<^bold>\<open>Bounds.\<close> Listpacks have less than \<open>2 ^ 32\<close> bytes, as their header demands. Integer sets have less than \<open>2 ^ 32\<close> bytes of contents,
  the range of the byte count in \<^verbatim>\<open>intsetMoveTail\<close>, so up to \<open>2 ^ 29\<close> operations are always safe. Hash tables have less than \<open>2 ^ 40\<close>
  entries, so that no counter or table size overflows, and the allocator is assumed to serve that many entries and tables of
  \<open>2 ^ 50\<close> buckets; \<^verbatim>\<open>dictRehash\<close> gets at most \<open>214748364\<close> buckets, where ten times the number is an \<^verbatim>\<open>int\<close>. Random picks are at most
  \<open>2 ^ 31\<close>, the range of the index \<^verbatim>\<open>storeorder\<close>. Groups of the controller have less than \<open>2 ^ 30\<close> cores, where quotas are exact
  doubles. Doubles have an unbounded exponent: overflow to infinity, subnormal numbers and NaN are not modelled.

  \<^bold>\<open>Not modelled.\<close> Of the controller: running \<^verbatim>\<open>perf\<close> and \<^verbatim>\<open>cpupower\<close> and parsing what they print, which is input of an iteration, and the
  regression model. Of \<^verbatim>\<open>util.c\<close>: conversions of floating-point numbers, paths, files and random bytes. Of \<^verbatim>\<open>dict.c\<close>: the double
  accessors, entry metadata, the progress callback and the statistics. Of \<^verbatim>\<open>listpack.c\<close>: the diagnostic printer. Test code. The rest
  of Redis (event loop, networking, persistence, replication, cluster bus, commands), its bundled libraries, the other
  controllers, the scripts for estimation, attribution, training and plotting, and the other benchmarks are input and output,
  calls of third-party packages, or programs of their own.
\<close>

end
